(* ===== verification/Eloq_Prelude.thy ===== *)
theory Eloq_Prelude
  imports "HOL-Library.Word" "HOL-Library.Sublist" "HOL-Library.Mapping"
begin

text \<open>
  Shared vocabulary of the development: the machine types of the C++ sources, the error
  codes, the interface of a byte codec and the generic list lemmas used by the component
  theories.

  A \<open>std::string\<close> or a byte buffer is a list of 8-bit words.  A \<open>const char *\<close> together with
  the limit of its buffer is the list of the bytes that remain; a routine that returns
  \<open>nullptr\<close> on malformed input is a function into an option type, and one that advances the
  pointer also returns the bytes that are left.
\<close>

unbundle bit_operations_syntax

section \<open>Machine types\<close>

type_synonym byte = "8 word"
type_synonym bytes = "8 word list"
type_synonym uint16 = "16 word"
type_synonym uint32 = "32 word"
type_synonym uint64 = "64 word"

text \<open>\<open>PageId\<close> is a 32-bit and \<open>FilePageId\<close>/\<open>FileId\<close> a 64-bit unsigned integer
  (\<open>include/types.h\<close>); the all-ones values mark "none".\<close>

type_synonym PageId = uint32
type_synonym FilePageId = uint64
type_synonym FileId = uint64

definition MaxPageId :: PageId where
  "MaxPageId = - 1"

definition MaxFilePageId :: FilePageId where
  "MaxFilePageId = - 1"

definition MaxFileId :: FileId where
  "MaxFileId = - 1"

section \<open>Error codes\<close>

datatype KvError =
    NoError | InvalidArgs | NotFound | ResourceMissing | NotRunning | Corrupted | EndOfFile
  | OutOfSpace | OutOfMem | OpenFileLimit | TryAgain | Busy | Timeout | NoPermission
  | CloudErr | IoFail | ExpiredTerm | OssInsufficientStorage | AlreadyExists
  | LargeValueUnsupported

definition IsRetryableErr :: "KvError \<Rightarrow> bool" where
  "IsRetryableErr err = (case err of OpenFileLimit \<Rightarrow> True | Busy \<Rightarrow> True | TryAgain \<Rightarrow> True | _ \<Rightarrow> False)"

section \<open>Proof collections\<close>

named_theorems codec_simps \<open>decoding what an encoder produced\<close>
named_theorems size_simps \<open>sizes of encodings and of buffers\<close>

section \<open>Counted and exhaustive decoding\<close>

text \<open>\<open>decode_n dec n bs\<close> decodes \<open>n\<close> items one after the other, \<open>decode_all dec bs\<close> decodes
  items until the input is empty, as the loops \<open>while (!view.empty())\<close> of the sources do.
  The recursion of the second stops at an item that consumes no byte.\<close>

fun decode_n :: "(bytes \<Rightarrow> ('a \<times> bytes) option) \<Rightarrow> nat \<Rightarrow> bytes \<Rightarrow> ('a list \<times> bytes) option" where
  "decode_n dec 0 bs = Some ([], bs)"
| "decode_n dec (Suc n) bs =
    (case dec bs of
       None \<Rightarrow> None
     | Some (x, bs1) \<Rightarrow>
        (case decode_n dec n bs1 of None \<Rightarrow> None | Some (xs, bs2) \<Rightarrow> Some (x # xs, bs2)))"

function decode_all :: "(bytes \<Rightarrow> ('a \<times> bytes) option) \<Rightarrow> bytes \<Rightarrow> 'a list option" where
  "decode_all dec bs =
    (if bs = [] then Some []
     else case dec bs of
       None \<Rightarrow> None
     | Some (x, bs1) \<Rightarrow>
        (if length bs1 < length bs then map_option ((#) x) (decode_all dec bs1) else None))"
  by pat_completeness auto
termination
  by (relation "measure (\<lambda>(_, bs). length bs)") auto

declare decode_all.simps [simp del]

section \<open>The interface of a codec\<close>

text \<open>What a serialiser and its parser promise each other: the parser gives back the value
  and exactly the bytes that follow it.  \<open>valid\<close> bounds the values the encoding covers.\<close>

locale codec =
  fixes enc :: "'a \<Rightarrow> bytes"
    and dec :: "bytes \<Rightarrow> ('a \<times> bytes) option"
    and valid :: "'a \<Rightarrow> bool"
  assumes dec_enc: "valid x \<Longrightarrow> dec (enc x @ rest) = Some (x, rest)"
begin

lemma dec_enc_nil: "valid x \<Longrightarrow> dec (enc x) = Some (x, [])"
  using dec_enc [of x "[]"] by simp

lemma prefix_free:
  assumes "valid x" "valid y" "enc x @ r = enc y @ s"
  shows "x = y \<and> r = s"
proof -
  have "Some (x, r) = Some (y, s)"
    by (metis assms dec_enc)
  then show ?thesis by simp
qed

lemma enc_inject: "valid x \<Longrightarrow> valid y \<Longrightarrow> enc x = enc y \<longleftrightarrow> x = y"
  using prefix_free [of x y "[]" "[]"] by auto

lemma decode_n_concat:
  "list_all valid xs \<Longrightarrow> decode_n dec (length xs) (concat (map enc xs) @ rest) = Some (xs, rest)"
  by (induction xs) (simp_all add: dec_enc)

lemma concat_inject:
  assumes "list_all valid xs" "list_all valid ys" "length xs = length ys"
    and "concat (map enc xs) = concat (map enc ys)"
  shows "xs = ys"
proof -
  have "Some (xs, []) = Some (ys, [] :: bytes)"
    by (metis assms decode_n_concat)
  then show ?thesis by simp
qed

end

text \<open>A codec whose encodings are never empty can also be decoded until the input ends.\<close>

locale nonempty_codec = codec +
  assumes enc_nonempty: "valid x \<Longrightarrow> enc x \<noteq> []"
begin

lemma decode_all_concat:
  "list_all valid xs \<Longrightarrow> decode_all dec (concat (map enc xs)) = Some xs"
proof (induction xs)
  case Nil
  show ?case by (simp add: decode_all.simps)
next
  case (Cons x xs)
  then show ?case
    by (subst decode_all.simps) (simp add: dec_enc enc_nonempty)
qed

end

section \<open>The interface of an id allocator\<close>

text \<open>\<open>alloc_n\<close> takes several ids one after the other, \<open>release_all\<close> gives several back.\<close>

fun alloc_n :: "('s \<Rightarrow> ('i \<times> 's) option) \<Rightarrow> nat \<Rightarrow> 's \<Rightarrow> ('i list \<times> 's) option" where
  "alloc_n alloc 0 s = Some ([], s)"
| "alloc_n alloc (Suc n) s =
    (case alloc s of
       None \<Rightarrow> None
     | Some (i, s1) \<Rightarrow> map_option (\<lambda>(is, s2). (i # is, s2)) (alloc_n alloc n s1))"

fun release_all :: "('s \<Rightarrow> 'i \<Rightarrow> 's option) \<Rightarrow> 'i list \<Rightarrow> 's \<Rightarrow> 's option" where
  "release_all release [] s = Some s"
| "release_all release (i # is) s = Option.bind (release s i) (release_all release is)"

text \<open>The ids in use are \<open>live s\<close>; \<open>room s\<close> ids can still be handed out. An allocation never hands
  out an id in use, and a release takes exactly the released id out of use.\<close>

locale id_allocator =
  fixes inv :: "'s \<Rightarrow> bool"
    and live :: "'s \<Rightarrow> 'i set"
    and room :: "'s \<Rightarrow> nat"
    and alloc :: "'s \<Rightarrow> ('i \<times> 's) option"
    and release :: "'s \<Rightarrow> 'i \<Rightarrow> 's option"
  assumes alloc_fresh: "inv s \<Longrightarrow> 0 < room s \<Longrightarrow>
      \<exists>i s'. alloc s = Some (i, s') \<and> inv s' \<and> i \<notin> live s \<and> live s' = insert i (live s)
        \<and> room s = Suc (room s')"
    and release_live: "inv s \<Longrightarrow> i \<in> live s \<Longrightarrow>
      \<exists>s'. release s i = Some s' \<and> inv s' \<and> live s' = live s - {i} \<and> room s' = Suc (room s)"
begin

lemma alloc_n_fresh:
  "inv s \<Longrightarrow> n \<le> room s \<Longrightarrow>
    \<exists>is s'. alloc_n alloc n s = Some (is, s') \<and> inv s' \<and> length is = n \<and> distinct is
      \<and> set is \<inter> live s = {} \<and> live s' = live s \<union> set is \<and> room s = room s' + n"
proof (induction n arbitrary: s)
  case (Suc n)
  then obtain i s1 where 1: "alloc s = Some (i, s1)" "inv s1" "i \<notin> live s" "live s1 = insert i (live s)"
    "room s = Suc (room s1)"
    using alloc_fresh [of s] by auto
  moreover obtain "is" s' where "alloc_n alloc n s1 = Some (is, s')" "inv s'" "length is = n" "distinct is"
    "set is \<inter> live s1 = {}" "live s' = live s1 \<union> set is" "room s1 = room s' + n"
    using Suc.IH [of s1] Suc.prems 1 by auto
  ultimately show ?case by (intro exI [of _ "i # is"] exI [of _ s']) auto
qed simp

lemma release_all_live:
  "inv s \<Longrightarrow> distinct is \<Longrightarrow> set is \<subseteq> live s \<Longrightarrow>
    \<exists>s'. release_all release is s = Some s' \<and> inv s' \<and> live s' = live s - set is
      \<and> room s' = room s + length is"
proof (induction "is" arbitrary: s)
  case (Cons i "is")
  then obtain s1 where "release s i = Some s1" "inv s1" "live s1 = live s - {i}" "room s1 = Suc (room s)"
    using release_live [of s i] by auto
  moreover from this Cons.prems have "set is \<subseteq> live s1" by auto
  ultimately show ?case using Cons.IH [of s1] Cons.prems by fastforce
qed simp

lemma alloc_release:
  assumes "inv s" "n \<le> room s"
  shows "\<exists>is s1 s2. alloc_n alloc n s = Some (is, s1) \<and> release_all release is s1 = Some s2
    \<and> inv s2 \<and> live s2 = live s \<and> room s2 = room s"
proof -
  obtain "is" s1 where 1: "alloc_n alloc n s = Some (is, s1)" "inv s1" "length is = n" "distinct is"
    "set is \<inter> live s = {}" "live s1 = live s \<union> set is" "room s = room s1 + n"
    using alloc_n_fresh [OF assms] by blast
  moreover obtain s2 where "release_all release is s1 = Some s2" "inv s2"
    "live s2 = live s1 - set is" "room s2 = room s1 + length is"
    using release_all_live [of s1 "is"] 1 by blast
  moreover from this 1 have "live s2 = live s" "room s2 = room s" by auto
  ultimately show ?thesis by blast
qed

end

section \<open>Taking a successful computation apart\<close>

lemma bind_SomeE:
  assumes "Option.bind x f = Some y"
  obtains z where "x = Some z" "f z = Some y"
  using assms by (cases x) simp_all

lemma case_prod_SomeE:
  assumes "(case z of (a, b) \<Rightarrow> f a b) = Some y"
  obtains a b where "z = (a, b)" "f a b = Some y"
  using assms by (cases z) simp_all

lemma map_option_SomeE:
  assumes "map_option f x = Some y"
  obtains z where "x = Some z" "y = f z"
  using assms by (cases x) simp_all

lemmas SomeEs = bind_SomeE case_prod_SomeE map_option_SomeE

end
