(* ===== verification/Coding.thy ===== *)
theory Coding
  imports Eloq_Prelude
begin

text \<open>
  Integer encodings of \<open>include/coding.h\<close> and \<open>src/coding.cpp\<close>: little-endian fixed-width
  integers, base-128 varints, and the sign-in-the-lowest-bit form of deltas.
\<close>

lemma unat_drop_bit_7: "unat (drop_bit 7 (v :: uint64)) = unat v div 128"
  by (simp only: unat_drop_bit_eq) (simp add: drop_bit_eq_div)

lemma unat_drop_bit_7_less: "128 \<le> v \<Longrightarrow> unat (drop_bit 7 v) < unat (v :: uint64)"
  by (simp add: unat_drop_bit_7 word_le_nat_alt)

section \<open>Fixed-width integers\<close>

definition EncodeFixed16 :: "uint16 \<Rightarrow> bytes" where
  "EncodeFixed16 value = [ucast value, ucast (drop_bit 8 value)]"

definition EncodeFixed32 :: "uint32 \<Rightarrow> bytes" where
  "EncodeFixed32 value =
    [ucast value, ucast (drop_bit 8 value), ucast (drop_bit 16 value), ucast (drop_bit 24 value)]"

definition EncodeFixed64 :: "uint64 \<Rightarrow> bytes" where
  "EncodeFixed64 value =
    [ucast value, ucast (drop_bit 8 value), ucast (drop_bit 16 value), ucast (drop_bit 24 value),
     ucast (drop_bit 32 value), ucast (drop_bit 40 value), ucast (drop_bit 48 value),
     ucast (drop_bit 56 value)]"

definition DecodeFixed16 :: "bytes \<Rightarrow> uint16" where
  "DecodeFixed16 buffer =
    ucast ((ucast (buffer ! 0) :: uint32) OR push_bit 8 (ucast (buffer ! 1)))"

definition DecodeFixed32 :: "bytes \<Rightarrow> uint32" where
  "DecodeFixed32 buffer =
    ucast (buffer ! 0) OR push_bit 8 (ucast (buffer ! 1)) OR push_bit 16 (ucast (buffer ! 2))
    OR push_bit 24 (ucast (buffer ! 3))"

definition DecodeFixed64 :: "bytes \<Rightarrow> uint64" where
  "DecodeFixed64 buffer =
    ucast (buffer ! 0) OR push_bit 8 (ucast (buffer ! 1)) OR push_bit 16 (ucast (buffer ! 2))
    OR push_bit 24 (ucast (buffer ! 3)) OR push_bit 32 (ucast (buffer ! 4))
    OR push_bit 40 (ucast (buffer ! 5)) OR push_bit 48 (ucast (buffer ! 6))
    OR push_bit 56 (ucast (buffer ! 7))"

definition PutFixed16 :: "bytes \<Rightarrow> uint16 \<Rightarrow> bytes" where
  "PutFixed16 dst value = dst @ EncodeFixed16 value"

definition PutFixed32 :: "bytes \<Rightarrow> uint32 \<Rightarrow> bytes" where
  "PutFixed32 dst value = dst @ EncodeFixed32 value"

definition PutFixed64 :: "bytes \<Rightarrow> uint64 \<Rightarrow> bytes" where
  "PutFixed64 dst value = dst @ EncodeFixed64 value"

text \<open>\<open>__builtin_bswap\<close> on a little-endian machine.\<close>

definition ToBigEndian64 :: "uint64 \<Rightarrow> uint64" where
  "ToBigEndian64 value = DecodeFixed64 (rev (EncodeFixed64 value))"

definition BigEndianToNative64 :: "uint64 \<Rightarrow> uint64" where
  "BigEndianToNative64 value = DecodeFixed64 (rev (EncodeFixed64 value))"

text \<open>Reading a fixed-width integer behind a length check.\<close>

definition TakeFixed16 :: "bytes \<Rightarrow> (uint16 \<times> bytes) option" where
  "TakeFixed16 bs = (if length bs < 2 then None else Some (DecodeFixed16 bs, drop 2 bs))"

definition TakeFixed32 :: "bytes \<Rightarrow> (uint32 \<times> bytes) option" where
  "TakeFixed32 bs = (if length bs < 4 then None else Some (DecodeFixed32 bs, drop 4 bs))"

definition TakeFixed64 :: "bytes \<Rightarrow> (uint64 \<times> bytes) option" where
  "TakeFixed64 bs = (if length bs < 8 then None else Some (DecodeFixed64 bs, drop 8 bs))"

section \<open>Varints\<close>

definition EncodeVarint32 :: "uint32 \<Rightarrow> bytes" where
  "EncodeVarint32 v =
    (if v < 2 ^ 7 then [ucast v]
     else if v < 2 ^ 14 then [ucast (v OR 128), ucast (drop_bit 7 v)]
     else if v < 2 ^ 21 then [ucast (v OR 128), ucast (drop_bit 7 v OR 128), ucast (drop_bit 14 v)]
     else if v < 2 ^ 28 then
       [ucast (v OR 128), ucast (drop_bit 7 v OR 128), ucast (drop_bit 14 v OR 128),
        ucast (drop_bit 21 v)]
     else
       [ucast (v OR 128), ucast (drop_bit 7 v OR 128), ucast (drop_bit 14 v OR 128),
        ucast (drop_bit 21 v OR 128), ucast (drop_bit 28 v)])"

definition Varint32Size :: "uint32 \<Rightarrow> nat" where
  "Varint32Size v =
    (if v < 2 ^ 7 then 1 else if v < 2 ^ 14 then 2 else if v < 2 ^ 21 then 3
     else if v < 2 ^ 28 then 4 else 5)"

definition PutVarint32 :: "bytes \<Rightarrow> uint32 \<Rightarrow> bytes" where
  "PutVarint32 dst v = dst @ EncodeVarint32 v"

function EncodeVarint64 :: "uint64 \<Rightarrow> bytes" where
  "EncodeVarint64 v =
    (if v \<ge> 128 then ucast (v OR 128) # EncodeVarint64 (drop_bit 7 v) else [ucast v])"
  by pat_completeness auto
termination
  by (relation "measure unat")
    (auto intro: unat_drop_bit_7_less)

declare EncodeVarint64.simps [simp del]

function Varint64Size_loop :: "uint64 \<Rightarrow> nat \<Rightarrow> nat" where
  "Varint64Size_loop value bytes =
    (if value \<ge> 128 then Varint64Size_loop (drop_bit 7 value) (Suc bytes) else bytes)"
  by pat_completeness auto
termination
  by (relation "measure (\<lambda>(v, _). unat v)")
    (auto intro: unat_drop_bit_7_less)

declare Varint64Size_loop.simps [simp del]

definition Varint64Size :: "uint64 \<Rightarrow> nat" where
  "Varint64Size value = Varint64Size_loop value 1"

definition PutVarint64 :: "bytes \<Rightarrow> uint64 \<Rightarrow> bytes" where
  "PutVarint64 dst v = dst @ EncodeVarint64 v"

definition VarintLength :: "uint64 \<Rightarrow> nat" where
  "VarintLength v = Varint64Size_loop v 1"

function GetVarint32PtrFallback_loop :: "nat \<Rightarrow> uint32 \<Rightarrow> bytes \<Rightarrow> (uint32 \<times> bytes) option" where
  "GetVarint32PtrFallback_loop shift result p =
    (if shift \<le> 28 \<and> p \<noteq> [] then
       let byte = ucast (hd p) :: uint32 in
       if byte AND 128 \<noteq> 0
       then GetVarint32PtrFallback_loop (shift + 7) (result OR push_bit shift (byte AND 127)) (tl p)
       else Some (result OR push_bit shift byte, tl p)
     else None)"
  by pat_completeness auto
termination
  by (relation "measure (\<lambda>(shift, _). 29 - shift)") auto

declare GetVarint32PtrFallback_loop.simps [simp del]

definition GetVarint32PtrFallback :: "bytes \<Rightarrow> (uint32 \<times> bytes) option" where
  "GetVarint32PtrFallback p = GetVarint32PtrFallback_loop 0 0 p"

definition GetVarint32Ptr :: "bytes \<Rightarrow> (uint32 \<times> bytes) option" where
  "GetVarint32Ptr p =
    (if p \<noteq> [] \<and> (ucast (hd p) :: uint32) AND 128 = 0 then Some (ucast (hd p), tl p)
     else GetVarint32PtrFallback p)"

definition GetVarint32 :: "bytes \<Rightarrow> (uint32 \<times> bytes) option" where
  "GetVarint32 input = GetVarint32Ptr input"

function GetVarint64Ptr_loop :: "nat \<Rightarrow> uint64 \<Rightarrow> bytes \<Rightarrow> (uint64 \<times> bytes) option" where
  "GetVarint64Ptr_loop shift result p =
    (if shift \<le> 63 \<and> p \<noteq> [] then
       let byte = ucast (hd p) :: uint64 in
       if byte AND 128 \<noteq> 0
       then GetVarint64Ptr_loop (shift + 7) (result OR push_bit shift (byte AND 127)) (tl p)
       else Some (result OR push_bit shift byte, tl p)
     else None)"
  by pat_completeness auto
termination
  by (relation "measure (\<lambda>(shift, _). 64 - shift)") auto

declare GetVarint64Ptr_loop.simps [simp del]

definition GetVarint64Ptr :: "bytes \<Rightarrow> (uint64 \<times> bytes) option" where
  "GetVarint64Ptr p = GetVarint64Ptr_loop 0 0 p"

definition GetVarint64 :: "bytes \<Rightarrow> (uint64 \<times> bytes) option" where
  "GetVarint64 input = GetVarint64Ptr input"

section \<open>Signed deltas\<close>

text \<open>The signed operand is the 32-bit (64-bit) pattern the C++ variable holds; the shift of
  an \<open>int\<close> is taken modulo the width.\<close>

definition EncodeInt32Delta :: "uint32 \<Rightarrow> uint32" where
  "EncodeInt32Delta delta =
    (if 0 \<le>s delta then push_bit 1 delta else push_bit 1 (- delta) OR 1)"

definition DecodeInt32Delta :: "uint32 \<Rightarrow> uint32" where
  "DecodeInt32Delta val =
    (if val AND 1 = 1 then - drop_bit 1 val else drop_bit 1 val)"

definition EncodeInt64Delta :: "uint64 \<Rightarrow> uint64" where
  "EncodeInt64Delta delta =
    (if 0 \<le>s delta then push_bit 1 delta else push_bit 1 (- delta) OR 1)"

definition DecodeInt64Delta :: "uint64 \<Rightarrow> uint64" where
  "DecodeInt64Delta val =
    (if val AND 1 = 1 then - drop_bit 1 val else drop_bit 1 val)"

section \<open>Fixed-width round trips\<close>

lemma bit_byte_at:
  fixes w :: "'a::len word"
  shows "bit (push_bit k (ucast (ucast (drop_bit k w) :: byte)) :: 'a word) n
    \<longleftrightarrow> k \<le> n \<and> n < k + 8 \<and> bit w n"
  by (auto simp: bit_simps dest: bit_imp_le_length)

lemma bit_byte_0:
  fixes w :: "'a::len word"
  shows "bit (ucast (ucast w :: byte) :: 'a word) n \<longleftrightarrow> n < 8 \<and> bit w n"
  by (auto simp: bit_simps dest: bit_imp_le_length)

lemma DecodeFixed16_Encode [simp, codec_simps]: "DecodeFixed16 (EncodeFixed16 v @ rest) = v"
proof (rule bit_word_eqI)
  fix n assume "n < LENGTH(16)"
  then show "bit (DecodeFixed16 (EncodeFixed16 v @ rest)) n = bit v n"
    by (auto simp add: EncodeFixed16_def DecodeFixed16_def bit_simps)
qed

lemma DecodeFixed32_Encode [simp, codec_simps]: "DecodeFixed32 (EncodeFixed32 v @ rest) = v"
proof (rule bit_word_eqI)
  fix n assume "n < LENGTH(32)"
  then show "bit (DecodeFixed32 (EncodeFixed32 v @ rest)) n = bit v n"
    by (simp add: EncodeFixed32_def DecodeFixed32_def bit_or_iff bit_byte_at bit_byte_0) linarith
qed

lemma DecodeFixed64_Encode [simp, codec_simps]: "DecodeFixed64 (EncodeFixed64 v @ rest) = v"
proof (rule bit_word_eqI)
  fix n assume "n < LENGTH(64)"
  then show "bit (DecodeFixed64 (EncodeFixed64 v @ rest)) n = bit v n"
    by (simp add: EncodeFixed64_def DecodeFixed64_def bit_or_iff bit_byte_at bit_byte_0) linarith
qed

lemma length_EncodeFixed [simp, size_simps]:
  "length (EncodeFixed16 a) = 2" "length (EncodeFixed32 b) = 4" "length (EncodeFixed64 c) = 8"
  by (simp_all add: EncodeFixed16_def EncodeFixed32_def EncodeFixed64_def)

lemma EncodeFixed_nonempty [simp]:
  "EncodeFixed16 a \<noteq> []" "EncodeFixed32 b \<noteq> []" "EncodeFixed64 c \<noteq> []"
  by (simp_all add: EncodeFixed16_def EncodeFixed32_def EncodeFixed64_def)

lemma DecodeFixed_nil [simp, codec_simps]:
  "DecodeFixed16 (EncodeFixed16 a) = a" "DecodeFixed32 (EncodeFixed32 b) = b"
  "DecodeFixed64 (EncodeFixed64 c) = c"
  using DecodeFixed16_Encode [of a "[]"] DecodeFixed32_Encode [of b "[]"]
    DecodeFixed64_Encode [of c "[]"] by simp_all

interpretation fixed16: nonempty_codec EncodeFixed16 TakeFixed16 "\<lambda>_. True"
  by unfold_locales (simp_all add: TakeFixed16_def)

interpretation fixed32: nonempty_codec EncodeFixed32 TakeFixed32 "\<lambda>_. True"
  by unfold_locales (simp_all add: TakeFixed32_def)

interpretation fixed64: nonempty_codec EncodeFixed64 TakeFixed64 "\<lambda>_. True"
  by unfold_locales (simp_all add: TakeFixed64_def)

section \<open>Varint round trips\<close>

lemma bit_128: "bit (128 :: int) n \<longleftrightarrow> n = 7"
proof -
  have "bit (128 :: int) n \<longleftrightarrow> bit (push_bit 7 (1 :: int)) n" by simp
  also have "\<dots> \<longleftrightarrow> n = 7" unfolding bit_push_bit_iff by (auto simp: bit_1_iff)
  finally show ?thesis .
qed

lemma bit_127: "bit (127 :: int) n \<longleftrightarrow> n < 7"
proof -
  have "bit (127 :: int) n \<longleftrightarrow> bit (mask 7 :: int) n" by (simp add: mask_numeral)
  also have "\<dots> \<longleftrightarrow> n < 7" unfolding bit_mask_iff by simp
  finally show ?thesis .
qed

lemma less_128_take_bit: "v < 128 \<Longrightarrow> take_bit 7 v = (v :: 'a::len word)"
proof -
  assume v: "v < 128" 
  have "unat v < unat (128 :: 'a word)" using v by (simp only: word_less_nat_alt)
  also have "\<dots> \<le> 128"
    unfolding unsigned_numeral of_nat_id by (rule take_bit_nat_less_eq_self)
  finally have "unat v < 2 ^ 7" by simp
  then have "unat (take_bit 7 v) = unat v"
    by (simp add: unsigned_take_bit_eq take_bit_nat_eq_self)
  then show ?thesis by (rule unsigned_word_eqI)
qed

lemma varint_cont_bit: "(ucast (ucast (v OR 128 :: 'a::len word) :: byte) :: 'a word) AND 128 \<noteq> 0" if "7 < LENGTH('a)"
proof
  assume "(ucast (ucast (v OR 128) :: byte) :: 'a word) AND 128 = 0"
  moreover have "bit ((ucast (ucast (v OR 128) :: byte) :: 'a word) AND 128) 7"
    using that by (simp add: bit_simps)
  ultimately show False by simp
qed

lemma varint_last_byte: 
  fixes v :: "'a::len word"
  assumes "v < 128"
  shows "ucast (ucast v :: byte) = v" "v AND 128 = 0"
proof -
  have *: "\<And>n. bit v n \<Longrightarrow> n < 7"
    using less_128_take_bit[OF assms] by (metis bit_take_bit_iff)
  show "ucast (ucast v :: byte) = v"
    by (rule bit_word_eqI) (auto simp: bit_simps dest: *)
  show "v AND 128 = 0"
    by (rule bit_word_eqI) (auto simp: bit_simps bit_128 dest: *)
qed

lemma GetVarint64Ptr_loop_Cons:
  "shift \<le> 63 \<Longrightarrow> GetVarint64Ptr_loop shift r (b # p) =
    (if (ucast b :: uint64) AND 128 \<noteq> 0
     then GetVarint64Ptr_loop (shift + 7) (r OR push_bit shift (ucast b AND 127)) p
     else Some (r OR push_bit shift (ucast b), p))"
  by (subst GetVarint64Ptr_loop.simps) (simp only: Let_def list.sel list.distinct HOL.simp_thms if_True simp_thms)

lemma EncodeVarint64_step: 
  "128 \<le> v \<Longrightarrow> EncodeVarint64 v = ucast (v OR 128) # EncodeVarint64 (drop_bit 7 v)"
  "\<not> 128 \<le> v \<Longrightarrow> EncodeVarint64 v = [ucast v]"
  by (subst EncodeVarint64.simps, simp)+

lemma unat_drop_bit_7_32: "unat (drop_bit 7 (v :: uint32)) = unat v div 128"
  by (simp only: unat_drop_bit_eq) (simp add: drop_bit_eq_div)

lemma EncodeVarint32_step:
  "128 \<le> v \<Longrightarrow> EncodeVarint32 v = ucast (v OR 128) # EncodeVarint32 (drop_bit 7 v)"
  "\<not> 128 \<le> v \<Longrightarrow> EncodeVarint32 v = [ucast v]"
proof -
  assume v: "128 \<le> v"
  have lt: "unat v < 2 ^ 32" using unsigned_less [of v, where ?'a = nat] by simp
  have *: "drop_bit 7 v < 2 ^ 7 \<longleftrightarrow> v < 2 ^ 14" "drop_bit 7 v < 2 ^ 14 \<longleftrightarrow> v < 2 ^ 21"
     "drop_bit 7 v < 2 ^ 21 \<longleftrightarrow> v < 2 ^ 28" "drop_bit 7 v < 2 ^ 28"
    using lt by (auto simp: word_less_nat_alt unat_drop_bit_7_32)
  have "\<not> v < 2 ^ 7" using v by simp
  moreover have "\<And>k. drop_bit k (drop_bit 7 v) = drop_bit (k + 7) v" by (simp add: add.commute)
  ultimately show "EncodeVarint32 v = ucast (v OR 128) # EncodeVarint32 (drop_bit 7 v)" 
    using *(4) unfolding EncodeVarint32_def *(1-3) by simp
qed (simp add: EncodeVarint32_def)

lemma unat_ucast_32_64: "unat (ucast (v :: uint32) :: uint64) = unat v"
  using unsigned_less [of v, where ?'a = nat] by (simp add: unsigned_ucast_eq take_bit_nat_eq_self)

lemma EncodeVarint32_64: "EncodeVarint32 v = EncodeVarint64 (ucast v)"
proof (induction "unat v" arbitrary: v rule: less_induct)
  case less
  show ?case
  proof (cases "128 \<le> v")
    case True
    then have "unat (drop_bit 7 v) < unat v" by (simp add: unat_drop_bit_7_32 word_le_nat_alt)
    moreover have "(ucast (drop_bit 7 v) :: uint64) = drop_bit 7 (ucast v)"
      by (rule bit_word_eqI) (auto simp: bit_simps dest: bit_imp_le_length)
    ultimately have "EncodeVarint32 (drop_bit 7 v) = EncodeVarint64 (drop_bit 7 (ucast v))"
      using less by simp
    moreover have "128 \<le> (ucast v :: uint64)" using True by (simp add: word_le_nat_alt unat_ucast_32_64)
    moreover have "(ucast (v OR 128) :: byte) = ucast (ucast v OR 128 :: uint64)"
      by (rule bit_word_eqI) (auto simp: bit_simps)
    ultimately show ?thesis using True by (simp add: EncodeVarint32_step EncodeVarint64_step)
  next
    case False
    moreover have "\<not> 128 \<le> (ucast v :: uint64)" using False by (simp add: word_le_nat_alt unat_ucast_32_64)
    moreover have "(ucast v :: byte) = ucast (ucast v :: uint64)"
      by (rule bit_word_eqI) (auto simp: bit_simps)
    ultimately show ?thesis by (simp add: EncodeVarint32_step EncodeVarint64_step)
  qed
qed

lemma GetVarint32PtrFallback_loop_Cons:
  "shift \<le> 28 \<Longrightarrow> GetVarint32PtrFallback_loop shift r (b # p) =
    (if (ucast b :: uint32) AND 128 \<noteq> 0
     then GetVarint32PtrFallback_loop (shift + 7) (r OR push_bit shift (ucast b AND 127)) p
     else Some (r OR push_bit shift (ucast b), p))"
  by (subst GetVarint32PtrFallback_loop.simps) (simp only: Let_def list.sel list.distinct simp_thms if_True)

lemma varint_accumulate:
  fixes r v :: "'a::len word"
  shows "(r OR push_bit shift (ucast (ucast (v OR 128) :: byte) AND 127)) OR push_bit (shift + 7) (drop_bit 7 v)
    = r OR push_bit shift v"
proof (rule bit_word_eqI)
  fix n assume "n < LENGTH('a)"
  then show "bit ((r OR push_bit shift (ucast (ucast (v OR 128) :: byte) AND 127)) OR push_bit (shift + 7) (drop_bit 7 v)) n
    = bit (r OR push_bit shift v) n"
    by (cases "shift + 7 \<le> n") (auto simp: bit_simps bit_127 bit_128)
qed

lemma varint_room:
  assumes "u < (2::nat) ^ (w - shift)" "128 \<le> u"
  shows "shift + 7 < w" "u div 128 < 2 ^ (w - (shift + 7))"
proof -
  show *: "shift + 7 < w"
  proof (rule ccontr)
    assume "\<not> ?thesis"
    then have "w - shift \<le> 7" by simp
    then have "(2::nat) ^ (w - shift) \<le> 2 ^ 7" by (intro power_increasing) simp_all
    then show False using assms by simp
  qed
  then have "w - shift = 7 + (w - (shift + 7))" by simp
  then have "(2::nat) ^ (w - shift) = 2 ^ (w - (shift + 7)) * 128" 
    by (simp only: power_add) simp
  then show "u div 128 < 2 ^ (w - (shift + 7))"
    using assms by (simp add: less_mult_imp_div_less)
qed

lemma GetVarint64_loop_Encode:
  "unat v < 2 ^ (64 - shift) \<Longrightarrow> shift \<le> 63 \<Longrightarrow>
   GetVarint64Ptr_loop shift r (EncodeVarint64 v @ rest) = Some (r OR push_bit shift v, rest)"
proof (induction v arbitrary: shift r rule: EncodeVarint64.induct)
  case (1 v)
  show ?case
  proof (cases "128 \<le> v")
    case True
    then have u: "128 \<le> unat v" by (simp add: word_le_nat_alt)
    note room = varint_room [OF "1.prems"(1) u]
    have d: "unat (drop_bit 7 v) < 2 ^ (64 - (shift + 7))" "shift + 7 \<le> 63"
      using room by (simp_all add: unat_drop_bit_7)
    have "GetVarint64Ptr_loop shift r (EncodeVarint64 v @ rest) =
      GetVarint64Ptr_loop (shift + 7) (r OR push_bit shift (ucast (ucast (v OR 128) :: byte) AND 127))
        (EncodeVarint64 (drop_bit 7 v) @ rest)"
      unfolding EncodeVarint64_step(1) [OF True] append_Cons
        GetVarint64Ptr_loop_Cons [OF "1.prems"(2)]
      using varint_cont_bit [of v] by simp
    also have "\<dots> = Some (r OR push_bit shift v, rest)"
      by (simp only: 1(1) [OF True d] varint_accumulate)
    finally show ?thesis .
  next
    case False
    then show ?thesis using varint_last_byte [of v]
      by (simp add: EncodeVarint64_step GetVarint64Ptr_loop_Cons [OF "1.prems"(2)] not_le)
  qed
qed

lemma GetVarint32_loop_Encode:
  "unat v < 2 ^ (32 - shift) \<Longrightarrow> shift \<in> {0, 7, 14, 21, 28} \<Longrightarrow> 
   GetVarint32PtrFallback_loop shift r (EncodeVarint32 v @ rest) = Some (r OR push_bit shift v, rest)"
proof (induction "unat v" arbitrary: v shift r rule: less_induct)
  case less
  have s: "shift \<le> 28" using less.prems(2) by auto
  show ?case
  proof (cases "128 \<le> v")
    case True
    then have u: "128 \<le> unat v" by (simp add: word_le_nat_alt)
    note room = varint_room [OF less.prems(1) u]
    have d: "unat (drop_bit 7 v) < unat v" "unat (drop_bit 7 v) < 2 ^ (32 - (shift + 7))" 
      using u room by (simp_all add: unat_drop_bit_7_32)
    have sh: "shift + 7 \<in> {0, 7, 14, 21, 28}" using less.prems(2) room(1) by auto
    have "GetVarint32PtrFallback_loop shift r (EncodeVarint32 v @ rest) =
      GetVarint32PtrFallback_loop (shift + 7) (r OR push_bit shift (ucast (ucast (v OR 128) :: byte) AND 127))
        (EncodeVarint32 (drop_bit 7 v) @ rest)"
      unfolding EncodeVarint32_step(1)[OF True] append_Cons GetVarint32PtrFallback_loop_Cons[OF s]
      using varint_cont_bit[of v] by simp
    also have "\<dots> = Some (r OR push_bit shift v, rest)"
      by (simp only: less(1)[OF d sh] varint_accumulate)
    finally show ?thesis .
  next
    case False
    then show ?thesis using varint_last_byte[of v] 
      by (simp add: EncodeVarint32_step GetVarint32PtrFallback_loop_Cons[OF s] not_le)
  qed
qed

lemma GetVarint32_Encode: "GetVarint32 (EncodeVarint32 v @ rest) = Some (v, rest)"
proof (cases "128 \<le> v")
  case True
  have "GetVarint32PtrFallback (EncodeVarint32 v @ rest) = Some (v, rest)"
    using GetVarint32_loop_Encode [of v 0 0 rest] unsigned_less [of v, where ?'a = nat] by (simp add: GetVarint32PtrFallback_def)
  then show ?thesis using True varint_cont_bit[of v]
    by (simp add: GetVarint32_def GetVarint32Ptr_def EncodeVarint32_step)
next
  case False
  then show ?thesis using varint_last_byte [of v]
    by (simp add: GetVarint32_def GetVarint32Ptr_def EncodeVarint32_step not_le)
qed

lemma GetVarint64_Encode: "GetVarint64 (EncodeVarint64 v @ rest) = Some (v, rest)"
  using GetVarint64_loop_Encode [of v 0 0 rest] unsigned_less [of v, where ?'a = nat]
  by (simp add: GetVarint64_def GetVarint64Ptr_def)

lemma Varint64Size_loop_add: "Varint64Size_loop v n = n + length (EncodeVarint64 v) - 1"
proof (induction v n rule: Varint64Size_loop.induct)
  case (1 v n)
  have "EncodeVarint64 w \<noteq> []" for w by (subst EncodeVarint64.simps) simp
  then have "length (EncodeVarint64 (drop_bit 7 v)) > 0" by blast
  then show ?case using 1
    by (subst Varint64Size_loop.simps) (simp add: EncodeVarint64_step)
qed

lemma length_EncodeVarint64: "length (EncodeVarint64 v) = Varint64Size v"
  by (simp add: Varint64Size_def Varint64Size_loop_add)

lemma length_EncodeVarint32: "length (EncodeVarint32 v) = Varint32Size v"
  by (simp add: EncodeVarint32_def Varint32Size_def)

lemma Varint64_bound: "unat v < 2 ^ (7 * n) \<Longrightarrow> 0 < n \<Longrightarrow> length (EncodeVarint64 v) \<le> n"
proof (induction n arbitrary: v)
  case (Suc n)
  show ?case
  proof (cases "128 \<le> v")
    case True
    then have "128 \<le> unat v" by (simp add: word_le_nat_alt)
    then have "0 < n" using Suc.prems by (cases n) auto
    moreover have "unat (drop_bit 7 v) < 2 ^ (7 * n)"
      using Suc.prems by (simp add: unat_drop_bit_7 less_mult_imp_div_less power_add)
    ultimately show ?thesis using Suc.IH True by (simp add: EncodeVarint64_step)
  qed (simp add: EncodeVarint64_step)
qed simp

lemma Varint64Size_bounds: "1 \<le> Varint64Size v" "Varint64Size v \<le> 10"
proof -
  show "1 \<le> Varint64Size v" unfolding length_EncodeVarint64 [symmetric]
    by (subst EncodeVarint64.simps) simp
  show "Varint64Size v \<le> 10" unfolding length_EncodeVarint64 [symmetric]
    using unsigned_less [of v, where ?'a = nat] by (intro Varint64_bound) simp_all
qed

lemma EncodeVarint_nonempty [simp]: "EncodeVarint32 v \<noteq> []" "EncodeVarint64 w \<noteq> []"
  by (simp add: EncodeVarint32_def) (subst EncodeVarint64.simps, simp)

lemmas length_EncodeVarint [simp, size_simps] = length_EncodeVarint32 length_EncodeVarint64

interpretation varint32: nonempty_codec EncodeVarint32 GetVarint32 "\<lambda>_. True"
  by unfold_locales (simp_all add: GetVarint32_Encode)

interpretation varint64: nonempty_codec EncodeVarint64 GetVarint64 "\<lambda>_. True"
  by unfold_locales (simp_all add: GetVarint64_Encode)

lemmas varint_codec [simp, codec_simps] =
  GetVarint32_Encode GetVarint64_Encode varint32.dec_enc_nil [OF TrueI]
  varint64.dec_enc_nil [OF TrueI]

section \<open>Signed delta round trips\<close>

lemma delta_shift:
  fixes d :: "'a::len word"
  assumes "unat d < 2 ^ (LENGTH('a) - 1)"
  shows "drop_bit 1 (push_bit 1 d) = d" "drop_bit 1 (push_bit 1 d OR 1) = d" 
    "push_bit 1 d AND 1 = 0" "(push_bit 1 d OR 1) AND 1 = 1"
proof -
  have "unat (take_bit (LENGTH('a) - 1) d) = unat d"
    using assms by (simp add: unsigned_take_bit_eq take_bit_nat_eq_self)
  then have "take_bit (LENGTH('a) - 1) d = d" by (rule unsigned_word_eqI)
  then have *: "\<And>n. bit d n \<Longrightarrow> n < LENGTH('a) - 1" by (metis bit_take_bit_iff)
  show "drop_bit 1 (push_bit 1 d) = d" "drop_bit 1 (push_bit 1 d OR 1) = d" 
    "push_bit 1 d AND 1 = 0" "(push_bit 1 d OR 1) AND 1 = 1"
    by (rule bit_word_eqI; auto simp: bit_simps simp del: push_bit_Suc drop_bit_Suc One_nat_def dest: *)+
qed

lemma delta_sign:
  fixes d :: "'a::len word"
  shows "0 \<le>s d \<longleftrightarrow> unat d < 2 ^ (LENGTH('a) - 1)"
proof -
  have "0 \<le>s d \<longleftrightarrow> drop_bit (LENGTH('a) - 1) d = 0"
    by (simp add: word_sle_eq drop_bit_eq_zero_iff_not_bit_last bit_last_iff not_less)
  also have "\<dots> \<longleftrightarrow> drop_bit (LENGTH('a) - 1) (unat d) = 0"
    by (simp only: unat_drop_bit_eq [symmetric] unat_eq_zero)
  also have "\<dots> \<longleftrightarrow> unat d < 2 ^ (LENGTH('a) - 1)"
    by (simp add: drop_bit_eq_div div_eq_0_iff)
  finally show ?thesis .
qed

lemma unat_minus_delta:
  fixes d :: "'a::len word"
  assumes "\<not> unat d < 2 ^ (LENGTH('a) - 1)" "d \<noteq> 2 ^ (LENGTH('a) - 1)"
  shows "unat (- d) < 2 ^ (LENGTH('a) - 1)"
proof -
  have p: "(2::nat) ^ LENGTH('a) = 2 * 2 ^ (LENGTH('a) - 1)"
    by (metis One_nat_def Suc_pred len_gt_0 power_Suc)
  have u: "unat (2 ^ (LENGTH('a) - 1) :: 'a word) = 2 ^ (LENGTH('a) - 1)"
    using unsigned_of_nat [of "2 ^ (LENGTH('a) - 1)", where ?'a = nat and ?'b = 'a] p
    by (simp add: take_bit_nat_eq_self)
  have "unat d \<noteq> 2 ^ (LENGTH('a) - 1)"
    using assms(2) u by (metis unsigned_word_eqI)
  moreover have "0 < unat d" using assms(1) by (metis gr0I zero_less_numeral zero_less_power)
  moreover have "unat (- d) = unat (0 - d)" by simp
  then have "unat (- d) = 2 ^ LENGTH('a) - unat d"
    using \<open>0 < unat d\<close> by (simp only: unat_sub_if' unat_0) auto
  ultimately show ?thesis
    using assms(1) p zero_less_power [of "2 :: nat" "LENGTH('a) - 1"] by linarith
qed

lemma DecodeInt32Delta_Encode: "d \<noteq> 2 ^ 31 \<Longrightarrow> DecodeInt32Delta (EncodeInt32Delta d) = d"
  using delta_shift[of d] delta_shift[of "- d"] unat_minus_delta[of d]
  by (cases "0 \<le>s d") (simp_all add: DecodeInt32Delta_def EncodeInt32Delta_def delta_sign)

lemma DecodeInt64Delta_Encode: "d \<noteq> 2 ^ 63 \<Longrightarrow> DecodeInt64Delta (EncodeInt64Delta d) = d"
  using delta_shift[of d] delta_shift[of "- d"] unat_minus_delta[of d]
  by (cases "0 \<le>s d") (simp_all add: DecodeInt64Delta_def EncodeInt64Delta_def delta_sign)

section \<open>Properties\<close>

text \<open>C22: Varints written one after another, 64-bit or 32-bit, read back as the same sequence of
  values, and reading stops exactly at the byte after the last of them.\<close>

theorem varint_stream_roundtrip:
  "decode_n GetVarint64 (length vs) (concat (map EncodeVarint64 vs) @ rest) = Some (vs, rest)
   \<and> decode_n GetVarint32 (length ws) (concat (map EncodeVarint32 ws) @ rest) = Some (ws, rest)"
  using varint64.decode_n_concat [of vs rest] varint32.decode_n_concat [of ws rest]
  by (simp add: list_all_iff)

end
