(* ===== verification/Page_Layout.thy ===== *)
theory Page_Layout
  imports Coding
begin

text \<open>
  Page-level primitives of \<open>include/storage/page.h\<close> and \<open>src/storage/page.cpp\<close> (page type,
  checksum), the options the page formats depend on, and reading and writing a byte range of
  a fixed-size page.

  The hash \<open>XXH3_64bits\<close> is third-party code: it is the parameter \<open>hash\<close> of the definitions
  that use it.
\<close>

section \<open>Options\<close>

text \<open>The fields of \<open>KvOptions\<close> (\<open>include/kv_options.h\<close>) that the modelled code reads.\<close>

record KvOptions =
  data_page_size :: nat
  data_page_restart_interval :: nat
  index_page_restart_interval :: nat
  overflow_pointers :: nat
  pages_per_file_shift :: nat

text \<open>The ranges of the C++ types, and a page that has room for its header and one restart
  point.\<close>

definition valid_options :: "KvOptions \<Rightarrow> bool" where
  "valid_options opts \<longleftrightarrow>
    23 \<le> data_page_size opts \<and> data_page_size opts < 2 ^ 16
    \<and> 0 < data_page_restart_interval opts \<and> 0 < index_page_restart_interval opts"

definition default_options :: KvOptions where
  "default_options =
    \<lparr> data_page_size = 4096, data_page_restart_interval = 16, index_page_restart_interval = 16,
      overflow_pointers = 16, pages_per_file_shift = 18 \<rparr>"

section \<open>Ranges of a page\<close>

text \<open>\<open>memcpy\<close> into, and a \<open>string_view\<close> of, a range of a page.\<close>

definition write_at :: "nat \<Rightarrow> bytes \<Rightarrow> bytes \<Rightarrow> bytes" where
  "write_at off src page = take off page @ src @ drop (off + length src) page"

definition read_at :: "nat \<Rightarrow> nat \<Rightarrow> bytes \<Rightarrow> bytes" where
  "read_at off n page = take n (drop off page)"

text \<open>\<open>std::string::resize\<close>: cut, or pad with zero bytes.\<close>

definition resize :: "nat \<Rightarrow> bytes \<Rightarrow> bytes" where
  "resize n bs = take n bs @ replicate (n - length bs) 0"

section \<open>Page type and checksum\<close>

datatype PageType = NonLeafIndex | LeafIndex | Data | Overflow | Deleted

definition checksum_bytes :: nat where
  "checksum_bytes = 8"

definition page_type_offset :: nat where
  "page_type_offset = checksum_bytes"

fun page_type_code :: "PageType \<Rightarrow> byte" where
  "page_type_code NonLeafIndex = 0"
| "page_type_code LeafIndex = 1"
| "page_type_code Data = 2"
| "page_type_code Overflow = 3"
| "page_type_code Deleted = 255"

definition TypeOfPage :: "bytes \<Rightarrow> byte" where
  "TypeOfPage p = p ! page_type_offset"

definition SetPageType :: "bytes \<Rightarrow> PageType \<Rightarrow> bytes" where
  "SetPageType p t = p[page_type_offset := page_type_code t]"

definition SetChecksum :: "(bytes \<Rightarrow> uint64) \<Rightarrow> bytes \<Rightarrow> bytes" where
  "SetChecksum hash blob = write_at 0 (EncodeFixed64 (hash (drop checksum_bytes blob))) blob"

definition ValidateChecksum :: "(bytes \<Rightarrow> uint64) \<Rightarrow> bytes \<Rightarrow> bool" where
  "ValidateChecksum hash blob =
    (let checksum_stored = DecodeFixed64 blob;
         checksum = hash (drop checksum_bytes blob)
     in checksum = checksum_stored)"

section \<open>Lemmas\<close>

lemma length_write_at [simp, size_simps]:
  "off + length src \<le> length page \<Longrightarrow> length (write_at off src page) = length page"
  by (simp add: write_at_def)

lemma length_resize [simp, size_simps]: "length (resize n bs) = n"
  by (simp add: resize_def)

lemma resize_append: "length bs \<le> n \<Longrightarrow> resize n bs = bs @ replicate (n - length bs) 0"
  by (simp add: resize_def)

lemma drop_write_at_same:
  "off \<le> length page \<Longrightarrow> drop off (write_at off src page) = src @ drop (off + length src) page"
  by (simp add: write_at_def)

lemma drop_write_at_after:
  "off + length src \<le> n \<Longrightarrow> off + length src \<le> length page
    \<Longrightarrow> drop n (write_at off src page) = drop n page"
  by (simp add: write_at_def min_def)

lemma take_write_at_before:
  "n \<le> off \<Longrightarrow> off \<le> length page \<Longrightarrow> take n (write_at off src page) = take n page"
  by (simp add: write_at_def min_def)

lemma read_write_same [simp]:
  "off \<le> length page \<Longrightarrow> n = length src \<Longrightarrow> read_at off n (write_at off src page) = src"
  by (simp add: read_at_def drop_write_at_same)

lemma read_write_other:
  assumes "off' + n \<le> off \<or> off + length src \<le> off'" "off + length src \<le> length page"
  shows "read_at off' n (write_at off src page) = read_at off' n page"
  using assms(1)
proof
  assume "off' + n \<le> off"
  then have "take (off' + n) (write_at off src page) = take (off' + n) page"
    using assms(2) by (simp add: take_write_at_before)
  then show ?thesis
    by (simp add: read_at_def take_drop add.commute)
qed (use assms(2) in \<open>simp add: read_at_def drop_write_at_after\<close>)

lemma DecodeFixed_take:
  "2 \<le> n \<Longrightarrow> DecodeFixed16 (take n bs) = DecodeFixed16 bs"
  "4 \<le> n \<Longrightarrow> DecodeFixed32 (take n bs) = DecodeFixed32 bs"
  "8 \<le> n \<Longrightarrow> DecodeFixed64 (take n bs) = DecodeFixed64 bs"
  by (simp_all add: DecodeFixed16_def DecodeFixed32_def DecodeFixed64_def)

lemma TypeOfPage_SetPageType:
  "page_type_offset < length p \<Longrightarrow> TypeOfPage (SetPageType p t) = page_type_code t"
  by (simp add: TypeOfPage_def SetPageType_def)

lemma ValidateChecksum_SetChecksum:
  assumes "8 \<le> length blob"
  shows "ValidateChecksum hash (SetChecksum hash blob)"
proof -
  have "drop 8 (SetChecksum hash blob) = drop 8 blob"
    using assms unfolding SetChecksum_def by (intro drop_write_at_after) simp_all
  moreover have "DecodeFixed64 (SetChecksum hash blob) = hash (drop 8 blob)"
    by (simp add: SetChecksum_def write_at_def checksum_bytes_def)
  ultimately show ?thesis
    by (simp add: ValidateChecksum_def checksum_bytes_def)
qed

end
