(* ===== verification/Key_Order.thy ===== *)
theory Key_Order
  imports Eloq_Prelude "HOL-Library.List_Lexorder"
begin

text \<open>
  The key order of \<open>src/comparator.cpp\<close>.  \<open>Compare\<close> is the three-way comparison of
  \<open>BytewiseComparatorImpl\<close>; \<open>comparator\<close> is the contract of the abstract class
  \<open>Comparator\<close> (\<open>include/comparator.h\<close>) under which pages are searched and split.
\<close>

section \<open>The bytewise comparator\<close>

text \<open>\<open>std::string_view::compare\<close>: bytes as unsigned characters, a proper prefix is smaller.\<close>

fun string_compare :: "bytes \<Rightarrow> bytes \<Rightarrow> int" where
  "string_compare [] [] = 0"
| "string_compare [] (_ # _) = - 1"
| "string_compare (_ # _) [] = 1"
| "string_compare (a # as) (b # bs) =
    (if a < b then - 1 else if b < a then 1 else string_compare as bs)"

definition Compare :: "bytes \<Rightarrow> bytes \<Rightarrow> int" where
  "Compare a b =
    (if length a = 0 then if length b = 0 then 0 else - 1
     else if length b = 0 then 1 else string_compare a b)"

text \<open>The loops \<open>while (i < min_length && a[i] == b[i]) i++\<close>.\<close>

fun common_prefix :: "bytes \<Rightarrow> bytes \<Rightarrow> nat" where
  "common_prefix (a # as) (b # bs) = (if a = b then Suc (common_prefix as bs) else 0)"
| "common_prefix _ _ = 0"

text \<open>\<open>FindShortestSeparator(std::string *start, std::string_view limit)\<close>.\<close>

definition FindShortestSeparator_start :: "bytes \<Rightarrow> bytes \<Rightarrow> bytes" where
  "FindShortestSeparator_start start limit =
    (let min_length = min (length start) (length limit);
         diff_index = common_prefix start limit
     in if diff_index \<ge> min_length then start
        else
          let diff_byte = start ! diff_index in
          if diff_byte < 0xff \<and> unat diff_byte + 1 < unat (limit ! diff_index)
          then take diff_index start @ [diff_byte + 1]
          else start)"

definition FindShortestSeparator :: "bytes \<Rightarrow> bytes \<Rightarrow> bytes" where
  "FindShortestSeparator left right = take (common_prefix left right + 1) right"

fun FindShortSuccessor :: "bytes \<Rightarrow> bytes" where
  "FindShortSuccessor [] = []"
| "FindShortSuccessor (byte # key) =
    (if byte \<noteq> 0xff then [byte + 1]
     else
       let rest = FindShortSuccessor key in byte # rest)"

section \<open>The contract of a comparator\<close>

text \<open>What \<open>include/comparator.h\<close> asks of every comparator: \<open>Compare\<close> is a three-way total
  order and the separator of two keys lies in the half-open interval between them.\<close>

locale comparator =
  fixes cmp :: "'k \<Rightarrow> 'k \<Rightarrow> int"
    and separator :: "'k \<Rightarrow> 'k \<Rightarrow> 'k"
  assumes cmp_zero: "cmp a b = 0 \<longleftrightarrow> a = b"
    and cmp_flip: "cmp a b < 0 \<longleftrightarrow> 0 < cmp b a"
    and cmp_trans: "cmp a b < 0 \<Longrightarrow> cmp b c < 0 \<Longrightarrow> cmp a c < 0"
    and separator_above: "cmp a b < 0 \<Longrightarrow> cmp a (separator a b) < 0"
    and separator_upto: "cmp a b < 0 \<Longrightarrow> cmp (separator a b) b \<le> 0"
begin

lemma cmp_total: "cmp a b < 0 \<or> a = b \<or> cmp b a < 0"
  using cmp_zero [of a b] cmp_flip [of b a] by linarith

lemma cmp_irrefl: "\<not> cmp a a < 0"
  using cmp_zero [of a a] by simp

lemma cmp_le_less_trans: "cmp a b \<le> 0 \<Longrightarrow> cmp b c < 0 \<Longrightarrow> cmp a c < 0"
  using cmp_zero [of a b] cmp_trans [of a b c] by (metis order_le_less)

lemma cmp_less_le_trans: "cmp a b < 0 \<Longrightarrow> cmp b c \<le> 0 \<Longrightarrow> cmp a c < 0"
  using cmp_zero [of b c] cmp_trans [of a b c] by (metis order_le_less)

text \<open>A separator taken between two adjacent pages routes every key of the left page to the
  left and every key of the right page to the right.\<close>

lemma separator_routes:
  assumes "cmp a b < 0"
  shows "cmp l a \<le> 0 \<Longrightarrow> cmp l (separator a b) < 0"
    and "cmp b r \<le> 0 \<Longrightarrow> cmp (separator a b) r \<le> 0"
proof -
  show "cmp l (separator a b) < 0" if "cmp l a \<le> 0"
    using cmp_le_less_trans [OF that separator_above [OF assms]] .
  show "cmp (separator a b) r \<le> 0" if "cmp b r \<le> 0"
    using separator_upto [OF assms] that
    by (metis cmp_zero cmp_trans order_le_less)
qed

end

section \<open>The bytewise comparator meets the contract\<close>

lemma string_compare_less: "string_compare a b < 0 \<longleftrightarrow> a < b"
  by (induction a b rule: string_compare.induct) auto

lemma string_compare_zero: "string_compare a b = 0 \<longleftrightarrow> a = b"
  by (induction a b rule: string_compare.induct) auto

lemma Compare_string: "Compare a b = string_compare a b"
  by (cases a; cases b) (simp_all add: Compare_def)

lemma Compare_less [simp]: "Compare a b < 0 \<longleftrightarrow> a < b"
  by (simp add: Compare_string string_compare_less)

lemma Compare_zero [simp]: "Compare a b = 0 \<longleftrightarrow> a = b"
  by (simp add: Compare_string string_compare_zero)

lemma Compare_greater [simp]: "0 < Compare a b \<longleftrightarrow> b < a"
  using Compare_less [of a b] Compare_zero [of a b]
  by (metis linorder_less_linear order_less_imp_not_less)

lemma Compare_le [simp]: "Compare a b \<le> 0 \<longleftrightarrow> a \<le> b"
  using Compare_greater [of a b] by (meson linorder_not_less)

lemma Compare_ge [simp]: "0 \<le> Compare a b \<longleftrightarrow> b \<le> a"
  using Compare_less [of a b] by (meson linorder_not_less)

lemma common_prefix_le: "common_prefix a b \<le> length a" "common_prefix a b \<le> length b"
  by (induction a b rule: common_prefix.induct) auto

lemma common_prefix_take: "take (common_prefix a b) a = take (common_prefix a b) b"
  by (induction a b rule: common_prefix.induct) auto

lemma take_one_between: "[] < xs \<Longrightarrow> [] < take (Suc 0) xs" "take (Suc 0) xs \<le> (xs :: bytes)"
  by (cases xs; simp)+

lemma separator_between:
  "left < right \<Longrightarrow> left < FindShortestSeparator left right"
  "left < right \<Longrightarrow> FindShortestSeparator left right \<le> right"
  unfolding FindShortestSeparator_def
  by (induction left right rule: common_prefix.induct) (auto split: if_splits simp: take_one_between)

lemma separator_shortest:
  "left < right \<Longrightarrow> left < s \<Longrightarrow> s \<le> right
    \<Longrightarrow> length (FindShortestSeparator left right) \<le> length s"
  unfolding FindShortestSeparator_def
proof (induction left right arbitrary: s rule: common_prefix.induct)
  case (1 a as b bs)
  then show ?case
    by (cases s) (auto split: if_splits)
qed (auto simp: Suc_le_eq)

interpretation bytewise: comparator Compare FindShortestSeparator
  by unfold_locales (auto simp: separator_between)

lemma byte_succ: "b \<noteq> 0xff \<Longrightarrow> b < b + 1" for b :: byte
  by unat_arith simp

lemma byte_succ_less: "unat a + 1 < unat b \<Longrightarrow> a + 1 < b" for a b :: byte
  by unat_arith

lemma FindShortestSeparator_start_Cons:
  "FindShortestSeparator_start (a # as) (a # bs) = a # FindShortestSeparator_start as bs"
  by (simp add: FindShortestSeparator_start_def Let_def)

lemma FindShortestSeparator_start_between:
  assumes "start < limit"
  shows "start \<le> FindShortestSeparator_start start limit
    \<and> FindShortestSeparator_start start limit < limit"
  using assms
proof (induction start limit rule: common_prefix.induct)
  case (1 a as b bs)
  show ?case
  proof (cases "a = b")
    case True
    then show ?thesis
      using 1 by (simp add: FindShortestSeparator_start_Cons)
  next
    case False
    then have "a < b" using "1.prems" by simp
    then show ?thesis
      using False byte_succ [of a] byte_succ_less [of a b]
      by (auto simp: FindShortestSeparator_start_def)
  qed
qed (simp_all add: FindShortestSeparator_start_def)

lemma FindShortSuccessor_ge: "key \<le> FindShortSuccessor key"
  by (induction key rule: FindShortSuccessor.induct) (auto simp: byte_succ)

section \<open>Properties\<close>

text \<open>C21: The separator of two neighbouring index entries routes every key correctly: it is above
  the left key and not above the right key, and no shorter string is.\<close>

theorem separator_routes_shortest:
  assumes "left < right"
  shows "left < FindShortestSeparator left right \<and> FindShortestSeparator left right \<le> right
    \<and> (\<forall>s. left < s \<and> s \<le> right \<longrightarrow> length (FindShortestSeparator left right) \<le> length s)"
  using separator_between [OF assms] separator_shortest [OF assms] by blast

theorem separator_routes_shortest_witness:
  "[97, 98, 99] < FindShortestSeparator [97, 98, 99] [97, 100, 1, 2]
    \<and> FindShortestSeparator [97, 98, 99] [97, 100, 1, 2] = [97, 100]"
proof -
  have "[97, 98, 99] < ([97, 100, 1, 2] :: bytes)" "FindShortestSeparator [97, 98, 99] [97, 100, 1, 2] = [97, 100]"
    by code_simp+
  then show ?thesis using separator_routes_shortest by blast
qed

end
