(* ===== verification/Data_Page.thy ===== *)
theory Data_Page
  imports Page_Layout Key_Order
begin

text \<open>
  Data pages: \<open>DataPageBuilder\<close> (\<open>src/storage/data_page_builder.cpp\<close>), \<open>DataPage\<close> and
  \<open>DataPageIter\<close> (\<open>src/storage/data_page.cpp\<close>, \<open>include/storage/data_page.h\<close>).

  A page holds a header, the prefix-compressed entries, the array of restart offsets, its
  length and padding.  Sizes and offsets are natural numbers; the integers that are stored,
  and the \<open>uint16_t\<close> subtraction that locates the restart array, keep their width.
\<close>

section \<open>Entries\<close>

datatype CompressionType = NoCompression | Dictionary | Standalone

record PageEntry =
  e_key :: bytes
  e_value :: bytes
  e_overflow :: bool
  e_ts :: uint64
  e_expire :: uint64
  e_comp :: CompressionType
  e_large :: bool

definition page_size_offset :: nat where
  "page_size_offset = page_type_offset + 1"

definition prev_page_offset :: nat where
  "prev_page_offset = page_size_offset + 2"

definition next_page_offset :: nat where
  "next_page_offset = prev_page_offset + 4"

definition content_offset :: nat where
  "content_offset = next_page_offset + 4"

text \<open>The bits of \<open>enum class ValLenBit\<close>.\<close>

definition OverflowBit :: nat where [simp]: "OverflowBit = 0"
definition ExpireBit :: nat where [simp]: "ExpireBit = 1"
definition DictionaryCompressedBit :: nat where [simp]: "DictionaryCompressedBit = 2"
definition BitsCount :: nat where [simp]: "BitsCount = 4"

fun comp_bits :: "CompressionType \<Rightarrow> nat" where
  "comp_bits NoCompression = 0"
| "comp_bits Dictionary = 1"
| "comp_bits Standalone = 2"

definition IsLargeValueEncoding :: "uint32 \<Rightarrow> bool" where
  "IsLargeValueEncoding stored_val_len =
    (drop_bit DictionaryCompressedBit stored_val_len AND 3 = 3)"

section \<open>DataPageBuilder\<close>

record DataPageBuilder =
  b_options :: KvOptions
  b_buffer :: bytes
  b_restarts :: "nat list"
  b_counter :: nat
  b_cnt :: nat
  b_finished :: bool
  b_last_key :: bytes
  b_last_timestamp :: uint64

definition ClampTimestampToInt64 :: "uint64 \<Rightarrow> uint64" where
  "ClampTimestampToInt64 ts = (if ts > 2 ^ 63 - 1 then 2 ^ 63 - 1 else ts)"

definition HeaderSize :: nat where
  "HeaderSize = checksum_bytes + 1 + 2 + 4 * 2"

definition DataPageBuilder_new :: "KvOptions \<Rightarrow> DataPageBuilder" where
  "DataPageBuilder_new opt =
    \<lparr> b_options = opt, b_buffer = replicate HeaderSize 0, b_restarts = [HeaderSize],
      b_counter = 0, b_cnt = 0, b_finished = False, b_last_key = [], b_last_timestamp = 0 \<rparr>"

definition DataPageBuilder_Reset :: "DataPageBuilder \<Rightarrow> DataPageBuilder" where
  "DataPageBuilder_Reset b =
    (let buffer = SetPageType (replicate HeaderSize 0) Data in
     b\<lparr> b_buffer := buffer, b_restarts := [length buffer], b_counter := 0, b_cnt := 0,
        b_finished := False, b_last_key := [], b_last_timestamp := 0 \<rparr>)"

definition CurrentSizeEstimate :: "DataPageBuilder \<Rightarrow> nat" where
  "CurrentSizeEstimate b = length (b_buffer b) + length (b_restarts b) * 2 + 2"

definition NeedRestart :: "DataPageBuilder \<Rightarrow> bool" where
  "NeedRestart b = (b_counter b \<ge> data_page_restart_interval (b_options b))"

definition IsEmpty :: "DataPageBuilder \<Rightarrow> bool" where
  "IsEmpty b = (b_cnt b = 0)"

definition CalculateDelta ::
    "bytes \<Rightarrow> nat \<Rightarrow> uint64 \<Rightarrow> uint64 \<Rightarrow> bytes \<Rightarrow> uint64 \<Rightarrow> bool \<Rightarrow> nat \<times> nat \<times> nat \<times> uint64" where
  "CalculateDelta key stored_val_len ts expire_ts last_key last_ts restart =
    (let restart_bytes = (if restart then 2 else 0);
         last_ts = (if restart then 0 else last_ts);
         shared = (if restart then 0 else common_prefix last_key key);
         non_shared = length key - shared;
         ts_delta = ClampTimestampToInt64 ts - last_ts;
         p_ts_delta = EncodeInt64Delta ts_delta;
         addition_delta =
           restart_bytes + Varint32Size (of_nat shared) + Varint32Size (of_nat non_shared)
           + Varint32Size (of_nat stored_val_len) + non_shared + drop_bit BitsCount stored_val_len
           + (if expire_ts \<noteq> 0 then Varint64Size expire_ts else 0) + Varint64Size p_ts_delta
     in (addition_delta, shared, non_shared, p_ts_delta))"

definition IsOverflowKV :: "bytes \<Rightarrow> nat \<Rightarrow> uint64 \<Rightarrow> uint64 \<Rightarrow> KvOptions \<Rightarrow> bool" where
  "IsOverflowKV key val_size ts expire_ts options =
    (let reserved = HeaderSize + 2 * 2 in
     if reserved + val_size > data_page_size options then True
     else
       let stored_val_len = push_bit BitsCount val_size;
           ret = CalculateDelta key stored_val_len ts expire_ts [] 0 False
       in reserved + fst ret > data_page_size options)"

text \<open>The first statements of \<open>Add\<close>: the value length shifted by the flag bits.\<close>

definition StoredValLen :: "nat \<Rightarrow> bool \<Rightarrow> bool \<Rightarrow> CompressionType \<Rightarrow> uint64 \<Rightarrow> nat" where
  "StoredValLen val_size overflow large_value compression_kind expire_ts =
    push_bit BitsCount val_size
    OR push_bit OverflowBit (of_bool overflow)
    OR (if large_value then push_bit DictionaryCompressedBit 3
        else push_bit DictionaryCompressedBit (comp_bits compression_kind))
    OR (if expire_ts \<noteq> 0 then push_bit ExpireBit 1 else 0)"

definition Add :: "DataPageBuilder \<Rightarrow> PageEntry \<Rightarrow> bool \<times> DataPageBuilder" where
  "Add b e =
    (let key = e_key e; value = e_value e; ts = e_ts e; expire_ts = e_expire e;
         stored_val_len =
           StoredValLen (length value) (e_overflow e) (e_large e) (e_comp e) expire_ts;
         (size_delta, shared, non_shared, ts_delta) =
           CalculateDelta key stored_val_len ts expire_ts (b_last_key b) (b_last_timestamp b)
             (NeedRestart b)
     in
     if CurrentSizeEstimate b + size_delta > data_page_size (b_options b) then (False, b)
     else
       let b1 =
             (if NeedRestart b
              then b\<lparr> b_restarts := b_restarts b @ [length (b_buffer b)], b_counter := 0,
                      b_last_timestamp := 0 \<rparr>
              else b);
           buffer = PutVarint32 (b_buffer b1) (of_nat shared);
           buffer = PutVarint32 buffer (of_nat non_shared);
           buffer = PutVarint32 buffer (of_nat stored_val_len);
           buffer = buffer @ read_at shared non_shared key;
           buffer = buffer @ value;
           buffer = (if expire_ts \<noteq> 0 then PutVarint64 buffer expire_ts else buffer);
           buffer = PutVarint64 buffer ts_delta
       in (True,
           b1\<lparr> b_buffer := buffer,
               b_last_key := resize shared (b_last_key b1) @ read_at shared non_shared key,
               b_last_timestamp := ClampTimestampToInt64 ts,
               b_counter := b_counter b1 + 1,
               b_cnt := b_cnt b1 + 1 \<rparr>))"

definition Finish :: "DataPageBuilder \<Rightarrow> bytes \<times> DataPageBuilder" where
  "Finish b =
    (let buffer = foldl (\<lambda>buf r. PutFixed16 buf (of_nat r)) (b_buffer b) (b_restarts b);
         buffer = PutFixed16 buffer (of_nat (length (b_restarts b)));
         content_size = of_nat (length buffer) :: uint16;
         buffer = write_at page_size_offset (EncodeFixed16 content_size) buffer;
         buffer = resize (data_page_size (b_options b)) buffer
     in (buffer, b\<lparr> b_buffer := buffer, b_finished := True \<rparr>))"

text \<open>The use of the builder by its clients: entries are added in order until one is refused.\<close>

fun AddAll :: "DataPageBuilder \<Rightarrow> PageEntry list \<Rightarrow> DataPageBuilder option" where
  "AddAll b [] = Some b"
| "AddAll b (e # es) = (case Add b e of (True, b') \<Rightarrow> AddAll b' es | (False, _) \<Rightarrow> None)"

section \<open>DataPage\<close>

definition ContentLength :: "bytes \<Rightarrow> nat" where
  "ContentLength page = unat (DecodeFixed16 (drop page_size_offset page))"

definition RestartNum :: "bytes \<Rightarrow> nat" where
  "RestartNum page = unat (DecodeFixed16 (drop (ContentLength page - 2) page))"

definition PrevPageId :: "bytes \<Rightarrow> PageId" where
  "PrevPageId page = DecodeFixed32 (drop prev_page_offset page)"

definition NextPageId :: "bytes \<Rightarrow> PageId" where
  "NextPageId page = DecodeFixed32 (drop next_page_offset page)"

definition SetPrevPageId :: "bytes \<Rightarrow> PageId \<Rightarrow> bytes" where
  "SetPrevPageId page page_id = write_at prev_page_offset (EncodeFixed32 page_id) page"

definition SetNextPageId :: "bytes \<Rightarrow> PageId \<Rightarrow> bytes" where
  "SetNextPageId page page_id = write_at next_page_offset (EncodeFixed32 page_id) page"

section \<open>DataPageIter\<close>

record DataPageIter =
  i_page :: bytes
  i_restart_num :: nat
  i_restart_offset :: nat
  i_curr_offset :: nat
  i_curr_restart_idx :: nat
  i_key :: bytes
  i_value :: bytes
  i_overflow :: bool
  i_large :: bool
  i_comp :: CompressionType
  i_timestamp :: uint64
  i_expire :: uint64

definition IterReset :: "DataPageIter \<Rightarrow> DataPageIter" where
  "IterReset it =
    it\<lparr> i_curr_offset := content_offset, i_curr_restart_idx := 0, i_key := [], i_value := [],
        i_timestamp := 0, i_overflow := False, i_comp := NoCompression \<rparr>"

text \<open>\<open>Reset(const DataPage *, uint32_t)\<close>, and the constructor, which sets the same fields.
  The constructor leaves the fields of the current entry without a value of their own; the
  model starts them as empty.\<close>

definition IterResetPage :: "DataPageIter \<Rightarrow> bytes \<Rightarrow> DataPageIter" where
  "IterResetPage it page =
    (let restart_num = RestartNum page in
     IterReset (it\<lparr> i_page := page, i_restart_num := restart_num,
       i_restart_offset :=
         unat (of_nat (ContentLength page) - of_nat ((1 + restart_num) * 2) :: uint16) \<rparr>))"

definition DataPageIter_new :: "bytes \<Rightarrow> DataPageIter" where
  "DataPageIter_new page =
    IterResetPage
      \<lparr> i_page = [], i_restart_num = 0, i_restart_offset = 0, i_curr_offset = content_offset,
        i_curr_restart_idx = 0, i_key = [], i_value = [], i_overflow = False, i_large = False,
        i_comp = NoCompression, i_timestamp = 0, i_expire = 0 \<rparr> page"

definition HasNext :: "DataPageIter \<Rightarrow> bool" where
  "HasNext it = (i_curr_offset it < i_restart_offset it)"

definition RestartOffset :: "DataPageIter \<Rightarrow> nat \<Rightarrow> nat" where
  "RestartOffset it restart_idx =
    unat (DecodeFixed16 (drop (i_restart_offset it + restart_idx * 2) (i_page it)))"

definition Invalidate :: "DataPageIter \<Rightarrow> DataPageIter" where
  "Invalidate it =
    it\<lparr> i_curr_offset := i_restart_offset it, i_curr_restart_idx := i_restart_num it,
        i_key := [], i_value := [], i_expire := 0, i_timestamp := 0, i_overflow := False,
        i_large := False, i_comp := NoCompression \<rparr>"

record EntryHead =
  h_shared :: uint32
  h_non_shared :: uint32
  h_value_length :: uint32
  h_overflow :: bool
  h_expire :: bool
  h_large :: bool
  h_comp :: CompressionType

text \<open>The three varints of an entry: one byte each on the fast path.\<close>

definition DecodeTriple :: "bytes \<Rightarrow> (uint32 \<times> uint32 \<times> uint32 \<times> bytes) option" where
  "DecodeTriple p =
    (let shared = ucast (p ! 0); non_shared = ucast (p ! 1); value_length = ucast (p ! 2) in
     if (shared OR non_shared OR value_length) < (128 :: uint32)
     then Some (shared, non_shared, value_length, drop 3 p)
     else
       (case GetVarint32Ptr p of
          None \<Rightarrow> None
        | Some (shared, p) \<Rightarrow>
           (case GetVarint32Ptr p of
              None \<Rightarrow> None
            | Some (non_shared, p) \<Rightarrow>
               (case GetVarint32Ptr p of
                  None \<Rightarrow> None
                | Some (value_length, p) \<Rightarrow> Some (shared, non_shared, value_length, p)))))"

text \<open>\<open>DecodeEntry(p, limit, ...)\<close>: the argument is the bytes from \<open>p\<close> up to \<open>limit\<close>.\<close>

definition DecodeEntry :: "bytes \<Rightarrow> (EntryHead \<times> bytes) option" where
  "DecodeEntry p =
    (if length p < 3 then None
     else
       (case DecodeTriple p of
          None \<Rightarrow> None
        | Some (shared, non_shared, value_length, p) \<Rightarrow>
           let overflow = (value_length AND push_bit OverflowBit 1 \<noteq> 0);
               expire = (value_length AND push_bit ExpireBit 1 \<noteq> 0);
               compressed = drop_bit DictionaryCompressedBit value_length AND 3;
               large_value = (compressed = 3);
               compression_type =
                 (if compressed = 1 then Dictionary
                  else if compressed = 2 then Standalone else NoCompression);
               value_length = drop_bit BitsCount value_length
           in if of_nat (length p) < non_shared + value_length then None
              else Some
                (\<lparr> h_shared = shared, h_non_shared = non_shared, h_value_length = value_length,
                   h_overflow = overflow, h_expire = expire, h_large = large_value,
                   h_comp = compression_type \<rparr>, p)))"

text \<open>The bytes from an offset of the page up to the restart array.\<close>

definition region_from :: "DataPageIter \<Rightarrow> nat \<Rightarrow> bytes" where
  "region_from it off = drop off (take (i_restart_offset it) (i_page it))"

text \<open>The second half of \<open>ParseNextKey\<close>, after the key and the value: expire timestamp and
  timestamp delta.  A \<open>nullptr\<close> that the first varint returns is passed on to the second.\<close>

definition ParseTail :: "bool \<Rightarrow> bytes \<Rightarrow> (uint64 \<times> uint64 \<times> bytes) option" where
  "ParseTail has_expire_ts pt =
    (case (if has_expire_ts then GetVarint64Ptr pt else Some (0, pt)) of
       None \<Rightarrow> None
     | Some (expire_ts, pt) \<Rightarrow>
        (case GetVarint64Ptr pt of
           None \<Rightarrow> None
         | Some (ts_val, pt) \<Rightarrow> Some (expire_ts, ts_val, pt)))"

definition ParseNextKey :: "DataPageIter \<Rightarrow> bool \<times> DataPageIter" where
  "ParseNextKey it =
    (if i_curr_offset it \<ge> i_restart_offset it then (False, Invalidate it)
     else
       let it = (if i_curr_offset it < content_offset then it\<lparr> i_curr_offset := content_offset \<rparr> else it);
           is_restart_pointer = (i_curr_offset it = RestartOffset it (i_curr_restart_idx it))
       in
       case DecodeEntry (region_from it (i_curr_offset it)) of
         None \<Rightarrow> (False, Invalidate it)
       | Some (h, pt) \<Rightarrow>
          if length (i_key it) < unat (h_shared h) then (False, Invalidate it)
          else
            let key = take (unat (h_shared h)) (i_key it) @ take (unat (h_non_shared h)) pt;
                pt = drop (unat (h_non_shared h)) pt;
                value = take (unat (h_value_length h)) pt;
                pt = drop (unat (h_value_length h)) pt
            in
            case ParseTail (h_expire h) pt of
              None \<Rightarrow> (False, Invalidate it)
            | Some (expire_ts, ts_val, pt) \<Rightarrow>
                let delta = DecodeInt64Delta ts_val;
                    timestamp = (if is_restart_pointer then delta else i_timestamp it + delta);
                    curr_offset = i_restart_offset it - length pt;
                    idx = i_curr_restart_idx it;
                    idx = (if idx + 1 < i_restart_num it \<and> curr_offset \<ge> RestartOffset it (idx + 1)
                           then idx + 1 else idx)
                in (True,
                    it\<lparr> i_curr_offset := curr_offset, i_curr_restart_idx := idx, i_key := key,
                        i_value := value, i_overflow := h_overflow h, i_large := h_large h,
                        i_comp := h_comp h, i_timestamp := timestamp, i_expire := expire_ts \<rparr>))"

definition Next :: "DataPageIter \<Rightarrow> bool \<times> DataPageIter" where
  "Next it = ParseNextKey it"

definition SeekToRestart :: "DataPageIter \<Rightarrow> nat \<Rightarrow> DataPageIter" where
  "SeekToRestart it restart_idx =
    it\<lparr> i_curr_restart_idx := restart_idx, i_curr_offset := RestartOffset it restart_idx,
        i_key := [], i_timestamp := 0 \<rparr>"

text \<open>The key at a restart point, which shares no prefix.\<close>

definition PivotKey :: "DataPageIter \<Rightarrow> nat \<Rightarrow> bytes" where
  "PivotKey it mid =
    (case DecodeEntry (region_from it (RestartOffset it mid)) of
       None \<Rightarrow> []
     | Some (h, key_ptr) \<Rightarrow> take (unat (h_non_shared h)) key_ptr)"

function SearchRegion_loop :: "DataPageIter \<Rightarrow> bytes \<Rightarrow> nat \<Rightarrow> nat \<Rightarrow> bool \<times> nat" where
  "SearchRegion_loop it key left cnt =
    (if cnt > 0 then
       let step = cnt div 2;
           mid = left + step;
           cmp_ret = Compare (PivotKey it mid) key
       in if cmp_ret = 0 then (True, mid)
          else if cmp_ret < 0 then SearchRegion_loop it key (mid + 1) (cnt - (step + 1))
          else SearchRegion_loop it key left step
     else (False, left))"
  by pat_completeness auto
termination
  by (relation "measure (\<lambda>(_, _, _, cnt). cnt)") auto

declare SearchRegion_loop.simps [simp del]

definition SearchRegion :: "DataPageIter \<Rightarrow> bytes \<Rightarrow> bool \<times> nat" where
  "SearchRegion it key =
    (if i_restart_num it = 0 then (True, 0)
     else SearchRegion_loop it key 0 (i_restart_num it - 1 - 0 + 1))"

text \<open>The linear searches inside a region.  Nothing in the loops themselves bounds the number of
  rounds on a page whose restart array points past the entries; not returning is \<open>None\<close>.\<close>

partial_function (option) SeekLoop ::
    "bytes \<Rightarrow> nat \<Rightarrow> DataPageIter \<Rightarrow> (bool \<times> DataPageIter) option" where
  "SeekLoop search_key limit it =
    (if i_curr_offset it < limit then
       let it = snd (ParseNextKey it) in
       if Compare (i_key it) search_key \<ge> 0 then Some (True, it)
       else SeekLoop search_key limit it
     else Some (False, it))"

definition RegionLimit :: "DataPageIter \<Rightarrow> nat \<Rightarrow> nat" where
  "RegionLimit it ceil_point =
    (if ceil_point < i_restart_num it then RestartOffset it ceil_point else i_restart_offset it)"

definition Seek :: "DataPageIter \<Rightarrow> bytes \<Rightarrow> (bool \<times> DataPageIter) option" where
  "Seek it search_key =
    (case SearchRegion it search_key of
       (equal, ceil_point) \<Rightarrow>
         if equal \<or> ceil_point = 0
         then Some (True, snd (ParseNextKey (SeekToRestart it ceil_point)))
         else
           let limit = RegionLimit it ceil_point in
           (case SeekLoop search_key limit (SeekToRestart it (ceil_point - 1)) of
              None \<Rightarrow> None
            | Some (True, it) \<Rightarrow> Some (True, it)
            | Some (False, it) \<Rightarrow> Some (ParseNextKey it)))"

text \<open>The variables \<open>SeekFloor\<close> saves before it looks at the next entry: the offset, the key, the
  value, the overflow flag, the timestamp and the compression kind.\<close>

record FloorSave =
  f_last_offset :: nat
  f_key :: bytes
  f_value :: bytes
  f_overflow :: bool
  f_timestamp :: uint64
  f_comp :: CompressionType

partial_function (option) SeekFloorLoop ::
    "bytes \<Rightarrow> nat \<Rightarrow> FloorSave \<Rightarrow> DataPageIter \<Rightarrow> (FloorSave \<times> DataPageIter) option" where
  "SeekFloorLoop search_key limit sv it =
    (if i_curr_offset it < limit then
       let it = snd (ParseNextKey it) in
       if Compare (i_key it) search_key > 0 then Some (sv, it)
       else
         SeekFloorLoop search_key limit
           \<lparr> f_last_offset = i_curr_offset it, f_key = i_key it, f_value = i_value it,
             f_overflow = i_overflow it, f_timestamp = i_timestamp it, f_comp = i_comp it \<rparr> it
     else Some (sv, it))"

definition SeekFloor :: "DataPageIter \<Rightarrow> bytes \<Rightarrow> (bool \<times> DataPageIter) option" where
  "SeekFloor it search_key =
    (case SearchRegion it search_key of
       (equal, ceil_point) \<Rightarrow>
         if equal then Some (True, snd (ParseNextKey (SeekToRestart it ceil_point)))
         else if ceil_point = 0 then Some (False, it)
         else
           let sv = \<lparr> f_last_offset = i_restart_offset it, f_key = [], f_value = [],
                      f_overflow = False, f_timestamp = 0, f_comp = NoCompression \<rparr>;
               limit = RegionLimit it ceil_point
           in
           (case SeekFloorLoop search_key limit sv (SeekToRestart it (ceil_point - 1)) of
              None \<Rightarrow> None
            | Some (sv, it) \<Rightarrow>
                Some (True,
                  it\<lparr> i_curr_offset := f_last_offset sv, i_key := f_key sv, i_value := f_value sv,
                      i_overflow := f_overflow sv, i_timestamp := f_timestamp sv,
                      i_comp := f_comp sv \<rparr>)))"

text \<open>The entry the iterator stands on.\<close>

definition current :: "DataPageIter \<Rightarrow> PageEntry" where
  "current it =
    \<lparr> e_key = i_key it, e_value = i_value it, e_overflow = i_overflow it, e_ts = i_timestamp it,
      e_expire = i_expire it, e_comp = i_comp it, e_large = i_large it \<rparr>"

text \<open>Reading a page from its start: at most \<open>n\<close> calls of \<open>Next\<close>.\<close>

fun ReadEntries :: "nat \<Rightarrow> DataPageIter \<Rightarrow> PageEntry list" where
  "ReadEntries 0 it = []"
| "ReadEntries (Suc n) it =
    (if HasNext it then
       (case Next it of (True, it') \<Rightarrow> current it' # ReadEntries n it' | (False, _) \<Rightarrow> [])
     else [])"

end
