(* ===== verification/Data_Page_Correct.thy ===== *)
theory Data_Page_Correct
  imports Data_Page
begin

text \<open>
  Correctness of data pages.  \<open>enc_range\<close> is the reference encoding of a list of entries, one
  block per entry, with a restart every \<open>iv\<close> entries.  The builder produces it
  (\<open>builder_inv\<close>), a finished page contains it (\<open>page_layout\<close>), and an iterator that stands
  before entry \<open>j\<close> (\<open>positioned\<close>) decodes that entry and then stands before the next one
  (\<open>parse_step\<close>).  Reading, \<open>Seek\<close> and \<open>SeekFloor\<close> follow from these.
\<close>

section \<open>The flag bits of the stored value length\<close>

lemma flags_small:
  assumes "k < 16"
  shows "push_bit 4 sz OR k = 16 * sz + (k :: nat)"
proof -
  have "take_bit 4 k = k"
    using assms by (simp add: take_bit_nat_eq_self)
  then have "bit k n \<Longrightarrow> n < 4" for n
    by (metis bit_take_bit_iff)
  then have "\<not> bit (push_bit 4 sz) n \<or> \<not> bit k n" for n
    by (meson bit_push_bit_iff linorder_not_less)
  then have "push_bit 4 sz + k = push_bit 4 sz OR k"
    by (rule disjunctive_add)
  then show ?thesis by (simp add: push_bit_eq_mult)
qed

definition flag_bits :: "bool \<Rightarrow> bool \<Rightarrow> CompressionType \<Rightarrow> uint64 \<Rightarrow> nat" where
  "flag_bits overflow large kind expire =
    of_bool overflow + 4 * (if large then 3 else comp_bits kind) + (if expire \<noteq> 0 then 2 else 0)"

lemma flag_bits_less: "flag_bits ov lg cp ex < 16"
  by (cases cp) (auto simp: flag_bits_def)

lemma StoredValLen_eq: "StoredValLen sz ov lg cp ex = 16 * sz + flag_bits ov lg cp ex"
proof -
  have "push_bit OverflowBit (of_bool ov)
    OR (if lg then push_bit DictionaryCompressedBit 3
        else push_bit DictionaryCompressedBit (comp_bits cp))
    OR (if ex \<noteq> 0 then push_bit ExpireBit 1 else 0) = flag_bits ov lg cp ex"
    by (cases cp) (auto simp: flag_bits_def)
  then show ?thesis
    unfolding StoredValLen_def by (simp only: flags_small flag_bits_less BitsCount_def)
qed

lemma drop_bit_StoredValLen: "drop_bit BitsCount (StoredValLen sz ov lg cp ex) = sz"
  using flag_bits_less [of ov lg cp ex] by (simp add: StoredValLen_eq drop_bit_eq_div)

lemma StoredValLen_word:
  assumes "sz < 2 ^ 28"
    and w_def: "w = (of_nat (StoredValLen sz ov lg cp ex) :: uint32)"
  shows "unat w = 16 * sz + flag_bits ov lg cp ex"
    and "drop_bit BitsCount w = of_nat sz"
    and "w AND push_bit OverflowBit 1 \<noteq> 0 \<longleftrightarrow> ov"
    and "w AND push_bit ExpireBit 1 \<noteq> 0 \<longleftrightarrow> ex \<noteq> 0"
    and "drop_bit DictionaryCompressedBit w AND 3 = (if lg then 3 else of_nat (comp_bits cp))"
proof -
  have less: "16 * sz + flag_bits ov lg cp ex < 2 ^ 32"
    using assms(1) flag_bits_less [of ov lg cp ex] by simp
  show u: "unat w = 16 * sz + flag_bits ov lg cp ex"
    using less unfolding w_def StoredValLen_eq unsigned_of_nat of_nat_id
    by (intro take_bit_nat_eq_self) simp
  have "unat (drop_bit BitsCount w) = unat (of_nat sz :: uint32)"
    unfolding unat_drop_bit_eq u using assms(1) flag_bits_less [of ov lg cp ex]
    by (simp add: drop_bit_eq_div unsigned_of_nat take_bit_nat_eq_self)
  then show "drop_bit BitsCount w = of_nat sz" by (rule unsigned_word_eqI)
  have b: "bit w n \<longleftrightarrow> odd ((16 * sz + flag_bits ov lg cp ex) div 2 ^ n)" for n
    unfolding u [symmetric] bit_iff_odd [symmetric] by (simp add: bit_unsigned_iff)
  show "w AND push_bit OverflowBit 1 \<noteq> 0 \<longleftrightarrow> ov"
    using b [of 0] by (simp add: and_exp_eq_0_iff_not_bit [of w 0, simplified] flag_bits_def)
  have odd1: "odd ((16 * sz + k) div 2) \<longleftrightarrow> odd (k div 2)" for k
    by presburger
  show "w AND push_bit ExpireBit 1 \<noteq> 0 \<longleftrightarrow> ex \<noteq> 0"
    using b [of 1] odd1 by (cases cp) (auto simp: and_exp_eq_0_iff_not_bit [of w 1, simplified] flag_bits_def)
  have mod4: "(16 * sz + k) div 4 mod 4 = k div 4 mod 4" for k
  proof -
    have "(16 * sz + k) div 4 = k div 4 + 4 * sz"
      by linarith
    then show ?thesis by simp
  qed
  have "unat (drop_bit DictionaryCompressedBit w AND 3)
      = take_bit 2 (drop_bit 2 (16 * sz + flag_bits ov lg cp ex))"
    unfolding u [symmetric] unat_drop_bit_eq [symmetric] unsigned_take_bit_eq [symmetric]
    by (simp add: take_bit_eq_mask mask_numeral)
  also have "\<dots> = (if lg then 3 else comp_bits cp)"
    unfolding drop_bit_eq_div take_bit_eq_mod power2_eq_square
    by (simp add: mod4) (cases cp, auto simp: flag_bits_def)
  also have "\<dots> = unat (if lg then 3 else of_nat (comp_bits cp) :: uint32)"
    by (cases cp) auto
  finally show "drop_bit DictionaryCompressedBit w AND 3 = (if lg then 3 else of_nat (comp_bits cp))"
    by (rule unsigned_word_eqI)
qed

section \<open>Decoding one entry\<close>

lemma GetVarint32Ptr_Encode [simp]: "GetVarint32Ptr (EncodeVarint32 v @ rest) = Some (v, rest)"
  using GetVarint32_Encode by (simp add: GetVarint32_def)

lemma GetVarint64Ptr_Encode [simp]: "GetVarint64Ptr (EncodeVarint64 v @ rest) = Some (v, rest)"
  using GetVarint64_Encode by (simp add: GetVarint64_def)

lemma not_less_128_bit: "bit x 7 \<Longrightarrow> \<not> x < (128 :: uint32)"
  using less_128_take_bit [of x] by (metis bit_take_bit_iff less_irrefl)

lemma varint_first_byte:
  "128 \<le> v \<Longrightarrow> bit (ucast (hd (EncodeVarint32 v)) :: uint32) 7"
  "v < 128 \<Longrightarrow> EncodeVarint32 v = [ucast v]"
  by (simp_all add: EncodeVarint32_step bit_simps not_le)

lemma DecodeTriple_Encode:
  "DecodeTriple (EncodeVarint32 a @ EncodeVarint32 b @ EncodeVarint32 c @ rest) = Some (a, b, c, rest)"
  (is "DecodeTriple ?p = _")
proof -
  let ?or = "\<lambda>p. (ucast (p ! 0) OR ucast (p ! 1) OR ucast (p ! 2)) :: uint32"
  have slow: "\<not> ?or ?p < 128 \<Longrightarrow> ?thesis"
    by (simp add: DecodeTriple_def)
  show ?thesis
  proof (cases "a < 128 \<and> b < 128 \<and> c < 128")
    case True
    then have *: "?p = ucast a # ucast b # ucast c # rest"
      by (simp add: varint_first_byte)
    have "\<not> bit (a OR b OR c) n" if "7 \<le> n" for n
      using True less_128_take_bit that by (metis bit_or_iff bit_take_bit_iff linorder_not_less)
    then have "take_bit 7 (a OR b OR c) = a OR b OR c"
      by (intro bit_word_eqI) (metis bit_take_bit_iff linorder_not_less)
    then have "unat (a OR b OR c) < 2 ^ 7"
      by (metis unsigned_take_bit_eq take_bit_nat_less_exp)
    then have "a OR b OR c < 128"
      by (simp add: word_less_nat_alt)
    then show ?thesis
      using True varint_last_byte(1) [of a] varint_last_byte(1) [of b] varint_last_byte(1) [of c]
      unfolding * by (simp add: DecodeTriple_def)
  next
    case False
    obtain x xs where x: "EncodeVarint32 a = x # xs" by (metis EncodeVarint_nonempty(1) list.exhaust)
    obtain y ys where y: "EncodeVarint32 b = y # ys" by (metis EncodeVarint_nonempty(1) list.exhaust)
    obtain z zs where z: "EncodeVarint32 c = z # zs" by (metis EncodeVarint_nonempty(1) list.exhaust)
    consider "128 \<le> a" | "a < 128" "128 \<le> b" | "a < 128" "b < 128" "128 \<le> c"
      using False by force
    then have "bit (?or ?p) 7"
    proof cases
      case 1
      from varint_first_byte(1) [OF 1] show ?thesis by (simp add: x bit_or_iff)
    next
      case 2
      from varint_first_byte(1) [OF 2(2)] show ?thesis
        by (simp add: varint_first_byte(2) [OF 2(1)] y bit_or_iff)
    next
      case 3
      from varint_first_byte(1) [OF 3(3)] show ?thesis
        by (simp add: varint_first_byte(2) [OF 3(1)] varint_first_byte(2) [OF 3(2)] z bit_or_iff)
    qed
    then show ?thesis by (intro slow not_less_128_bit)
  qed
qed

definition enc_entry :: "bytes \<Rightarrow> uint64 \<Rightarrow> PageEntry \<Rightarrow> bytes" where
  "enc_entry last_key last_ts e =
    (let key = e_key e; shared = common_prefix last_key key in
     EncodeVarint32 (of_nat shared)
     @ EncodeVarint32 (of_nat (length key - shared))
     @ EncodeVarint32 (of_nat
         (StoredValLen (length (e_value e)) (e_overflow e) (e_large e) (e_comp e) (e_expire e)))
     @ drop shared key @ e_value e
     @ (if e_expire e \<noteq> 0 then EncodeVarint64 (e_expire e) else [])
     @ EncodeVarint64 (EncodeInt64Delta (ClampTimestampToInt64 (e_ts e) - last_ts)))"

definition entry_head :: "bytes \<Rightarrow> PageEntry \<Rightarrow> EntryHead" where
  "entry_head last_key e =
    \<lparr> h_shared = of_nat (common_prefix last_key (e_key e)),
      h_non_shared = of_nat (length (e_key e) - common_prefix last_key (e_key e)),
      h_value_length = of_nat (length (e_value e)), h_overflow = e_overflow e,
      h_expire = (e_expire e \<noteq> 0), h_large = e_large e,
      h_comp = (if e_large e then NoCompression else e_comp e) \<rparr>"

lemma varint_sizes: "Suc 0 \<le> Varint32Size v" "Suc 0 \<le> Varint64Size w"
  using Varint64Size_bounds(1) by (simp_all add: Varint32Size_def)

lemma unat_of_nat_32: "n < 2 ^ 32 \<Longrightarrow> unat (of_nat n :: uint32) = n"
  by (simp add: unsigned_of_nat take_bit_nat_eq_self)

lemma DecodeEntry_enc:
  assumes "length (e_key e) + length (e_value e) < 2 ^ 28"
    and "length rest < 2 ^ 28"
  shows "DecodeEntry (enc_entry k t e @ rest) =
    Some (entry_head k e,
      drop (common_prefix k (e_key e)) (e_key e) @ e_value e
      @ (if e_expire e \<noteq> 0 then EncodeVarint64 (e_expire e) else [])
      @ EncodeVarint64 (EncodeInt64Delta (ClampTimestampToInt64 (e_ts e) - t)) @ rest)"
  (is "_ = Some (_, ?tail)")
proof -
  let ?sh = "common_prefix k (e_key e)"
  let ?ns = "length (e_key e) - ?sh"
  define w :: uint32 where
    w_def: "w = of_nat (StoredValLen (length (e_value e)) (e_overflow e) (e_large e) (e_comp e) (e_expire e))"
  have v: "length (e_value e) < 2 ^ 28" using assms(1) by simp
  note w = StoredValLen_word [OF v w_def]
  have t: "DecodeTriple (enc_entry k t e @ rest) = Some (of_nat ?sh, of_nat ?ns, w, ?tail)"
    using DecodeTriple_Encode [of "of_nat ?sh" "of_nat ?ns" w ?tail]
    by (simp add: enc_entry_def Let_def w_def)
  have l3: "\<not> length (enc_entry k t e @ rest) < 3"
  proof -
    have "Varint32Size (of_nat ?sh) + Varint32Size (of_nat ?ns) + Varint32Size w
      \<le> length (enc_entry k t e @ rest)"
      by (simp add: enc_entry_def Let_def w_def)
    then show ?thesis
      using varint_sizes(1) [of "of_nat ?sh"] varint_sizes(1) [of "of_nat ?ns"] varint_sizes(1) [of w]
      by linarith
  qed
  have lt: "?ns + length (e_value e) \<le> length ?tail" "length ?tail < 2 ^ 32" 
    using assms Varint64Size_bounds(2) [of "e_expire e"]
      Varint64Size_bounds(2) [of "EncodeInt64Delta (ClampTimestampToInt64 (e_ts e) - t)"]
    by (auto simp del: Varint64Size_bounds)
  then have fits: "\<not> (of_nat (length ?tail) :: uint32) < of_nat ?ns + of_nat (length (e_value e))"
    unfolding of_nat_add [symmetric] word_less_nat_alt
    by (simp only: unat_of_nat_32 [OF lt(2)] unat_of_nat_32 [OF le_less_trans [OF lt]] not_less)
  show ?thesis
    unfolding DecodeEntry_def t entry_head_def
    using l3 fits w(2-5) by (cases "e_comp e") (simp_all add: Let_def del: length_append)
qed

section \<open>The encoding of a list of entries\<close>

definition prev_key :: "nat \<Rightarrow> PageEntry list \<Rightarrow> nat \<Rightarrow> bytes" where
  "prev_key iv es j = (if j mod iv = 0 then [] else e_key (es ! (j - 1)))"

definition prev_ts :: "nat \<Rightarrow> PageEntry list \<Rightarrow> nat \<Rightarrow> uint64" where
  "prev_ts iv es j = (if j mod iv = 0 then 0 else ClampTimestampToInt64 (e_ts (es ! (j - 1))))"

definition enc_at :: "nat \<Rightarrow> PageEntry list \<Rightarrow> nat \<Rightarrow> bytes" where
  "enc_at iv es j = enc_entry (prev_key iv es j) (prev_ts iv es j) (es ! j)"

definition enc_range :: "nat \<Rightarrow> PageEntry list \<Rightarrow> nat \<Rightarrow> nat \<Rightarrow> bytes" where
  "enc_range iv es i j = concat (map (enc_at iv es) [i..<j])"

definition entry_off :: "nat \<Rightarrow> PageEntry list \<Rightarrow> nat \<Rightarrow> nat" where
  "entry_off iv es j = content_offset + length (enc_range iv es 0 j)"

definition num_regions :: "nat \<Rightarrow> nat \<Rightarrow> nat" where
  "num_regions iv n = (if n = 0 then 1 else (n - 1) div iv + 1)"

definition region_offs :: "nat \<Rightarrow> PageEntry list \<Rightarrow> nat list" where
  "region_offs iv es = map (\<lambda>i. entry_off iv es (i * iv)) [0..<num_regions iv (length es)]"

lemma enc_entry_nonempty: "enc_entry k t e \<noteq> []"
  by (simp add: enc_entry_def Let_def)

lemma enc_range_split: "i \<le> j \<Longrightarrow> j \<le> n \<Longrightarrow> enc_range iv es i n = enc_range iv es i j @ enc_range iv es j n"
  unfolding enc_range_def using upt_add_eq_append [of i j "n - j"]
  by (simp del: upt_Suc)

lemma enc_range_Suc: "i \<le> j \<Longrightarrow> enc_range iv es i (Suc j) = enc_range iv es i j @ enc_at iv es j"
  by (simp add: enc_range_def)

lemma enc_range_Cons: "i < j \<Longrightarrow> enc_range iv es i j = enc_at iv es i @ enc_range iv es (Suc i) j"
  by (simp add: enc_range_def upt_conv_Cons)

lemma entry_off_Suc: "entry_off iv es (Suc j) = entry_off iv es j + length (enc_at iv es j)"
  by (simp add: entry_off_def enc_range_Suc)

lemma entry_off_less: "i < j \<Longrightarrow> entry_off iv es i < entry_off iv es j"
proof (induction j)
  case (Suc j)
  have "0 < length (enc_at iv es j)" by (simp add: enc_at_def enc_entry_nonempty)
  with Suc show ?case by (cases "i = j") (auto simp: entry_off_Suc)
qed simp

lemma entry_off_mono: "i \<le> j \<Longrightarrow> entry_off iv es i \<le> entry_off iv es j"
  by (metis entry_off_less le_eq_less_or_eq)

lemma entry_off_le_iff [simp]: "entry_off iv es i \<le> entry_off iv es j \<longleftrightarrow> i \<le> j"
  by (metis entry_off_less entry_off_mono linorder_not_less)

lemma entry_off_less_iff [simp]: "entry_off iv es i < entry_off iv es j \<longleftrightarrow> i < j"
  by (meson entry_off_le_iff linorder_not_less)

lemma entry_off_eq_iff [simp]: "entry_off iv es i = entry_off iv es j \<longleftrightarrow> i = j"
  by (metis entry_off_less linorder_neqE_nat order_less_irrefl)

lemma enc_range_snoc: "j \<le> length es \<Longrightarrow> enc_range iv (es @ [e]) i j = enc_range iv es i j"
  by (auto simp: enc_range_def enc_at_def prev_key_def prev_ts_def nth_append intro!: arg_cong [where f = concat])

lemma entry_off_snoc: "j \<le> length es \<Longrightarrow> entry_off iv (es @ [e]) j = entry_off iv es j"
  by (simp add: entry_off_def enc_range_snoc)

lemma num_regions_mult:
  assumes "0 < iv" "i < num_regions iv n"
  shows "i * iv \<le> n" "0 < n \<Longrightarrow> i * iv < n"
proof -
  show *: "i * iv < n" if "0 < n"
  proof -
    have "i \<le> (n - 1) div iv"
      using assms(2) that by (simp add: num_regions_def)
    then have "i * iv \<le> n - 1"
      using assms(1) by (simp add: less_eq_div_iff_mult_less_eq)
    then show ?thesis using that by simp
  qed
  show "i * iv \<le> n"
    using assms * by (cases "n = 0") (auto simp: num_regions_def)
qed

lemma num_regions_Suc:
  "num_regions iv (Suc n) =
    (if n \<noteq> 0 \<and> n mod iv = 0 then Suc (num_regions iv n) else num_regions iv n)"
  by (cases n) (simp_all add: num_regions_def div_Suc)

lemma num_regions_mod:
  assumes "0 < n" "n mod iv = 0" "0 < iv"
  shows "num_regions iv n * iv = n"
proof -
  obtain m where m: "n = Suc m" using assms(1) by (cases n) auto
  then have "num_regions iv n = n div iv"
    using assms(2) by (simp add: num_regions_def div_Suc)
  then show ?thesis using assms(2) by (simp add: mod_eq_0_iff_dvd)
qed

lemma region_offs_snoc:
  assumes "0 < iv"
  shows "region_offs iv (es @ [e]) =
    (if es \<noteq> [] \<and> length es mod iv = 0 then region_offs iv es @ [entry_off iv es (length es)]
     else region_offs iv es)"
proof -
  have "map (\<lambda>i. entry_off iv (es @ [e]) (i * iv)) [0..<num_regions iv (length es)]
      = region_offs iv es"
    unfolding region_offs_def
    using num_regions_mult [OF assms] by (auto simp: entry_off_snoc)
  then show ?thesis
    using num_regions_mod [of "length es" iv] assms
    by (auto simp: region_offs_def [of iv "es @ [e]"] num_regions_Suc entry_off_snoc)
qed

lemma div_less_num_regions: "j < n \<Longrightarrow> j div iv < num_regions iv n"
  by (cases n) (auto simp: num_regions_def less_Suc_eq_le div_le_mono)

section \<open>The builder\<close>

lemma CalculateDelta_enc:
  "CalculateDelta (e_key e)
      (StoredValLen (length (e_value e)) (e_overflow e) (e_large e) (e_comp e) (e_expire e))
      (e_ts e) (e_expire e) lk lt restart =
    (let k = (if restart then [] else lk); t = (if restart then 0 else lt) in
     ((if restart then 2 else 0) + length (enc_entry k t e), common_prefix k (e_key e),
      length (e_key e) - common_prefix k (e_key e),
      EncodeInt64Delta (ClampTimestampToInt64 (e_ts e) - t)))"
  using drop_bit_StoredValLen
  by (simp add: CalculateDelta_def enc_entry_def Let_def)

definition base_key :: "DataPageBuilder \<Rightarrow> bytes" where
  "base_key b = (if NeedRestart b then [] else b_last_key b)"

definition base_ts :: "DataPageBuilder \<Rightarrow> uint64" where
  "base_ts b = (if NeedRestart b then 0 else b_last_timestamp b)"

lemma Add_eq:
  "Add b e =
    (if CurrentSizeEstimate b + (if NeedRestart b then 2 else 0)
          + length (enc_entry (base_key b) (base_ts b) e) > data_page_size (b_options b)
     then (False, b)
     else (True, b\<lparr> b_buffer := b_buffer b @ enc_entry (base_key b) (base_ts b) e,
       b_restarts := b_restarts b @ (if NeedRestart b then [length (b_buffer b)] else []),
       b_counter := (if NeedRestart b then 0 else b_counter b) + 1,
       b_cnt := b_cnt b + 1, b_last_key := e_key e,
       b_last_timestamp := ClampTimestampToInt64 (e_ts e) \<rparr>))"
proof -
  have key: "resize (common_prefix k (e_key e)) k
      @ read_at (common_prefix k (e_key e)) (length (e_key e) - common_prefix k (e_key e)) (e_key e) = e_key e" for k
    using common_prefix_le [of k "e_key e"] common_prefix_take [of k "e_key e"]
    by (simp add: resize_def read_at_def)
  have key0: "resize 0 k @ read_at 0 (length (e_key e)) (e_key e) = e_key e" for k
    by (simp add: resize_def read_at_def)
  show ?thesis
    unfolding Add_def Let_def CalculateDelta_enc base_key_def base_ts_def
    using key [of "b_last_key b"] key0 [of "b_last_key b"]
    by (simp add: enc_entry_def Let_def PutVarint32_def PutVarint64_def read_at_def)
qed

definition builder_inv :: "bytes \<Rightarrow> DataPageBuilder \<Rightarrow> PageEntry list \<Rightarrow> bool" where
  "builder_inv hdr b es \<longleftrightarrow>
    (let iv = data_page_restart_interval (b_options b); n = length es in
     valid_options (b_options b) \<and> length hdr = HeaderSize
     \<and> b_buffer b = hdr @ enc_range iv es 0 n
     \<and> b_restarts b = region_offs iv es
     \<and> b_counter b = (if n = 0 then 0 else (n - 1) mod iv + 1)
     \<and> b_cnt b = n \<and> \<not> b_finished b
     \<and> b_last_key b = (if n = 0 then [] else e_key (last es))
     \<and> b_last_timestamp b = (if n = 0 then 0 else ClampTimestampToInt64 (e_ts (last es)))
     \<and> CurrentSizeEstimate b \<le> data_page_size (b_options b)
     \<and> (\<forall>e \<in> set es. length (e_key e) + length (e_value e) \<le> length (b_buffer b)))"

lemma HeaderSize_value [simp]: "HeaderSize = 19" "content_offset = 19" "page_size_offset = 9"
  by (simp_all add: HeaderSize_def content_offset_def next_page_offset_def prev_page_offset_def
      page_size_offset_def page_type_offset_def checksum_bytes_def)

lemma builder_inv_need_restart:
  assumes "builder_inv hdr b es"
  shows "NeedRestart b \<longleftrightarrow> es \<noteq> [] \<and> length es mod data_page_restart_interval (b_options b) = 0"
proof -
  let ?iv = "data_page_restart_interval (b_options b)"
  have iv: "0 < ?iv" using assms by (simp add: builder_inv_def Let_def valid_options_def)
  show ?thesis
  proof (cases es)
    case (Cons a list)
    have "b_counter b = length list mod ?iv + 1"
      using assms Cons by (simp add: builder_inv_def Let_def)
    moreover have "length list mod ?iv + 1 \<ge> ?iv \<longleftrightarrow> Suc (length list) mod ?iv = 0"
      using iv mod_less_divisor [OF iv, of "length list"] by (auto simp: mod_Suc)
    ultimately show ?thesis by (simp add: NeedRestart_def Cons)
  qed (use assms iv in \<open>simp add: builder_inv_def Let_def NeedRestart_def\<close>)
qed

lemma enc_at_snoc:
  assumes "builder_inv hdr b es"
  shows "enc_at (data_page_restart_interval (b_options b)) (es @ [e]) (length es)
    = enc_entry (base_key b) (base_ts b) e"
  using builder_inv_need_restart [OF assms] assms
  by (cases "es = []")
     (auto simp: enc_at_def base_key_def base_ts_def prev_key_def prev_ts_def builder_inv_def Let_def
       nth_append last_conv_nth)

lemma Add_inv:
  assumes inv: "builder_inv hdr b es" and add: "Add b e = (True, b')"
  shows "builder_inv hdr b' (es @ [e])" "b_options b' = b_options b"
proof -
  let ?iv = "data_page_restart_interval (b_options b)"
  let ?enc = "enc_entry (base_key b) (base_ts b) e"
  have iv: "0 < ?iv" using inv by (simp add: builder_inv_def Let_def valid_options_def)
  note nr = builder_inv_need_restart [OF inv]
  have b': "b' = b\<lparr> b_buffer := b_buffer b @ ?enc,
       b_restarts := b_restarts b @ (if NeedRestart b then [length (b_buffer b)] else []),
       b_counter := (if NeedRestart b then 0 else b_counter b) + 1,
       b_cnt := b_cnt b + 1, b_last_key := e_key e,
       b_last_timestamp := ClampTimestampToInt64 (e_ts e) \<rparr>"
    and size: "CurrentSizeEstimate b + (if NeedRestart b then 2 else 0) + length ?enc \<le> data_page_size (b_options b)"
    using add by (auto simp: Add_eq split: if_splits)
  show "b_options b' = b_options b" by (simp add: b')
  have len: "length (b_buffer b) = entry_off ?iv es (length es)"
    using inv by (simp add: builder_inv_def Let_def entry_off_def)
  have buf: "b_buffer b' = hdr @ enc_range ?iv (es @ [e]) 0 (length (es @ [e]))"
    using inv by (simp add: b' builder_inv_def Let_def enc_range_Suc enc_range_snoc enc_at_snoc [OF inv])
  have rst: "b_restarts b' = region_offs ?iv (es @ [e])"
    using inv len nr by (simp add: b' region_offs_snoc [OF iv] builder_inv_def Let_def)
  have cnt: "b_counter b' = length es mod ?iv + 1"
  proof (cases "NeedRestart b")
    case True
    then show ?thesis using nr by (simp add: b')
  next
    case False
    then have "es = [] \<or> length es mod ?iv \<noteq> 0" using nr by simp
    then have "b_counter b = length es mod ?iv"
      using inv by (cases es) (auto simp: builder_inv_def Let_def mod_Suc split: if_splits)
    then show ?thesis using False by (simp add: b')
  qed
  have "length (base_key b) \<le> length (b_buffer b)"
    using inv by (auto simp: base_key_def builder_inv_def Let_def dest!: bspec [where x = "last es"])
  moreover have "length (e_key e) - common_prefix (base_key b) (e_key e) + length (e_value e) \<le> length ?enc"
    by (simp add: enc_entry_def Let_def)
  ultimately have kl: "length (e_key e) + length (e_value e) \<le> length (b_buffer b')"
    using common_prefix_le(1) [of "base_key b" "e_key e"] by (simp add: b')
  moreover have "length (e_key x) + length (e_value x) \<le> length (b_buffer b')" if "x \<in> set es" for x
    using inv that by (fastforce simp: b' builder_inv_def Let_def)
  ultimately have kls: "\<forall>x \<in> set (es @ [e]). length (e_key x) + length (e_value x) \<le> length (b_buffer b')"
    by simp
  have size': "CurrentSizeEstimate b' \<le> data_page_size (b_options b)"
    using size by (simp add: b' CurrentSizeEstimate_def split: if_splits)
  have "valid_options (b_options b)" "length hdr = HeaderSize" "\<not> b_finished b" "b_cnt b = length es"
    using inv by (simp_all add: builder_inv_def Let_def)
  moreover have "b_options b' = b_options b" "b_finished b' = b_finished b" "b_cnt b' = Suc (b_cnt b)"
      "b_last_key b' = e_key e" "b_last_timestamp b' = ClampTimestampToInt64 (e_ts e)"
    by (simp_all add: b')
  ultimately show "builder_inv hdr b' (es @ [e])"
    using buf rst cnt kls size' unfolding builder_inv_def Let_def by simp
qed

lemma AddAll_inv:
  "builder_inv hdr b es \<Longrightarrow> AddAll b es' = Some b' \<Longrightarrow> builder_inv hdr b' (es @ es') \<and> b_options b' = b_options b"
proof (induction es' arbitrary: b es)
  case (Cons e es')
  then obtain b1 where "Add b e = (True, b1)" "AddAll b1 es' = Some b'"
    by (auto split: prod.splits bool.splits)
  then show ?case
    using Cons.IH [of b1 "es @ [e]"] Add_inv [OF Cons.prems(1)] by auto
qed simp

lemma builder_inv_new:
  "valid_options opts \<Longrightarrow> builder_inv (replicate HeaderSize 0) (DataPageBuilder_new opts) []"
  "valid_options (b_options b) \<Longrightarrow>
    builder_inv (SetPageType (replicate HeaderSize 0) Data) (DataPageBuilder_Reset b) []"
  by (simp_all add: builder_inv_def Let_def DataPageBuilder_new_def DataPageBuilder_Reset_def
      enc_range_def region_offs_def num_regions_def entry_off_def CurrentSizeEstimate_def
      valid_options_def SetPageType_def)

section \<open>The layout of a finished page\<close>

definition fixed16s :: "nat list \<Rightarrow> bytes" where
  "fixed16s rs = concat (map (\<lambda>r. EncodeFixed16 (of_nat r)) rs)"

lemma foldl_PutFixed16: "foldl (\<lambda>buf r. PutFixed16 buf (of_nat r)) buf rs = buf @ fixed16s rs"
  by (induction rs arbitrary: buf) (simp_all add: PutFixed16_def fixed16s_def)

lemma length_fixed16s [simp]: "length (fixed16s rs) = 2 * length rs"
  by (induction rs) (simp_all add: fixed16s_def)

lemma unat_of_nat_16: "n < 2 ^ 16 \<Longrightarrow> unat (of_nat n :: uint16) = n"
  by (simp add: unsigned_of_nat take_bit_nat_eq_self)

lemma DecodeFixed16_fixed16s:
  "i < length rs \<Longrightarrow> DecodeFixed16 (drop (2 * i) (fixed16s rs @ rest)) = of_nat (rs ! i)"
proof (induction rs arbitrary: i)
  case (Cons r rs)
  then show ?case by (cases i) (simp_all add: fixed16s_def)
qed simp

definition page_layout :: "nat \<Rightarrow> bytes \<Rightarrow> PageEntry list \<Rightarrow> bool" where
  "page_layout iv page es \<longleftrightarrow> 0 < iv
    \<and> (\<exists>hdr pad. length hdr = HeaderSize
        \<and> page = hdr @ enc_range iv es 0 (length es) @ fixed16s (region_offs iv es)
            @ EncodeFixed16 (of_nat (num_regions iv (length es))) @ pad)
    \<and> ContentLength page = entry_off iv es (length es) + 2 * num_regions iv (length es) + 2
    \<and> (\<forall>e \<in> set es. length (e_key e) + length (e_value e) < 2 ^ 16)"

lemma length_region_offs [simp]: "length (region_offs iv es) = num_regions iv (length es)"
  by (simp add: region_offs_def)

lemma Finish_layout:
  assumes "builder_inv hdr b es"
  shows "page_layout (data_page_restart_interval (b_options b)) (fst (Finish b)) es"
    and "length (fst (Finish b)) = data_page_size (b_options b)"
    and "b_finished (snd (Finish b))"
    and "TypeOfPage (fst (Finish b)) = hdr ! page_type_offset"
proof -
  let ?iv = "data_page_restart_interval (b_options b)"
  let ?nr = "num_regions ?iv (length es)"
  let ?buf = "hdr @ enc_range ?iv es 0 (length es) @ fixed16s (region_offs ?iv es) @ EncodeFixed16 (of_nat ?nr)"
  let ?tot = "entry_off ?iv es (length es) + 2 * ?nr + 2"
  have inv: "valid_options (b_options b)" "length hdr = 19" "b_buffer b = hdr @ enc_range ?iv es 0 (length es)"
    "b_restarts b = region_offs ?iv es"  "CurrentSizeEstimate b \<le> data_page_size (b_options b)"
    "\<forall>e \<in> set es. length (e_key e) + length (e_value e) \<le> length (b_buffer b)"
    using assms unfolding builder_inv_def Let_def HeaderSize_value by blast+
  have tot: "length ?buf = ?tot" using inv(2) by (simp add: entry_off_def)
  have ps: "?tot \<le> data_page_size (b_options b)" "data_page_size (b_options b) < 2 ^ 16"
    using inv by (simp_all add: CurrentSizeEstimate_def entry_off_def valid_options_def)
  let ?hdr = "write_at 9 (EncodeFixed16 (of_nat ?tot)) hdr"
  let ?pad = "replicate (data_page_size (b_options b) - ?tot) 0"
  have w: "write_at 9 (EncodeFixed16 c) (hdr @ x) = write_at 9 (EncodeFixed16 c) hdr @ x" for c x
    using inv(2) by (simp add: write_at_def)
  have fin: "fst (Finish b) = resize (data_page_size (b_options b)) (write_at 9 (EncodeFixed16 (of_nat (length ?buf))) ?buf)"
    unfolding Finish_def Let_def inv(3,4) foldl_PutFixed16 by (simp add: PutFixed16_def)
  have page: "fst (Finish b) = ?hdr @ enc_range ?iv es 0 (length es) @ fixed16s (region_offs ?iv es)
            @ EncodeFixed16 (of_nat ?nr) @ ?pad"
    unfolding fin tot w using ps inv(2)
    by (subst resize_append) (simp_all add: entry_off_def)
  have hl: "length ?hdr = 19" using inv(2) by simp
  have cl: "ContentLength (fst (Finish b)) = ?tot"
  proof -
    have "DecodeFixed16 (drop page_size_offset (fst (Finish b))) = of_nat ?tot"
      unfolding page using inv(2) by (simp add: drop_write_at_same)
    moreover have "unat (of_nat ?tot :: uint16) = ?tot"
      by (rule unat_of_nat_16) (use ps in linarith)
    ultimately show ?thesis by (simp only: ContentLength_def)
  qed
  have "\<forall>e \<in> set es. length (e_key e) + length (e_value e) < 2 ^ 16"
    using inv(2,3,6) ps by (fastforce simp: entry_off_def)
  then show "page_layout ?iv (fst (Finish b)) es"
    using page hl cl inv(1) unfolding page_layout_def valid_options_def by auto
  show "length (fst (Finish b)) = data_page_size (b_options b)"
    using inv(2) ps by (simp add: Finish_def Let_def)
  show "b_finished (snd (Finish b))" by (simp add: Finish_def Let_def)
  show "TypeOfPage (fst (Finish b)) = hdr ! page_type_offset"
    unfolding page TypeOfPage_def using inv(2) by (simp add: nth_append write_at_def page_type_offset_def checksum_bytes_def)
qed

definition iter_on :: "nat \<Rightarrow> DataPageIter \<Rightarrow> PageEntry list \<Rightarrow> bool" where
  "iter_on iv it es \<longleftrightarrow> page_layout iv (i_page it) es
    \<and> i_restart_num it = num_regions iv (length es)
    \<and> i_restart_offset it = entry_off iv es (length es)
    \<and> entry_off iv es (length es) + 2 * num_regions iv (length es) + 2 < 2 ^ 16"

lemma page_layout_bound:
  "page_layout iv page es \<Longrightarrow> entry_off iv es (length es) + 2 * num_regions iv (length es) + 2 < 2 ^ 16"
  unfolding page_layout_def ContentLength_def
  using unsigned_less [of "DecodeFixed16 (drop page_size_offset page)", where ?'a = nat] by simp

lemma page_layout_drop:
  assumes "page_layout iv page es"
  obtains pad where "drop (entry_off iv es (length es)) page =
      fixed16s (region_offs iv es) @ EncodeFixed16 (of_nat (num_regions iv (length es))) @ pad"
  using assms unfolding page_layout_def by (auto simp: entry_off_def)

lemma page_layout_RestartNum:
  assumes "page_layout iv page es"
  shows "RestartNum page = num_regions iv (length es)"
proof -
  let ?nr = "num_regions iv (length es)"
  obtain pad where d: "drop (entry_off iv es (length es)) page =
      fixed16s (region_offs iv es) @ EncodeFixed16 (of_nat ?nr) @ pad"
    by (rule page_layout_drop [OF assms])
  have "drop (ContentLength page - 2) page = drop (2 * ?nr) (drop (entry_off iv es (length es)) page)"
    using assms by (simp add: page_layout_def add.commute)
  also have "\<dots> = EncodeFixed16 (of_nat ?nr) @ pad"
    by (simp add: d)
  finally show ?thesis
    using page_layout_bound [OF assms] by (simp add: RestartNum_def unat_of_nat_16)
qed

lemma iter_on_new:
  assumes "page_layout iv page es"
  shows "iter_on iv (IterResetPage it page) es"
proof -
  let ?nr = "num_regions iv (length es)"
  let ?e = "entry_off iv es (length es)"
  note b = page_layout_bound [OF assms]
  have c: "ContentLength page = ?e + 2 * ?nr + 2" using assms by (simp add: page_layout_def)
  have "(of_nat (ContentLength page) - of_nat ((1 + ?nr) * 2) :: uint16) = of_nat ?e"
    by (simp add: c algebra_simps)
  then have "unat (of_nat (ContentLength page) - of_nat ((1 + ?nr) * 2) :: uint16) = ?e"
    using b by (simp add: unat_of_nat_16 del: of_nat_mult of_nat_add)
  then show ?thesis
    using assms b by (simp add: iter_on_def IterResetPage_def Let_def IterReset_def page_layout_RestartNum)
qed

lemma iter_on_RestartOffset:
  assumes "iter_on iv it es" "i < num_regions iv (length es)"
  shows "RestartOffset it i = entry_off iv es (i * iv)"
proof -
  have pl: "page_layout iv (i_page it) es" and iv: "0 < iv"
    and ro: "i_restart_offset it = entry_off iv es (length es)"
    using assms(1) by (simp_all add: iter_on_def page_layout_def)
  obtain pad where d: "drop (entry_off iv es (length es)) (i_page it) =
      fixed16s (region_offs iv es) @ EncodeFixed16 (of_nat (num_regions iv (length es))) @ pad"
    by (rule page_layout_drop [OF pl])
  have "drop (i_restart_offset it + i * 2) (i_page it) = drop (2 * i) (drop (entry_off iv es (length es)) (i_page it))"
    by (simp add: ro mult.commute add.commute)
  then have "DecodeFixed16 (drop (i_restart_offset it + i * 2) (i_page it)) = of_nat (entry_off iv es (i * iv))"
    using assms(2) DecodeFixed16_fixed16s [of i "region_offs iv es"]
    by (simp add: d region_offs_def)
  moreover have "entry_off iv es (i * iv) < 2 ^ 16"
    using entry_off_mono [OF num_regions_mult(1) [OF iv assms(2)], of iv es] assms(1)
    unfolding iter_on_def by linarith
  ultimately show ?thesis
    by (simp add: RestartOffset_def unat_of_nat_16)
qed

lemma iter_on_region:
  assumes "iter_on iv it es" "j \<le> length es"
  shows "region_from it (entry_off iv es j) = enc_range iv es j (length es)"
proof -
  have ro: "i_restart_offset it = entry_off iv es (length es)"
    using assms(1) by (simp add: iter_on_def)
  obtain hdr rest where h: "length hdr = 19" "i_page it = hdr @ enc_range iv es 0 (length es) @ rest"
    using assms(1) unfolding iter_on_def page_layout_def by auto
  have "take (i_restart_offset it) (i_page it) = hdr @ enc_range iv es 0 (length es)"
    by (simp add: ro h entry_off_def)
  then show ?thesis
    using assms(2) h(1) enc_range_split [of 0 j "length es" iv es]
    by (simp add: region_from_def entry_off_def)
qed

section \<open>Reading a page\<close>

lemma unat_Clamp: "unat (ClampTimestampToInt64 ts) < 2 ^ 63"
proof -
  have "unat (2 ^ 63 - 1 :: uint64) < 2 ^ 63" by simp
  then show ?thesis
    by (auto simp: ClampTimestampToInt64_def word_less_nat_alt not_less)
qed

lemma clamp_diff:
  fixes a b :: uint64
  assumes "unat a < 2 ^ 63" "unat b < 2 ^ 63"
  shows "a - b \<noteq> 2 ^ 63"
proof
  assume "a - b = 2 ^ 63"
  then have "a = b + 2 ^ 63" by (simp add: algebra_simps)
  then have "unat a = unat b + 2 ^ 63"
    using assms(2) by (simp add: unat_word_ariths)
  then show False using assms(1) by simp
qed

definition stored :: "PageEntry \<Rightarrow> PageEntry" where
  "stored e = e\<lparr> e_ts := ClampTimestampToInt64 (e_ts e),
                e_comp := (if e_large e then NoCompression else e_comp e) \<rparr>"

definition positioned :: "nat \<Rightarrow> DataPageIter \<Rightarrow> PageEntry list \<Rightarrow> nat \<Rightarrow> bool" where
  "positioned iv it es j \<longleftrightarrow> iter_on iv it es \<and> j \<le> length es
    \<and> i_curr_offset it = entry_off iv es j
    \<and> i_curr_restart_idx it = min (j div iv) (num_regions iv (length es) - 1)
    \<and> (j mod iv \<noteq> 0 \<longrightarrow>
        i_key it = e_key (es ! (j - 1)) \<and> i_timestamp it = ClampTimestampToInt64 (e_ts (es ! (j - 1))))"

lemma prev_ts_less: "unat (prev_ts iv es j) < 2 ^ 63"
  using unat_Clamp by (simp add: prev_ts_def)

lemma ParseTail_enc:
  assumes "unat t < 2 ^ 63"
  shows "ParseTail (e_expire e \<noteq> 0)
    ((if e_expire e \<noteq> 0 then EncodeVarint64 (e_expire e) else [])
      @ EncodeVarint64 (EncodeInt64Delta (ClampTimestampToInt64 (e_ts e) - t)) @ rest)
    = Some (e_expire e, EncodeInt64Delta (ClampTimestampToInt64 (e_ts e) - t), rest)"
  by (simp add: ParseTail_def)

lemma entry_fits:
  assumes "iter_on iv it es" "j < length es"
  shows "length (e_key (es ! j)) + length (e_value (es ! j)) < 2 ^ 16"
    and "length (enc_range iv es i (length es)) < 2 ^ 16"
proof -
  show "length (e_key (es ! j)) + length (e_value (es ! j)) < 2 ^ 16"
    using assms by (simp add: iter_on_def page_layout_def)
  have "length (enc_range iv es i (length es)) \<le> length (enc_range iv es 0 (length es))"
  proof (cases "i \<le> length es")
    case True
    then show ?thesis using enc_range_split [of 0 i "length es" iv es] by simp
  qed (simp add: enc_range_def)
  then show "length (enc_range iv es i (length es)) < 2 ^ 16"
    using assms(1) by (simp add: iter_on_def entry_off_def)
qed

lemma iter_offset:
  assumes "iter_on iv it es" "j \<le> length es"
  shows "i_restart_offset it - length (enc_range iv es j (length es)) = entry_off iv es j"
  using assms enc_range_split [of 0 j "length es" iv es] by (simp add: iter_on_def entry_off_def)

lemma ParseNextKey_decoded:
  assumes "i_curr_offset it < i_restart_offset it" "content_offset \<le> i_curr_offset it"
    and "DecodeEntry (region_from it (i_curr_offset it)) = Some (h, pt)"
    and "unat (h_shared h) \<le> length (i_key it)"
    and "ParseTail (h_expire h) (drop (unat (h_value_length h)) (drop (unat (h_non_shared h)) pt))
      = Some (expire_ts, ts_val, rest)"
    and "curr_offset = i_restart_offset it - length rest"
  shows "ParseNextKey it =
    (True,
     it\<lparr> i_curr_offset := curr_offset,
         i_curr_restart_idx :=
           (if i_curr_restart_idx it + 1 < i_restart_num it
              \<and> RestartOffset it (i_curr_restart_idx it + 1) \<le> curr_offset
            then i_curr_restart_idx it + 1 else i_curr_restart_idx it),
         i_key := take (unat (h_shared h)) (i_key it) @ take (unat (h_non_shared h)) pt,
         i_value := take (unat (h_value_length h)) (drop (unat (h_non_shared h)) pt),
         i_overflow := h_overflow h, i_large := h_large h, i_comp := h_comp h,
         i_timestamp :=
           (if i_curr_offset it = RestartOffset it (i_curr_restart_idx it)
            then DecodeInt64Delta ts_val else i_timestamp it + DecodeInt64Delta ts_val),
         i_expire := expire_ts \<rparr>)"
  using assms by (simp add: ParseNextKey_def Let_def)

lemma next_restart_idx:
  assumes on: "iter_on iv it es" and j: "j < length es"
  shows "(if j div iv + 1 < i_restart_num it \<and> RestartOffset it (j div iv + 1) \<le> entry_off iv es (Suc j)
      then j div iv + 1 else j div iv) = min (Suc j div iv) (num_regions iv (length es) - 1)"
proof -
  have iv: "0 < iv" and nr: "i_restart_num it = num_regions iv (length es)"
    using on by (simp_all add: iter_on_def page_layout_def)
  have jd: "j div iv < num_regions iv (length es)" by (rule div_less_num_regions [OF j])
  have "(j div iv + 1) * iv \<le> Suc j \<longleftrightarrow> Suc j mod iv = 0"
  proof (cases "Suc j mod iv = 0")
    case True
    then have "Suc j = (j div iv + 1) * iv"
      by (metis Suc_eq_plus1 add.right_neutral div_Suc div_mult_mod_eq)
    then show ?thesis using True by simp
  next
    case False
    have "Suc j < (Suc j div iv + 1) * iv"
      using iv by (metis Suc_eq_plus1 div_less_iff_less_mult lessI)
    then show ?thesis using False by (simp add: div_Suc)
  qed
  then show ?thesis
    using jd iter_on_RestartOffset [OF on, of "j div iv + 1"]
    by (auto simp: nr div_Suc)
qed

lemma parse_step:
  assumes pos: "positioned iv it es j" and j: "j < length es"
  obtains it' where "ParseNextKey it = (True, it')" "positioned iv it' es (Suc j)"
    "current it' = stored (es ! j)" "i_page it' = i_page it"
proof -
  let ?n = "length es" and ?e = "es ! j"
  let ?nr = "num_regions iv (length es)"
  let ?k = "prev_key iv es j" and ?t = "prev_ts iv es j"
  let ?sh = "common_prefix ?k (e_key ?e)"
  let ?rest = "enc_range iv es (Suc j) ?n"
  let ?tail = "drop ?sh (e_key ?e) @ e_value ?e
      @ (if e_expire ?e \<noteq> 0 then EncodeVarint64 (e_expire ?e) else [])
      @ EncodeVarint64 (EncodeInt64Delta (ClampTimestampToInt64 (e_ts ?e) - ?t)) @ ?rest"
  have on: "iter_on iv it es" and off: "i_curr_offset it = entry_off iv es j"
    and idx: "i_curr_restart_idx it = min (j div iv) (?nr - 1)"
    using pos by (simp_all add: positioned_def)
  have iv: "0 < iv" using on by (simp add: iter_on_def page_layout_def)
  have jd: "j div iv < ?nr" by (rule div_less_num_regions [OF j])
  then have idx': "i_curr_restart_idx it = j div iv" using idx by simp
  have ro: "i_restart_offset it = entry_off iv es ?n" "i_restart_num it = ?nr"
    using on by (simp_all add: iter_on_def)
  have restart: "RestartOffset it (i_curr_restart_idx it) = entry_off iv es (j div iv * iv)"
    using iter_on_RestartOffset [OF on jd] by (simp add: idx')
  have is_restart: "i_curr_offset it = RestartOffset it (i_curr_restart_idx it) \<longleftrightarrow> j mod iv = 0"
    by (simp add: restart off) (metis add.right_neutral add_left_cancel div_mult_mod_eq)
  have region: "region_from it (i_curr_offset it) = enc_entry ?k ?t ?e @ ?rest"
    using iter_on_region [OF on] j by (simp add: off enc_range_Cons enc_at_def)
  have fits: "length (e_key ?e) + length (e_value ?e) < 2 ^ 28" "length ?rest < 2 ^ 28"
    using entry_fits(1) [OF on j] entry_fits(2) [OF on j, of "Suc j"] by simp_all
  note dec = DecodeEntry_enc [OF fits, of ?k ?t]
  have sh: "?sh \<le> length (e_key ?e)" "?sh \<le> length (i_key it)" "take ?sh (i_key it) = take ?sh (e_key ?e)"
    using common_prefix_le [of ?k "e_key ?e"] common_prefix_take [of ?k "e_key ?e"] pos
    by (auto simp: prev_key_def positioned_def split: if_splits)
  have "?sh < 2 ^ 32" "length (e_key ?e) - ?sh < 2 ^ 32" "length (e_value ?e) < 2 ^ 32"
    using fits sh(1) by simp_all
  note u = this [THEN unat_of_nat_32]
  have ts: "(if j mod iv = 0 then DecodeInt64Delta (EncodeInt64Delta (ClampTimestampToInt64 (e_ts ?e) - ?t))
      else i_timestamp it + DecodeInt64Delta (EncodeInt64Delta (ClampTimestampToInt64 (e_ts ?e) - ?t)))
    = ClampTimestampToInt64 (e_ts ?e)"
    unfolding DecodeInt64Delta_Encode [OF clamp_diff [OF unat_Clamp prev_ts_less]]
    using pos by (simp add: prev_ts_def positioned_def)
  define it' where "it' = it\<lparr> i_curr_offset := entry_off iv es (Suc j),
      i_curr_restart_idx := min (Suc j div iv) (?nr - 1),
      i_key := e_key ?e, i_value := e_value ?e, i_overflow := e_overflow ?e, i_large := e_large ?e,
      i_comp := (if e_large ?e then NoCompression else e_comp ?e),
      i_timestamp := ClampTimestampToInt64 (e_ts ?e), i_expire := e_expire ?e \<rparr>"
  have key: "take ?sh (i_key it) @ take (length (e_key ?e) - ?sh) (drop ?sh (e_key ?e) @ x) = e_key ?e" for x
    using sh by simp
  have co: "entry_off iv es (Suc j) = i_restart_offset it - length ?rest"
    using iter_offset [OF on, of "Suc j"] j by simp
  have d: "unat (h_shared (entry_head ?k ?e)) \<le> length (i_key it)"
    using sh(2) by (simp add: entry_head_def u)
  have t: "ParseTail (h_expire (entry_head ?k ?e))
      (drop (unat (h_value_length (entry_head ?k ?e))) (drop (unat (h_non_shared (entry_head ?k ?e))) ?tail))
      = Some (e_expire ?e, EncodeInt64Delta (ClampTimestampToInt64 (e_ts ?e) - ?t), ?rest)"
    unfolding entry_head_def EntryHead.select_convs u
    using ParseTail_enc [OF prev_ts_less, of ?e iv es j ?rest] by simp
  have a: "i_curr_offset it < i_restart_offset it" "content_offset \<le> i_curr_offset it"
    using j by (simp_all add: off ro(1), simp add: entry_off_def)
  have "ParseNextKey it = (True, it')"
    unfolding ParseNextKey_decoded [OF a dec [folded region] d t co] is_restart ts
    unfolding it'_def next_restart_idx [OF on j, symmetric] idx'
    using key by (simp add: entry_head_def u)
  moreover have "positioned iv it' es (Suc j)"
    using on j by (simp add: positioned_def it'_def iter_on_def)
  moreover have "current it' = stored ?e"
    by (simp add: it'_def current_def stored_def)
  moreover have "i_page it' = i_page it" by (simp add: it'_def)
  ultimately show thesis by (rule that)
qed

lemma parse_end:
  assumes "positioned iv it es (length es)"
  shows "ParseNextKey it = (False, Invalidate it)" "\<not> HasNext it"
  using assms by (simp_all add: positioned_def iter_on_def ParseNextKey_def HasNext_def)

lemma positioned_HasNext: "positioned iv it es j \<Longrightarrow> HasNext it \<longleftrightarrow> j < length es"
  by (simp add: positioned_def iter_on_def HasNext_def)

lemma positioned_new:
  assumes "page_layout iv page es"
  shows "positioned iv (IterResetPage it page) es 0"
proof -
  have "i_curr_offset (IterResetPage it page) = content_offset"
    "i_curr_restart_idx (IterResetPage it page) = 0"
    by (simp_all add: IterResetPage_def Let_def IterReset_def)
  then show ?thesis
    using iter_on_new [OF assms, of it] by (simp add: positioned_def entry_off_def enc_range_def)
qed

lemma ReadEntries_positioned:
  "positioned iv it es j \<Longrightarrow> length es \<le> j + n
    \<Longrightarrow> ReadEntries n it = map stored (drop j es)"
proof (induction n arbitrary: it j)
  case 0
  then show ?case by (simp add: positioned_def)
next
  case (Suc n)
  show ?case
  proof (cases "j < length es")
    case True
    obtain it' where it': "ParseNextKey it = (True, it')" "positioned iv it' es (Suc j)"
      "current it' = stored (es ! j)"
      by (rule parse_step [OF Suc.prems(1) True])
    then have "ReadEntries n it' = map stored (drop (Suc j) es)"
      using Suc by simp
    then show ?thesis
      using it' True positioned_HasNext [OF Suc.prems(1)]
      by (simp add: Next_def Cons_nth_drop_Suc [symmetric])
  next
    case False
    then show ?thesis using positioned_HasNext [OF Suc.prems(1)] by simp
  qed
qed

lemma AddAll_layout:
  assumes "valid_options (b_options b)" "AddAll (DataPageBuilder_Reset b) es = Some b'"
  shows "page_layout (data_page_restart_interval (b_options b)) (fst (Finish b')) es"
    "length (fst (Finish b')) = data_page_size (b_options b)"
    "TypeOfPage (fst (Finish b')) = page_type_code Data"
proof -
  have inv: "builder_inv (SetPageType (replicate HeaderSize 0) Data) b' es" "b_options b' = b_options b"
    using AddAll_inv [OF builder_inv_new(2) [OF assms(1)] assms(2)] by (simp_all add: DataPageBuilder_Reset_def Let_def)
  then show "page_layout (data_page_restart_interval (b_options b)) (fst (Finish b')) es"
    "length (fst (Finish b')) = data_page_size (b_options b)"
    using Finish_layout(1,2) [OF inv(1)] by simp_all
  have "page_type_offset < length (replicate HeaderSize (0 :: byte))"
    by (simp add: page_type_offset_def checksum_bytes_def)
  then show "TypeOfPage (fst (Finish b')) = page_type_code Data"
    unfolding Finish_layout(4) [OF inv(1)] by (simp add: SetPageType_def)
qed

lemma ReadEntries_built:
  assumes "valid_options (b_options b)" "AddAll (DataPageBuilder_Reset b) es = Some b'" "length es \<le> n"
  shows "ReadEntries n (DataPageIter_new (fst (Finish b'))) = map stored es"
  using ReadEntries_positioned [OF positioned_new [OF AddAll_layout(1) [OF assms(1,2)]]] assms(3)
  unfolding DataPageIter_new_def by simp

section \<open>Searching a page\<close>

lemma PivotKey_region:
  assumes on: "iter_on iv it es" and i: "i < num_regions iv (length es)" and ne: "es \<noteq> []"
  shows "PivotKey it i = e_key (es ! (i * iv))"
proof -
  have iv: "0 < iv" using on by (simp add: iter_on_def page_layout_def)
  let ?j = "i * iv"
  have j: "?j < length es" using num_regions_mult(2) [OF iv i] ne by simp
  have k: "prev_key iv es ?j = []" by (simp add: prev_key_def)
  have "region_from it (RestartOffset it i)
      = enc_entry [] (prev_ts iv es ?j) (es ! ?j) @ enc_range iv es (Suc ?j) (length es)"
    using iter_on_region [OF on] j by (simp add: iter_on_RestartOffset [OF on i] enc_range_Cons enc_at_def k)
  moreover have "length (e_key (es ! ?j)) + length (e_value (es ! ?j)) < 2 ^ 28"
      "length (enc_range iv es (Suc ?j) (length es)) < 2 ^ 28"
    using entry_fits(1) [OF on j] entry_fits(2) [OF on j, of "Suc ?j"] by simp_all
  ultimately show ?thesis
    using DecodeEntry_enc [of "es ! ?j" "enc_range iv es (Suc ?j) (length es)" "[]" "prev_ts iv es ?j"]
    by (simp add: PivotKey_def entry_head_def unat_of_nat_32)
qed

lemma SearchRegion_loop_spec:
  assumes "\<And>i. i < nr \<Longrightarrow> PivotKey it i = rk i"
    and "\<And>i j. i < j \<Longrightarrow> j < nr \<Longrightarrow> rk i < rk j"
    and "\<And>i. i < left \<Longrightarrow> rk i < key" "\<And>i. left + cnt \<le> i \<Longrightarrow> i < nr \<Longrightarrow> key < rk i" "left + cnt \<le> nr"
  shows "case SearchRegion_loop it key left cnt of
      (True, m) \<Rightarrow> m < nr \<and> rk m = key
    | (False, m) \<Rightarrow> m \<le> nr \<and> (\<forall>i<m. rk i < key) \<and> (\<forall>i. m \<le> i \<and> i < nr \<longrightarrow> key < rk i)"
  using assms(3-5)
proof (induction cnt arbitrary: left rule: less_induct)
  case (less cnt)
  show ?case
  proof (cases "0 < cnt")
    case False
    then show ?thesis using less.prems by (simp add: SearchRegion_loop.simps)
  next
    case True
    let ?mid = "left + cnt div 2"
    have mid: "?mid < nr" using True less.prems(3) by linarith
    note pk = assms(1) [OF mid]
    consider "rk ?mid = key" | "rk ?mid < key" | "key < rk ?mid" by fastforce
    then show ?thesis
    proof cases
      case 1
      then show ?thesis using True mid by (subst SearchRegion_loop.simps) (simp add: Let_def pk)
    next
      case 2
      have "SearchRegion_loop it key left cnt = SearchRegion_loop it key (?mid + 1) (cnt - (cnt div 2 + 1))"
        using True 2 order_less_imp_not_eq [OF 2]
        by (subst SearchRegion_loop.simps) (simp only: Let_def pk Compare_less Compare_zero if_True if_False)
      moreover have "rk i < key" if "i < ?mid + 1" for i
        using that assms(2) [of i ?mid] mid 2 by (cases "i = ?mid") auto
      moreover have e: "?mid + 1 + (cnt - (cnt div 2 + 1)) = left + cnt" using True by linarith
      ultimately show ?thesis
        using less.IH [of "cnt - (cnt div 2 + 1)" "?mid + 1"] less.prems(2,3) True by simp
    next
      case 3
      have "SearchRegion_loop it key left cnt = SearchRegion_loop it key left (cnt div 2)"
        using True
        by (subst SearchRegion_loop.simps)
          (simp only: Let_def pk Compare_less Compare_zero if_True if_False
            order_less_imp_not_eq2 [OF 3] leD [OF less_imp_le [OF 3]])
      moreover have "key < rk i" if "left + cnt div 2 \<le> i" "i < nr" for i
        using that assms(2) [of ?mid i] 3 by (cases "i = ?mid") auto
      ultimately show ?thesis
        using less.IH [of "cnt div 2" left] less.prems(1) mid True by simp
    qed
  qed
qed

definition keys_sorted :: "PageEntry list \<Rightarrow> bool" where
  "keys_sorted es \<longleftrightarrow> sorted_wrt (<) (map e_key es)"

lemma keys_sorted_nth:
  "keys_sorted es \<Longrightarrow> i < j \<Longrightarrow> j < length es \<Longrightarrow> e_key (es ! i) < e_key (es ! j)"
  by (simp add: keys_sorted_def sorted_wrt_map sorted_wrt_iff_nth_less)

lemma SearchRegion_spec:
  assumes on: "iter_on iv it es" and ne: "es \<noteq> []" and sorted: "keys_sorted es"
  shows "case SearchRegion it key of
      (True, m) \<Rightarrow> m * iv < length es \<and> e_key (es ! (m * iv)) = key \<and> m < num_regions iv (length es)
    | (False, m) \<Rightarrow> m \<le> num_regions iv (length es) \<and> (\<forall>i<m. e_key (es ! (i * iv)) < key)
        \<and> (\<forall>i. m \<le> i \<and> i < num_regions iv (length es) \<longrightarrow> key < e_key (es ! (i * iv)))"
proof -
  let ?nr = "num_regions iv (length es)"
  have iv: "0 < iv" using on by (simp add: iter_on_def page_layout_def)
  have nr: "i_restart_num it = ?nr" "0 < ?nr" using on by (simp_all add: iter_on_def num_regions_def)
  have "e_key (es ! (i * iv)) < e_key (es ! (j * iv))" if "i < j" "j < ?nr" for i j
    using keys_sorted_nth [OF sorted] num_regions_mult(2) [OF iv that(2)] that(1) iv ne by simp
  then have "case SearchRegion_loop it key 0 ?nr of
      (True, m) \<Rightarrow> m < ?nr \<and> e_key (es ! (m * iv)) = key
    | (False, m) \<Rightarrow> m \<le> ?nr \<and> (\<forall>i<m. e_key (es ! (i * iv)) < key)
        \<and> (\<forall>i. m \<le> i \<and> i < ?nr \<longrightarrow> key < e_key (es ! (i * iv)))"
    using PivotKey_region [OF on _ ne]
    by (intro SearchRegion_loop_spec [where rk = "\<lambda>i. e_key (es ! (i * iv))"]) auto
  then show ?thesis
    using nr num_regions_mult(2) [OF iv, of _ "length es"] ne
    by (auto simp: SearchRegion_def split: prod.splits bool.splits)
qed

definition lower_bound :: "PageEntry list \<Rightarrow> bytes \<Rightarrow> nat" where
  "lower_bound es key = length (takeWhile (\<lambda>e. e_key e < key) es)"

lemma lower_bound_eqI:
  assumes "j \<le> length es" "\<And>i. i < j \<Longrightarrow> e_key (es ! i) < key" "j < length es \<Longrightarrow> key \<le> e_key (es ! j)"
  shows "lower_bound es key = j"
  unfolding lower_bound_def
  using assms by (subst takeWhile_eq_take_P_nth [of j]) (auto simp: not_less min_def)

lemma positioned_restart:
  assumes "iter_on iv it es" "i < num_regions iv (length es)"
  shows "positioned iv (SeekToRestart it i) es (i * iv)"
proof -
  have iv: "0 < iv" using assms by (simp add: iter_on_def page_layout_def)
  then show ?thesis
    using assms num_regions_mult(1) [OF iv assms(2)] iter_on_RestartOffset [OF assms]
    by (simp add: positioned_def SeekToRestart_def iter_on_def)
qed

lemma SeekLoop_spec:
  assumes "positioned iv it es j" "j \<le> m" "m \<le> length es"
    and "\<And>i. i < j \<Longrightarrow> e_key (es ! i) < key"
  shows "\<exists>it'. (\<exists>f. f < m \<and> (\<forall>i<f. e_key (es ! i) < key) \<and> key \<le> e_key (es ! f)
        \<and> SeekLoop key (entry_off iv es m) it = Some (True, it')
        \<and> positioned iv it' es (Suc f) \<and> current it' = stored (es ! f))
     \<or> (\<forall>i<m. e_key (es ! i) < key) \<and> SeekLoop key (entry_off iv es m) it = Some (False, it')
        \<and> positioned iv it' es m"
  using assms
proof (induction "m - j" arbitrary: it j)
  case 0
  then show ?case by (subst (1 2) SeekLoop.simps) (auto simp: positioned_def)
next
  case (Suc d)
  then have j: "j < m" "j < length es" by linarith+
  obtain it1 where it1: "ParseNextKey it = (True, it1)" "positioned iv it1 es (Suc j)"
    "current it1 = stored (es ! j)"
    by (rule parse_step [OF Suc.prems(1) j(2)])
  have key: "i_key it1 = e_key (es ! j)"
    using arg_cong [OF it1(3), of e_key] by (simp add: current_def stored_def)
  have off: "i_curr_offset it < entry_off iv es m" using Suc.prems(1) j by (simp add: positioned_def)
  show ?case
  proof (cases "key \<le> e_key (es ! j)")
    case True
    then have "SeekLoop key (entry_off iv es m) it = Some (True, it1)"
      using off it1(1) key by (subst SeekLoop.simps) (simp add: Let_def)
    then show ?thesis using it1 j True Suc.prems(4) by blast
  next
    case False
    then have "SeekLoop key (entry_off iv es m) it = SeekLoop key (entry_off iv es m) it1"
      using off it1(1) key by (subst SeekLoop.simps) (simp add: Let_def)
    moreover have "\<And>i. i < Suc j \<Longrightarrow> e_key (es ! i) < key"
      using False Suc.prems(4) by (auto simp: less_Suc_eq)
    ultimately show ?thesis
      using Suc.hyps(1) [of "Suc j" it1] Suc.hyps(2) it1(2) j Suc.prems(3) by simp
  qed
qed

lemma num_regions_cover:
  assumes "0 < iv"
  shows "n \<le> num_regions iv n * iv"
proof (cases n)
  case (Suc m)
  have "m < (m div iv + 1) * iv"
    using assms by (metis Suc_eq_plus1 div_less_iff_less_mult lessI)
  then show ?thesis by (simp add: Suc num_regions_def)
qed simp

text \<open>What a search that ends between restart points knows: the region to walk through starts
  below the key and ends at a larger key or at the end of the page.\<close>

lemma region_below:
  assumes on: "iter_on iv it es" and ne: "es \<noteq> []" and sorted: "keys_sorted es"
    and sr: "SearchRegion it key = (False, c)" and c: "0 < c"
  obtains m where "RegionLimit it c = entry_off iv es m" "(c - 1) * iv < m" "m \<le> length es"
    "c - 1 < num_regions iv (length es)"
    "\<And>i. i \<le> (c - 1) * iv \<Longrightarrow> e_key (es ! i) < key" "m < length es \<Longrightarrow> key < e_key (es ! m)"
proof -
  let ?nr = "num_regions iv (length es)"
  define m where "m = min (c * iv) (length es)"
  have iv: "0 < iv" using on by (simp add: iter_on_def page_layout_def)
  have nr: "i_restart_num it = ?nr" "i_restart_offset it = entry_off iv es (length es)"
    using on by (simp_all add: iter_on_def)
  have spec: "c \<le> ?nr" "\<And>i. i < c \<Longrightarrow> e_key (es ! (i * iv)) < key"
     "\<And>i. c \<le> i \<Longrightarrow> i < ?nr \<Longrightarrow> key < e_key (es ! (i * iv))"
    using SearchRegion_spec [OF on ne sorted, of key] by (auto simp: sr)
  have c1: "c - 1 < ?nr" using spec(1) c by simp
  have lt: "(c - 1) * iv < length es" using num_regions_mult(2) [OF iv c1] ne by simp
  have inner: "c < ?nr \<Longrightarrow> c * iv < length es" using num_regions_mult(2) [OF iv] ne by simp
  have outer: "\<not> c < ?nr \<Longrightarrow> length es \<le> c * iv" using spec(1) num_regions_cover [OF iv, of "length es"] by simp
  have "RegionLimit it c = entry_off iv es m"
    using inner outer iter_on_RestartOffset [OF on, of c]
    by (cases "c < ?nr") (auto simp: RegionLimit_def nr m_def min_def)
  moreover have "(c - 1) * iv < m" using lt c iv by (cases c) (simp_all add: m_def)
  moreover have "e_key (es ! i) < key" if "i \<le> (c - 1) * iv" for i
    using that spec(2) [of "c - 1"] keys_sorted_nth [OF sorted, of i "(c - 1) * iv"] lt c
    by (cases "i = (c - 1) * iv") auto
  moreover have "key < e_key (es ! m)" if "m < length es"
    using that outer spec(3) [of c] by (cases "c < ?nr") (auto simp: m_def min_def split: if_splits)
  ultimately show thesis using that [of m] c1 by (simp add: m_def)
qed

lemma Seek_spec:
  fixes key
  assumes on: "iter_on iv it es" and ne: "es \<noteq> []" and sorted: "keys_sorted es"
  defines "f \<equiv> lower_bound es key"
  shows "\<exists>it'. (if f < length es
      then Seek it key = Some (True, it') \<and> current it' = stored (es ! f) \<and> positioned iv it' es (Suc f)
      else Seek it key = Some (False, it') \<and> \<not> HasNext it')"
proof -
  let ?nr = "num_regions iv (length es)"
  have iv: "0 < iv" using on by (simp add: iter_on_def page_layout_def)
  have nr: "i_restart_num it = ?nr" "i_restart_offset it = entry_off iv es (length es)"
    using on by (simp_all add: iter_on_def)
  obtain equal c where sr: "SearchRegion it key = (equal, c)" by fastforce
  note sp = SearchRegion_spec [OF on ne sorted, of key, unfolded sr]
  have hit: ?thesis if h: "c < ?nr" "equal \<or> c = 0" "\<And>i. i < c * iv \<Longrightarrow> e_key (es ! i) < key" "key \<le> e_key (es ! (c * iv))"
  proof -
    have lt: "c * iv < length es" using num_regions_mult(2) [OF iv h(1)] ne by simp
    have f: "f = c * iv" unfolding f_def by (rule lower_bound_eqI) (use h lt in auto)
    obtain it1 where "ParseNextKey (SeekToRestart it c) = (True, it1)" "positioned iv it1 es (Suc f)"
      "current it1 = stored (es ! f)"
      using parse_step [OF positioned_restart [OF on h(1)] lt] f by blast
    moreover have "Seek it key = Some (True, snd (ParseNextKey (SeekToRestart it c)))"
      using h(2) by (simp add: Seek_def sr)
    ultimately show ?thesis using lt f by auto
  qed
  consider "equal" | "\<not> equal" "c = 0" | "\<not> equal" "0 < c" by blast
  then show ?thesis
  proof cases
    case 1
    then show ?thesis
      using sp keys_sorted_nth [OF sorted, of _ "c * iv"] by (intro hit) auto
  next
    case 2
    then show ?thesis
      using sp ne by (intro hit) (auto simp: num_regions_def dest: spec [where x = 0])
  next
    case 3
    from 3 sr have sr': "SearchRegion it key = (False, c)" by simp
    obtain m where m: "RegionLimit it c = entry_off iv es m" "(c - 1) * iv < m" "m \<le> length es"
      "c - 1 < num_regions iv (length es)"
      "\<And>i. i \<le> (c - 1) * iv \<Longrightarrow> e_key (es ! i) < key" "m < length es \<Longrightarrow> key < e_key (es ! m)"
      by (rule region_below [OF on ne sorted sr' 3(2)]) (rule that; blast)
    have seek: "Seek it key = (case SeekLoop key (entry_off iv es m) (SeekToRestart it (c - 1)) of
              None \<Rightarrow> None | Some (True, it) \<Rightarrow> Some (True, it) | Some (False, it) \<Rightarrow> Some (ParseNextKey it))"
      using 3 by (simp add: Seek_def sr m(1) Let_def)
    have "\<exists>it'. (\<exists>f. f < m \<and> (\<forall>i<f. e_key (es ! i) < key) \<and> key \<le> e_key (es ! f)
        \<and> SeekLoop key (entry_off iv es m) (SeekToRestart it (c - 1)) = Some (True, it')
        \<and> positioned iv it' es (Suc f) \<and> current it' = stored (es ! f))
     \<or> (\<forall>i<m. e_key (es ! i) < key) \<and> SeekLoop key (entry_off iv es m) (SeekToRestart it (c - 1)) = Some (False, it')
        \<and> positioned iv it' es m"
      using m(2,3,5) by (intro SeekLoop_spec [OF positioned_restart [OF on m(4)]]) auto
    then show ?thesis
    proof (elim exE disjE conjE)
      fix it1 g
      assume g: "g < m" "\<forall>i<g. e_key (es ! i) < key" "key \<le> e_key (es ! g)"
        "positioned iv it1 es (Suc g)" "current it1 = stored (es ! g)"
        and "SeekLoop key (entry_off iv es m) (SeekToRestart it (c - 1)) = Some (True, it1)"
      then have sk: "Seek it key = Some (True, it1)" unfolding seek by simp
      have "f = g" unfolding f_def using m(3) g(1-3) by (intro lower_bound_eqI) auto
      then show ?thesis using sk g m(3) by auto
    next
      fix it1
      assume loop: "SeekLoop key (entry_off iv es m) (SeekToRestart it (c - 1)) = Some (False, it1)"
        and g: "\<forall>i<m. e_key (es ! i) < key" "positioned iv it1 es m"
      from loop have sk: "Seek it key = Some (ParseNextKey it1)" unfolding seek by simp
      have f: "f = m" unfolding f_def using m(3,6) g(1) by (intro lower_bound_eqI) auto
      show ?thesis
      proof (cases "m < length es")
        case True
        from parse_step [OF g(2) this] sk f True show ?thesis by (metis (no_types, lifting))
      next
        case False
        then have "m = length es" using m(3) by simp
        then show ?thesis using sk g f parse_end [of iv it1 es] by (auto simp: Invalidate_def HasNext_def)
      qed
    qed
  qed
qed

definition upper_bound :: "PageEntry list \<Rightarrow> bytes \<Rightarrow> nat" where
  "upper_bound es key = length (takeWhile (\<lambda>e. e_key e \<le> key) es)"

lemma upper_bound_eqI:
  assumes "j \<le> length es" "\<And>i. i < j \<Longrightarrow> e_key (es ! i) \<le> key" "j < length es \<Longrightarrow> key < e_key (es ! j)"
  shows "upper_bound es key = j"
  unfolding upper_bound_def
  using assms by (subst takeWhile_eq_take_P_nth [of j]) (auto simp: not_le min_def)

definition saves :: "FloorSave \<Rightarrow> DataPageIter \<Rightarrow> bool" where
  "saves sv it \<longleftrightarrow> sv = \<lparr> f_last_offset = i_curr_offset it, f_key = i_key it, f_value = i_value it,
     f_overflow = i_overflow it, f_timestamp = i_timestamp it, f_comp = i_comp it \<rparr>"

text \<open>The loop ends with the state of the last entry not above the key saved; the iterator itself
  stands on that entry, or one entry further when it was stopped by a larger key.\<close>

lemma SeekFloorLoop_spec:
  assumes "positioned iv it es j" "0 < j" "j \<le> m" "m \<le> length es" "current it = stored (es ! (j - 1))"
    and "\<And>i. i < j \<Longrightarrow> e_key (es ! i) \<le> key" "saves sv it"
    and "m < length es \<Longrightarrow> key < e_key (es ! m)" "keys_sorted es"
  shows "\<exists>it' it'' sv'. let g = upper_bound es key in 0 < g
      \<and> SeekFloorLoop key (entry_off iv es m) sv it = Some (sv', it'')
      \<and> saves sv' it' \<and> positioned iv it' es g \<and> current it' = stored (es ! (g - 1))
      \<and> (if g < m then positioned iv it'' es (Suc g) \<and> current it'' = stored (es ! g) else it'' = it')"
  using assms
proof (induction "m - j" arbitrary: it j sv)
  case 0
  then have jm: "j = m" by simp
  then have ub: "upper_bound es key = m" using 0 by (intro upper_bound_eqI) auto
  have "SeekFloorLoop key (entry_off iv es m) sv it = Some (sv, it)"
    using "0.prems"(1) jm by (subst SeekFloorLoop.simps) (simp add: positioned_def)
  then show ?case using 0 jm ub by (auto simp: Let_def)
next
  case (Suc d)
  then have j: "j < m" "j < length es" by linarith+
  obtain it1 where it1: "ParseNextKey it = (True, it1)" "positioned iv it1 es (Suc j)"
    "current it1 = stored (es ! j)"
    by (rule parse_step [OF Suc.prems(1) j(2)])
  have k1: "i_key it1 = e_key (es ! j)"
    using arg_cong [OF it1(3), of e_key] by (simp add: current_def stored_def)
  have off: "i_curr_offset it < entry_off iv es m" using Suc.prems(1) j by (simp add: positioned_def)
  show ?case
  proof (cases "key < e_key (es ! j)")
    case True
    then have "SeekFloorLoop key (entry_off iv es m) sv it = Some (sv, it1)"
      using off it1(1) k1 by (subst SeekFloorLoop.simps) (simp add: Let_def)
    moreover have "upper_bound es key = j" using True Suc.prems(6) j by (intro upper_bound_eqI) auto
    ultimately show ?thesis using it1 j Suc.prems by (auto simp: Let_def)
  next
    case False
    define sv1 where "sv1 = \<lparr> f_last_offset = i_curr_offset it1, f_key = i_key it1, f_value = i_value it1,
      f_overflow = i_overflow it1, f_timestamp = i_timestamp it1, f_comp = i_comp it1 \<rparr>"
    have "SeekFloorLoop key (entry_off iv es m) sv it = SeekFloorLoop key (entry_off iv es m) sv1 it1"
      using off it1(1) k1 False by (subst SeekFloorLoop.simps) (simp add: Let_def sv1_def)
    moreover have "\<And>i. i < Suc j \<Longrightarrow> e_key (es ! i) \<le> key"
      using False Suc.prems(6) by (auto simp: less_Suc_eq)
    moreover have "saves sv1 it1" by (simp add: saves_def sv1_def)
    ultimately show ?thesis
      using Suc.hyps(1) [of "Suc j" it1 sv1] Suc.hyps(2) it1(2,3) j Suc.prems(4,8,9) by simp
  qed
qed

definition floor_fields :: "DataPageIter \<Rightarrow> PageEntry \<Rightarrow> bool" where
  "floor_fields it e \<longleftrightarrow> i_key it = e_key e \<and> i_value it = e_value e \<and> i_overflow it = e_overflow e
    \<and> i_timestamp it = e_ts e \<and> i_comp it = e_comp e"

lemma floor_fields_current: "current it = e \<Longrightarrow> floor_fields it e"
  by (auto simp: floor_fields_def current_def)

lemma SeekFloor_spec:
  fixes key
  assumes on: "iter_on iv it es" and ne: "es \<noteq> []" and sorted: "keys_sorted es"
  defines "g \<equiv> upper_bound es key"
  shows "if g = 0 then SeekFloor it key = Some (False, it)
    else \<exists>it'. SeekFloor it key = Some (True, it') \<and> floor_fields it' (stored (es ! (g - 1)))
      \<and> (current it' = stored (es ! (g - 1))
          \<or> g < length es \<and> i_expire it' = e_expire (es ! g) \<and> i_large it' = e_large (es ! g))"
proof -
  let ?nr = "num_regions iv (length es)"
  have iv: "0 < iv" using on by (simp add: iter_on_def page_layout_def)
  have nr: "i_restart_offset it = entry_off iv es (length es)"
    using on by (simp_all add: iter_on_def)
  obtain equal c where sr: "SearchRegion it key = (equal, c)" by fastforce
  note sp = SearchRegion_spec [OF on ne sorted, of key, unfolded sr]
  consider "equal" | "\<not> equal" "c = 0" | "\<not> equal" "0 < c" by blast
  then show ?thesis
  proof cases
    case 1
    then have c: "c * iv < length es" "e_key (es ! (c * iv)) = key" "c < ?nr" using sp by auto
    have "g = Suc (c * iv)" unfolding g_def
      using keys_sorted_nth [OF sorted] c by (intro upper_bound_eqI) (auto simp: less_Suc_eq intro: less_imp_le)
    moreover obtain it1 where "ParseNextKey (SeekToRestart it c) = (True, it1)"
      "current it1 = stored (es ! (c * iv))"
      using parse_step [OF positioned_restart [OF on c(3)] c(1)] by blast
    moreover have "SeekFloor it key = Some (True, snd (ParseNextKey (SeekToRestart it c)))"
      using 1 by (simp add: SeekFloor_def sr)
    ultimately show ?thesis by (auto intro: floor_fields_current)
  next
    case 2
    then have "key < e_key (es ! 0)" using sp ne by (auto simp: num_regions_def dest: spec [where x = 0])
    then have "g = 0" unfolding g_def by (intro upper_bound_eqI) auto
    then show ?thesis using 2 by (simp add: SeekFloor_def sr)
  next
    case 3
    from 3 sr have sr': "SearchRegion it key = (False, c)" by simp
    obtain m where m: "RegionLimit it c = entry_off iv es m" "(c - 1) * iv < m" "m \<le> length es"
      "c - 1 < num_regions iv (length es)"
      "\<And>i. i \<le> (c - 1) * iv \<Longrightarrow> e_key (es ! i) < key" "m < length es \<Longrightarrow> key < e_key (es ! m)"
      by (rule region_below [OF on ne sorted sr' 3(2)]) (rule that; blast)
    let ?j = "(c - 1) * iv"
    obtain it1 where it1: "ParseNextKey (SeekToRestart it (c - 1)) = (True, it1)" "positioned iv it1 es (Suc ?j)"
      "current it1 = stored (es ! ?j)"
      using parse_step [OF positioned_restart [OF on m(4)]] m(2,3) by (metis order_less_le_trans)
    have k1: "i_key it1 = e_key (es ! ?j)"
      using arg_cong [OF it1(3), of e_key] by (simp add: current_def stored_def)
    define sv1 where "sv1 = \<lparr> f_last_offset = i_curr_offset it1, f_key = i_key it1, f_value = i_value it1,
      f_overflow = i_overflow it1, f_timestamp = i_timestamp it1, f_comp = i_comp it1 \<rparr>"
    have o: "i_curr_offset (SeekToRestart it (c - 1)) < entry_off iv es m"
      using positioned_restart [OF on m(4)] m(2) by (simp add: positioned_def)
    have first: "SeekFloorLoop key (entry_off iv es m) sv (SeekToRestart it (c - 1))
        = SeekFloorLoop key (entry_off iv es m) sv1 it1" for sv
      using o it1(1) k1 leD [OF less_imp_le [OF m(5) [of ?j]]] by (subst SeekFloorLoop.simps) (simp add: Let_def sv1_def)
    have "\<exists>it' it'' sv'. let g = upper_bound es key in 0 < g
      \<and> SeekFloorLoop key (entry_off iv es m) sv1 it1 = Some (sv', it'')
      \<and> saves sv' it' \<and> positioned iv it' es g \<and> current it' = stored (es ! (g - 1))
      \<and> (if g < m then positioned iv it'' es (Suc g) \<and> current it'' = stored (es ! g) else it'' = it')"
      using m it1 sorted less_imp_le [OF m(5)]
      by (intro SeekFloorLoop_spec [OF it1(2)]) (auto simp: saves_def sv1_def less_Suc_eq_le)
    then obtain it2 it3 sv2 where r: "0 < g" "SeekFloorLoop key (entry_off iv es m) sv1 it1 = Some (sv2, it3)"
      "saves sv2 it2" "current it2 = stored (es ! (g - 1))"
      "if g < m then current it3 = stored (es ! g) else it3 = it2"
      by (auto simp: Let_def g_def split: if_splits)
    let ?it = "it3\<lparr> i_curr_offset := f_last_offset sv2, i_key := f_key sv2, i_value := f_value sv2,
                      i_overflow := f_overflow sv2, i_timestamp := f_timestamp sv2, i_comp := f_comp sv2 \<rparr>"
    have "SeekFloor it key = Some (True, ?it)"
      using 3 r(2) by (simp add: SeekFloor_def sr m(1) Let_def first [unfolded One_nat_def])
    moreover have "floor_fields ?it (stored (es ! (g - 1)))"
      using r(3) floor_fields_current [OF r(4)] by (simp add: floor_fields_def saves_def)
    moreover have "current ?it = stored (es ! (g - 1))
          \<or> g < length es \<and> i_expire ?it = e_expire (es ! g) \<and> i_large ?it = e_large (es ! g)"
    proof (cases "g < m")
      case True
      then have "current it3 = stored (es ! g)" using r(5) by simp
      from arg_cong [OF this, of e_expire] arg_cong [OF this, of e_large] True m(3)
      show ?thesis by (simp add: current_def stored_def)
    next
      case False
      then have "current ?it = current it2" using r(3,5) by (simp add: current_def saves_def)
      then show ?thesis using r(4) by simp
    qed
    ultimately show ?thesis using r(1) by auto
  qed
qed

section \<open>Overflow test and page header\<close>

lemma Varint32Size_flags:
  assumes "sz < 2 ^ 28"
  shows "Varint32Size (of_nat (StoredValLen sz ov lg cp ex)) = Varint32Size (of_nat (push_bit BitsCount sz))"
proof -
  have "16 * sz < 2 ^ 32" using assms by simp
  then have u: "unat (of_nat (push_bit BitsCount sz) :: uint32) = 16 * sz"
    by (simp add: push_bit_eq_mult unsigned_of_nat take_bit_nat_eq_self mult.commute del: of_nat_mult)
  show ?thesis
    using flag_bits_less [of ov lg cp ex]
    unfolding Varint32Size_def word_less_nat_alt u StoredValLen_word(1) [OF assms refl]
    by auto
qed

lemma IsOverflowKV_Add:
  assumes "valid_options (b_options b)"
  shows "IsOverflowKV (e_key e) (length (e_value e)) (e_ts e) (e_expire e) (b_options b)
    \<longleftrightarrow> \<not> fst (Add (DataPageBuilder_Reset b) e)"
proof -
  let ?v = "length (e_value e)" and ?size = "data_page_size (b_options b)"
  have size: "?size < 2 ^ 16" using assms by (simp add: valid_options_def)
  have "0 < data_page_restart_interval (b_options b)" using assms by (simp add: valid_options_def)
  then have add: "fst (Add (DataPageBuilder_Reset b) e) \<longleftrightarrow> \<not> ?size < 23 + length (enc_entry [] 0 e)"
    by (simp add: Add_eq base_key_def base_ts_def NeedRestart_def DataPageBuilder_Reset_def Let_def
        CurrentSizeEstimate_def SetPageType_def)
  have v: "?v \<le> length (enc_entry [] 0 e)" by (simp add: enc_entry_def Let_def)
  show ?thesis
  proof (cases "?size < 23 + ?v")
    case True
    then show ?thesis using v add by (simp add: IsOverflowKV_def)
  next
    case False
    then have "?v < 2 ^ 28" using size by simp
    note eq = Varint32Size_flags [OF this, of "e_overflow e" "e_large e" "e_comp e" "e_expire e"]
    have "fst (CalculateDelta (e_key e) (push_bit BitsCount ?v) (e_ts e) (e_expire e) [] 0 False)
        = length (enc_entry [] 0 e)"
      by (simp add: CalculateDelta_def enc_entry_def Let_def eq [simplified] drop_bit_eq_div push_bit_eq_mult)
    then show ?thesis using False add by (simp add: IsOverflowKV_def Let_def)
  qed
qed

lemma page_layout_write_header:
  assumes pl: "page_layout iv page es" and off: "off + length src \<le> page_size_offset \<or> prev_page_offset \<le> off"
    "off + length src \<le> HeaderSize"
  shows "page_layout iv (write_at off src page) es"
proof -
  obtain hdr rest where p: "length hdr = 19" "page = hdr @ enc_range iv es 0 (length es) @ rest"
    "\<exists>pad. rest = fixed16s (region_offs iv es) @ EncodeFixed16 (of_nat (num_regions iv (length es))) @ pad"
    using pl unfolding page_layout_def by auto
  have w: "write_at off src page = write_at off src hdr @ enc_range iv es 0 (length es) @ rest"
    using p off(2) by (simp add: write_at_def)
  have l: "off + length src \<le> length page" "length (write_at off src hdr) = 19"
    using p off(2) by simp_all
  have "read_at 9 2 (write_at off src page) = read_at 9 2 page"
    using off l(1) by (intro read_write_other) (auto simp: prev_page_offset_def)
  then have "DecodeFixed16 (drop 9 (write_at off src page)) = DecodeFixed16 (drop 9 page)"
    unfolding read_at_def by (metis DecodeFixed_take(1) order_refl)
  then have "ContentLength (write_at off src page) = ContentLength page"
    by (simp add: ContentLength_def)
  then show ?thesis
    using pl p(3) l(2) unfolding page_layout_def w by auto
qed

lemma page_layout_SetPageIds:
  assumes "page_layout iv page es"
  shows "page_layout iv (SetPrevPageId page p) es" "page_layout iv (SetNextPageId page p) es"
    "page_layout iv (SetChecksum hash page) es"
  using page_layout_write_header [OF assms]
  by (simp_all add: SetPrevPageId_def SetNextPageId_def SetChecksum_def prev_page_offset_def next_page_offset_def)

lemma PageIds_Set:
  assumes "HeaderSize \<le> length page"
  shows "PrevPageId (SetPrevPageId page p) = p" "NextPageId (SetNextPageId page p) = p"
    "NextPageId (SetPrevPageId page p) = NextPageId page"
    "PrevPageId (SetNextPageId page p) = PrevPageId page"
proof -
  show "PrevPageId (SetPrevPageId page p) = p" "NextPageId (SetNextPageId page p) = p"
    using assms by (simp_all add: PrevPageId_def SetPrevPageId_def NextPageId_def SetNextPageId_def
      drop_write_at_same prev_page_offset_def next_page_offset_def)
  have "read_at 15 4 (SetPrevPageId page p) = read_at 15 4 page"
    "read_at 11 4 (SetNextPageId page p) = read_at 11 4 page"
    unfolding SetPrevPageId_def SetNextPageId_def using assms
    by (intro read_write_other; simp add: prev_page_offset_def next_page_offset_def)+
  then have "DecodeFixed32 (drop 15 (SetPrevPageId page p)) = DecodeFixed32 (drop 15 page)"
    "DecodeFixed32 (drop 11 (SetNextPageId page p)) = DecodeFixed32 (drop 11 page)"
    unfolding read_at_def by (metis DecodeFixed_take(2) order_refl)+
  then show "NextPageId (SetPrevPageId page p) = NextPageId page"
    "PrevPageId (SetNextPageId page p) = PrevPageId page"
    by (simp_all add: NextPageId_def PrevPageId_def prev_page_offset_def next_page_offset_def)
qed

end
