(* ===== verification/Data_Page_Props.thy ===== *)
theory Data_Page_Props
  imports Data_Page_Correct
begin

text \<open>
  What the data page format promises: the properties of the page builder and of the page
  iterator (\<open>src/storage/data_page_builder.cpp\<close>, \<open>src/storage/data_page.cpp\<close>), each stated of a
  page that the builder finished, with a small page as their example.
\<close>

definition built_page :: "KvOptions \<Rightarrow> PageEntry list \<Rightarrow> bytes option" where
  "built_page opts es =
    map_option (\<lambda>b. fst (Finish b)) (AddAll (DataPageBuilder_Reset (DataPageBuilder_new opts)) es)"

lemma built_pageE:
  assumes "built_page opts es = Some page"
  obtains b where "AddAll (DataPageBuilder_Reset (DataPageBuilder_new opts)) es = Some b"
    "page = fst (Finish b)"
  using assms by (auto simp: built_page_def)

lemma built_page_layout:
  assumes "valid_options opts" "built_page opts es = Some page"
  shows "page_layout (data_page_restart_interval opts) page es" "length page = data_page_size opts"
    "TypeOfPage page = page_type_code Data"
proof -
  obtain b where b: "AddAll (DataPageBuilder_Reset (DataPageBuilder_new opts)) es = Some b"
    "page = fst (Finish b)"
    using assms(2) by (rule built_pageE)
  have "b_options (DataPageBuilder_new opts) = opts" by (simp add: DataPageBuilder_new_def)
  then show "page_layout (data_page_restart_interval opts) page es" "length page = data_page_size opts"
    "TypeOfPage page = page_type_code Data"
    using AddAll_layout [OF _ b(1)] assms(1) b(2) by (simp_all del: page_type_code.simps)
qed

section \<open>A small page\<close>

definition ex_opts :: KvOptions where
  "ex_opts = default_options\<lparr> data_page_size := 64, data_page_restart_interval := 2 \<rparr>"

definition ex_entry :: "byte \<Rightarrow> uint64 \<Rightarrow> uint64 \<Rightarrow> PageEntry" where
  "ex_entry k ts expire =
    \<lparr> e_key = [97, k], e_value = [k], e_overflow = False, e_ts = ts, e_expire = expire,
      e_comp = NoCompression, e_large = False \<rparr>"

definition ex_entries :: "PageEntry list" where
  "ex_entries = [ex_entry 1 7 5, ex_entry 3 9 6, ex_entry 5 2 0]"

declare SeekFloorLoop.simps [code] SeekLoop.simps [code]

lemma ex_valid [simp]: "valid_options ex_opts"
  by (simp add: ex_opts_def valid_options_def default_options_def)

lemma ex_built: "\<exists>page. built_page ex_opts ex_entries = Some page"
proof -
  have "built_page ex_opts ex_entries \<noteq> None" by code_simp
  then show ?thesis by simp
qed

section \<open>Round trip\<close>

text \<open>C5: Every list of entries that the builder accepts into one data page is read back by the
  page iterator: same keys, values, flags, compression kind, expiry and (clamped) timestamps, in
  the same order, and nothing after them. The page has the configured size and the data type.\<close>

theorem page_roundtrip:
  assumes "valid_options opts" "built_page opts es = Some page" "length es \<le> n"
  shows "ReadEntries n (DataPageIter_new page) = map stored es
    \<and> length page = data_page_size opts \<and> TypeOfPage page = page_type_code Data"
proof -
  note layout = built_page_layout [OF assms(1,2)]
  have "ReadEntries n (DataPageIter_new page) = map stored es"
    using ReadEntries_positioned [OF positioned_new [OF layout(1)]] assms(3)
    unfolding DataPageIter_new_def by simp
  with layout show ?thesis by blast
qed

theorem page_roundtrip_witness:
  "ReadEntries 3 (DataPageIter_new (the (built_page ex_opts ex_entries))) = ex_entries"
proof -
  obtain page where b: "built_page ex_opts ex_entries = Some page" using ex_built by blast
  have "length ex_entries \<le> 3" "map stored ex_entries = ex_entries"
    by code_simp+
  then show ?thesis using page_roundtrip [OF ex_valid b, of 3] b by simp
qed

section \<open>Searching\<close>

text \<open>C7: Seeking a key in a finished, sorted data page always returns; it succeeds exactly when
  some entry is not smaller than the key, and then the iterator stands on the first such entry
  and iterating from there yields exactly the entries not smaller than the key.\<close>

theorem page_seek:
  assumes "valid_options opts" "built_page opts es = Some page" "es \<noteq> []" "keys_sorted es"
  shows "let S = dropWhile (\<lambda>e. e_key e < key) es in
    \<exists>it. Seek (DataPageIter_new page) key = Some (S \<noteq> [], it)
    \<and> (if S = [] then \<not> HasNext it
       else current it # ReadEntries (length es) it = map stored S)"
proof -
  define S where "S = dropWhile (\<lambda>e. e_key e < key) es"
  have on: "iter_on (data_page_restart_interval opts) (DataPageIter_new page) es"
    using iter_on_new [OF built_page_layout(1) [OF assms(1,2)]] by (simp add: DataPageIter_new_def)
  have S: "S = drop (lower_bound es key) es"
    by (simp add: S_def lower_bound_def dropWhile_eq_drop)
  have l: "lower_bound es key \<le> length es"
    by (simp add: lower_bound_def length_takeWhile_le)
  have "\<exists>it. Seek (DataPageIter_new page) key = Some (S \<noteq> [], it)
    \<and> (if S = [] then \<not> HasNext it else current it # ReadEntries (length es) it = map stored S)"
  proof (cases "lower_bound es key < length es")
    case True
    then obtain it where it: "Seek (DataPageIter_new page) key = Some (True, it)"
      "current it = stored (es ! lower_bound es key)"
      "positioned (data_page_restart_interval opts) it es (Suc (lower_bound es key))"
      using Seek_spec [OF on assms(3,4), of key] by auto
    have "ReadEntries (length es) it = map stored (drop (Suc (lower_bound es key)) es)"
      using ReadEntries_positioned [OF it(3), of "length es"] by simp
    then show ?thesis using it True S by (simp add: Cons_nth_drop_Suc [symmetric])
  next
    case False
    then show ?thesis using Seek_spec [OF on assms(3,4), of key] S l by auto
  qed
  then show ?thesis unfolding S_def Let_def .
qed

theorem page_seek_witness:
  "\<exists>it. Seek (DataPageIter_new (the (built_page ex_opts ex_entries))) [97, 2] = Some (True, it)
    \<and> current it # ReadEntries 3 it = [ex_entry 3 9 6, ex_entry 5 2 0]"
proof -
  obtain page where b: "built_page ex_opts ex_entries = Some page" using ex_built by blast
  have "ex_entries \<noteq> []" "keys_sorted ex_entries"
    "length ex_entries = 3"
    "map stored (dropWhile (\<lambda>e. e_key e < [97, 2]) ex_entries) = [ex_entry 3 9 6, ex_entry 5 2 0]"
    "dropWhile (\<lambda>e. e_key e < [97, 2]) ex_entries \<noteq> []"
    by code_simp+
  then show ?thesis using page_seek [OF ex_valid b, of "[97, 2]"] b
    by (simp add: Let_def del: dropWhile_eq_Nil_conv)
qed

text \<open>C9: Seeking the floor of a key in a finished, sorted data page always returns; it fails
  exactly when every entry is above the key, and otherwise the iterator shows the key, value,
  overflow flag, timestamp and compression of the last entry not above the key.\<close>

theorem page_seek_floor:
  assumes "valid_options opts" "built_page opts es = Some page" "es \<noteq> []" "keys_sorted es"
  shows "let S = takeWhile (\<lambda>e. e_key e \<le> key) es in
    \<exists>it. SeekFloor (DataPageIter_new page) key = Some (S \<noteq> [], it)
    \<and> (S \<noteq> [] \<longrightarrow> floor_fields it (stored (last S)))"
proof -
  define S where "S = takeWhile (\<lambda>e. e_key e \<le> key) es"
  have on: "iter_on (data_page_restart_interval opts) (DataPageIter_new page) es"
    using iter_on_new [OF built_page_layout(1) [OF assms(1,2)]] by (simp add: DataPageIter_new_def)
  have S: "length S = upper_bound es key"
    by (simp add: S_def upper_bound_def)
  have "last S = es ! (upper_bound es key - 1)" if "S \<noteq> []"
    using that unfolding S [symmetric] by (simp add: last_conv_nth S_def takeWhile_nth)
  with SeekFloor_spec [OF on assms(3,4), of key] S
  have "\<exists>it. SeekFloor (DataPageIter_new page) key = Some (S \<noteq> [], it)
    \<and> (S \<noteq> [] \<longrightarrow> floor_fields it (stored (last S)))"
    by (cases "S = []") (simp, metis length_0_conv)
  then show ?thesis unfolding S_def Let_def .
qed

theorem page_seek_floor_witness:
  "\<exists>it. SeekFloor (DataPageIter_new (the (built_page ex_opts ex_entries))) [97, 4] = Some (True, it)
    \<and> floor_fields it (ex_entry 3 9 6)"
proof -
  obtain page where b: "built_page ex_opts ex_entries = Some page" using ex_built by blast
  have "ex_entries \<noteq> []" "keys_sorted ex_entries"
    "stored (last (takeWhile (\<lambda>e. e_key e \<le> [97, 4]) ex_entries)) = ex_entry 3 9 6"
    "takeWhile (\<lambda>e. e_key e \<le> [97, 4]) ex_entries \<noteq> []"
    by code_simp+
  then show ?thesis using page_seek_floor [OF ex_valid b, of "[97, 4]"] b
    by (simp add: Let_def del: takeWhile_eq_Nil_iff)
qed


section \<open>Size test and header\<close>

text \<open>C19: The size test that sends a value to overflow pages is exact: it answers yes precisely
  when the entry does not fit into an empty data page.\<close>

theorem overflow_test_exact:
  assumes "valid_options opts"
  shows "IsOverflowKV (e_key e) (length (e_value e)) (e_ts e) (e_expire e) opts
    \<longleftrightarrow> built_page opts [e] = None"
  using IsOverflowKV_Add [of "DataPageBuilder_new opts" e] assms
  by (simp add: built_page_def DataPageBuilder_new_def split: prod.splits bool.splits)

theorem overflow_test_exact_witness:
  "IsOverflowKV [97] 50 1 0 ex_opts \<and>
   built_page ex_opts [(ex_entry 1 1 0)\<lparr> e_key := [97], e_value := replicate 50 0 \<rparr>] = None"
proof -
  have "IsOverflowKV [97] 50 1 0 ex_opts" by code_simp+
  then show ?thesis
    using overflow_test_exact [of ex_opts "(ex_entry 1 1 0)\<lparr> e_key := [97], e_value := replicate 50 0 \<rparr>"]
    by (simp add: ex_entry_def)
qed

text \<open>Linking a finished data page to its neighbours and sealing it with a checksum leaves
  its entries unchanged; both links read back, and the sealed page passes validation.\<close>

lemma page_header_edits:
  assumes "valid_options opts" "built_page opts es = Some page" "length es \<le> n"
  shows "let linked = SetNextPageId (SetPrevPageId page p) q in
    ReadEntries n (DataPageIter_new (SetChecksum hash linked)) = map stored es
    \<and> PrevPageId linked = p \<and> NextPageId linked = q
    \<and> ValidateChecksum hash (SetChecksum hash linked)"
proof -
  define linked where "linked = SetNextPageId (SetPrevPageId page p) q"
  note layout = built_page_layout [OF assms(1,2)]
  have len: "HeaderSize \<le> length page" using layout(2) assms(1) by (simp add: valid_options_def)
  then have lens: "HeaderSize \<le> length (SetPrevPageId page p)" "8 \<le> length linked"
    by (simp_all add: linked_def SetPrevPageId_def SetNextPageId_def prev_page_offset_def
        next_page_offset_def)
  have "page_layout (data_page_restart_interval opts) (SetChecksum hash linked) es"
    unfolding linked_def by (intro page_layout_SetPageIds layout)
  from ReadEntries_positioned [OF positioned_new [OF this]] assms(3)
  have "ReadEntries n (DataPageIter_new (SetChecksum hash linked)) = map stored es"
    unfolding DataPageIter_new_def by simp
  moreover have "PrevPageId linked = p" "NextPageId linked = q"
    unfolding linked_def using PageIds_Set [OF len] PageIds_Set [OF lens(1)] by simp_all
  moreover have "ValidateChecksum hash (SetChecksum hash linked)"
    using lens(2) by (rule ValidateChecksum_SetChecksum)
  ultimately show ?thesis by (simp add: linked_def [symmetric])
qed

end
