(* ===== verification/Index_Page.thy ===== *)
theory Index_Page
  imports Data_Page
begin

text \<open>
  Index pages: \<open>IndexPageBuilder\<close> (\<open>src/storage/index_page_builder.cpp\<close>) and \<open>IndexPageIter\<close>
  (\<open>src/storage/mem_cached_page.cpp\<close>, \<open>include/storage/mem_cached_page.h\<close>).

  An index page holds a leftmost child pointer without a key, then prefix-compressed pairs of a key and a
  child pointer that is stored as a difference.  The operations have the names of the source with the
  prefix \<open>ix_\<close>, because data pages have operations of the same names.
\<close>

section \<open>IndexPageBuilder\<close>

definition leftmost_ptr_offset :: nat where
  "leftmost_ptr_offset = page_size_offset + 2"

record IndexPageBuilder =
  xb_options :: KvOptions
  xb_buffer :: bytes
  xb_restarts :: "nat list"
  xb_counter :: nat
  xb_cnt :: nat
  xb_finished :: bool
  xb_last_key :: bytes
  xb_last_page_id :: uint32

definition ix_HeaderSize :: nat where
  "ix_HeaderSize = checksum_bytes + 1 + 2 + 4"

definition IndexPageBuilder_new :: "KvOptions \<Rightarrow> IndexPageBuilder" where
  "IndexPageBuilder_new opt =
    \<lparr>xb_options = opt, xb_buffer = replicate ix_HeaderSize 0, xb_restarts = [ix_HeaderSize], xb_counter = 0,
     xb_cnt = 0, xb_finished = False, xb_last_key = [], xb_last_page_id = 0\<rparr>"

definition ix_Reset :: "IndexPageBuilder \<Rightarrow> IndexPageBuilder" where
  "ix_Reset b =
    b\<lparr>xb_buffer := replicate ix_HeaderSize 0, xb_restarts := [ix_HeaderSize], xb_counter := 0, xb_cnt := 0,
      xb_finished := False, xb_last_key := [], xb_last_page_id := 0\<rparr>"

definition ix_IsEmpty :: "IndexPageBuilder \<Rightarrow> bool" where
  "ix_IsEmpty b = (xb_cnt b = 0)"

definition ix_TailMetaSize :: "IndexPageBuilder \<Rightarrow> nat" where
  "ix_TailMetaSize b = length (xb_restarts b) * 2 + 2"

definition ix_CurrentSizeEstimate :: "IndexPageBuilder \<Rightarrow> nat" where
  "ix_CurrentSizeEstimate b = length (xb_buffer b) + ix_TailMetaSize b"

definition index_type :: "bool \<Rightarrow> PageType" where
  "index_type is_leaf_index = (if is_leaf_index then LeafIndex else NonLeafIndex)"

text \<open>The exception for a pointer of the other kind is \<open>None\<close>.  A refused entry leaves the builder as it
  was, except for \<open>last_page_id_\<close> when the entry would have been a restart point.\<close>

definition ix_Add :: "IndexPageBuilder \<Rightarrow> bytes \<Rightarrow> PageId \<Rightarrow> bool \<Rightarrow> (bool \<times> IndexPageBuilder) option" where
  "ix_Add b key page_id is_leaf_index =
    (if ix_IsEmpty b then
       Some (True, b\<lparr>xb_buffer :=
           write_at leftmost_ptr_offset (EncodeFixed32 page_id) (SetPageType (xb_buffer b) (index_type is_leaf_index)),
         xb_cnt := xb_cnt b + 1\<rparr>)
     else if TypeOfPage (xb_buffer b) \<noteq> page_type_code (index_type is_leaf_index) then None
     else
       let restart = \<not> xb_counter b < index_page_restart_interval (xb_options b);
           shared = (if restart then 0 else common_prefix (xb_last_key b) key);
           b = (if restart then b\<lparr>xb_last_page_id := 0\<rparr> else b);
           non_shared = length key - shared;
           p_delta = EncodeInt32Delta (page_id - xb_last_page_id b);
           addition_delta =
             (if restart then 2 else 0) + Varint32Size (of_nat shared) + Varint32Size (of_nat non_shared)
             + non_shared + Varint32Size p_delta
       in
       if ix_CurrentSizeEstimate b + addition_delta > data_page_size (xb_options b) then Some (False, b)
       else
         let b = (if restart then b\<lparr>xb_restarts := xb_restarts b @ [length (xb_buffer b)], xb_counter := 0\<rparr> else b);
             buffer = PutVarint32 (xb_buffer b) (of_nat shared);
             buffer = PutVarint32 buffer (of_nat non_shared);
             buffer = buffer @ read_at shared non_shared key;
             buffer = PutVarint32 buffer p_delta
         in Some (True,
              b\<lparr>xb_buffer := buffer,
                xb_last_key := resize shared (xb_last_key b) @ read_at shared non_shared key,
                xb_last_page_id := page_id,
                xb_counter := xb_counter b + 1,
                xb_cnt := xb_cnt b + 1\<rparr>))"

definition ix_Finish :: "IndexPageBuilder \<Rightarrow> bytes \<times> IndexPageBuilder" where
  "ix_Finish b =
    (let restarts = (if xb_cnt b = 1 then [] else xb_restarts b);
         buffer = foldl (\<lambda>buf r. PutFixed16 buf (of_nat r)) (xb_buffer b) restarts;
         buffer = PutFixed16 buffer (of_nat (length restarts));
         content_size = of_nat (length buffer) :: uint16;
         buffer = write_at page_size_offset (EncodeFixed16 content_size) buffer;
         buffer = resize (data_page_size (xb_options b)) buffer
     in (buffer, b\<lparr>xb_restarts := restarts, xb_buffer := buffer, xb_finished := True\<rparr>))"

text \<open>The use of the builder by its clients: the leftmost pointer, whose key is ignored, and then entries
  until one is refused.\<close>

type_synonym IndexEntry = "bytes \<times> PageId"

fun ix_AddAll :: "IndexPageBuilder \<Rightarrow> bool \<Rightarrow> IndexEntry list \<Rightarrow> IndexPageBuilder option" where
  "ix_AddAll b leaf [] = Some b"
| "ix_AddAll b leaf ((key, page_id) # es) =
    (case ix_Add b key page_id leaf of Some (True, b') \<Rightarrow> ix_AddAll b' leaf es | _ \<Rightarrow> None)"

section \<open>IndexPageIter\<close>

definition IsPointingToLeaf :: "bytes \<Rightarrow> bool" where
  "IsPointingToLeaf page = (TypeOfPage page = page_type_code LeafIndex)"

record IndexPageIter =
  x_page :: bytes
  x_restart_num :: nat
  x_restart_offset :: nat
  x_curr_offset :: nat
  x_curr_restart_idx :: nat
  x_key :: bytes
  x_page_id :: PageId

text \<open>The constructor for a cached page.  The length of the content and the number of restart points are
  stored as in a data page.\<close>

definition IndexPageIter_new :: "bytes \<Rightarrow> IndexPageIter" where
  "IndexPageIter_new page =
    \<lparr>x_page = page, x_restart_num = RestartNum page,
     x_restart_offset = unat (of_nat (ContentLength page) - of_nat ((1 + RestartNum page) * 2) :: uint16),
     x_curr_offset = leftmost_ptr_offset, x_curr_restart_idx = 0, x_key = [], x_page_id = MaxPageId\<rparr>"

definition ix_HasNext :: "IndexPageIter \<Rightarrow> bool" where
  "ix_HasNext it = (x_curr_offset it < x_restart_offset it)"

definition ix_RestartOffset :: "IndexPageIter \<Rightarrow> nat \<Rightarrow> nat" where
  "ix_RestartOffset it restart_idx =
    unat (DecodeFixed16 (drop (x_restart_offset it + restart_idx * 2) (x_page it)))"

definition ix_Invalidate :: "IndexPageIter \<Rightarrow> IndexPageIter" where
  "ix_Invalidate it =
    it\<lparr>x_curr_offset := x_restart_offset it, x_curr_restart_idx := x_restart_num it, x_key := [],
       x_page_id := MaxPageId\<rparr>"

text \<open>\<open>DecodeEntry(ptr, limit, ...)\<close>: the argument is the bytes from \<open>ptr\<close> up to \<open>limit\<close>.\<close>

definition ix_DecodeEntry :: "bytes \<Rightarrow> (uint32 \<times> uint32 \<times> bytes) option" where
  "ix_DecodeEntry p =
    (if length p < 2 then None
     else
       let shared = ucast (p ! 0) :: uint32; non_shared = ucast (p ! 1) in
       if (shared OR non_shared) < 128 then Some (shared, non_shared, drop 2 p)
       else
         (case GetVarint32Ptr p of
            None \<Rightarrow> None
          | Some (shared, p) \<Rightarrow>
             (case GetVarint32Ptr p of
                None \<Rightarrow> None
              | Some (non_shared, p) \<Rightarrow> Some (shared, non_shared, p))))"

definition ix_region_from :: "IndexPageIter \<Rightarrow> nat \<Rightarrow> bytes" where
  "ix_region_from it off = drop off (take (x_restart_offset it) (x_page it))"

definition ix_ParseNextKey :: "IndexPageIter \<Rightarrow> bool \<times> IndexPageIter" where
  "ix_ParseNextKey it =
    (if x_curr_offset it \<ge> x_restart_offset it then (False, ix_Invalidate it)
     else if x_curr_offset it < leftmost_ptr_offset + 4 then
       (True, it\<lparr>x_key := [], x_page_id := DecodeFixed32 (drop leftmost_ptr_offset (x_page it)),
                 x_curr_offset := leftmost_ptr_offset + 4, x_curr_restart_idx := 0\<rparr>)
     else
       let is_restart_pointer = (x_curr_offset it = ix_RestartOffset it (x_curr_restart_idx it)) in
       case ix_DecodeEntry (ix_region_from it (x_curr_offset it)) of
         None \<Rightarrow> (False, ix_Invalidate it)
       | Some (shared, non_shared, pt) \<Rightarrow>
          if length (x_key it) < unat shared then (False, ix_Invalidate it)
          else
            let key = take (unat shared) (x_key it) @ take (unat non_shared) pt in
            case GetVarint32Ptr (drop (unat non_shared) pt) of
              None \<Rightarrow> (False, ix_Invalidate it)
            | Some (ptr_val, pt) \<Rightarrow>
                let delta = DecodeInt32Delta ptr_val;
                    page_id = (if is_restart_pointer then delta else x_page_id it + delta);
                    curr_offset = x_restart_offset it - length pt;
                    idx = x_curr_restart_idx it;
                    idx = (if idx + 1 < x_restart_num it \<and> curr_offset \<ge> ix_RestartOffset it (idx + 1)
                           then idx + 1 else idx)
                in (True, it\<lparr>x_curr_offset := curr_offset, x_curr_restart_idx := idx, x_key := key,
                             x_page_id := page_id\<rparr>))"

definition ix_Next :: "IndexPageIter \<Rightarrow> bool \<times> IndexPageIter" where
  "ix_Next it = ix_ParseNextKey it"

text \<open>\<open>PeekNextKey\<close> returns an empty key for an entry that it cannot read.  It does not compare the
  length of the key with the limit.\<close>

definition ix_PeekNextKey :: "IndexPageIter \<Rightarrow> bytes" where
  "ix_PeekNextKey it =
    (if x_curr_offset it \<ge> x_restart_offset it then []
     else
       case ix_DecodeEntry (ix_region_from it (x_curr_offset it)) of
         None \<Rightarrow> []
       | Some (shared, non_shared, pt) \<Rightarrow>
          if length (x_key it) < unat shared then []
          else take (unat shared) (x_key it)
                 @ take (unat non_shared) (drop (x_restart_offset it - length pt) (x_page it)))"

definition ix_SeekToRestart :: "IndexPageIter \<Rightarrow> nat \<Rightarrow> IndexPageIter" where
  "ix_SeekToRestart it restart_idx =
    it\<lparr>x_curr_restart_idx := restart_idx, x_curr_offset := ix_RestartOffset it restart_idx, x_key := [],
       x_page_id := MaxPageId\<rparr>"

text \<open>The binary search among the restart points for the last one that is not above the key; \<open>right\<close> is
  \<open>-1\<close> when there is none.  \<open>None\<close> is the branch that invalidates the iterator.\<close>

function ix_Search_loop :: "IndexPageIter \<Rightarrow> bytes \<Rightarrow> int \<Rightarrow> nat \<Rightarrow> int option" where
  "ix_Search_loop it search_key right cnt =
    (if cnt > 0 then
       let step = cnt div 2;
           mid = right - int step
       in
       case ix_DecodeEntry (ix_region_from it (ix_RestartOffset it (nat mid))) of
         None \<Rightarrow> None
       | Some (shared, non_shared, key_ptr) \<Rightarrow>
          if shared \<noteq> 0 then None
          else if Compare (take (unat non_shared) key_ptr) search_key > 0
          then ix_Search_loop it search_key (mid - 1) (cnt - (step + 1))
          else ix_Search_loop it search_key right step
     else Some right)"
  by pat_completeness auto
termination
  by (relation "measure (\<lambda>(_, _, _, cnt). cnt)") auto

declare ix_Search_loop.simps [simp del]

text \<open>The linear search inside a region.  The position, key and pointer of the last entry that is not
  above the key are saved and restored; the index of the restart point is not.  Not returning is
  \<open>None\<close>.\<close>

type_synonym ix_save = "nat \<times> bytes \<times> PageId"

definition ix_restore :: "ix_save \<Rightarrow> IndexPageIter \<Rightarrow> IndexPageIter" where
  "ix_restore = (\<lambda>(prev_offset, prev_key, prev_page_id) it.
    it\<lparr>x_curr_offset := prev_offset, x_key := prev_key, x_page_id := prev_page_id\<rparr>)"

partial_function (option) ix_SeekLoop :: "bytes \<Rightarrow> nat \<Rightarrow> ix_save \<Rightarrow> IndexPageIter \<Rightarrow> IndexPageIter option" where
  "ix_SeekLoop search_key limit sv it =
    (if x_curr_offset it < limit then
       let (ok, it) = ix_ParseNextKey it in
       if \<not> ok then Some (ix_Invalidate it)
       else if Compare (x_key it) search_key > 0 then Some (ix_restore sv it)
       else if Compare (x_key it) search_key = 0 then Some it
       else ix_SeekLoop search_key limit (x_curr_offset it, x_key it, x_page_id it) it
     else Some (ix_restore sv it))"

definition ix_SeekRegion :: "bytes \<Rightarrow> int \<Rightarrow> IndexPageIter \<Rightarrow> IndexPageIter option" where
  "ix_SeekRegion search_key right it =
    (if right < 0 then
       Some (snd (ix_ParseNextKey (it\<lparr>x_curr_offset := leftmost_ptr_offset, x_curr_restart_idx := 0\<rparr>)))
     else
       (case ix_ParseNextKey (ix_SeekToRestart it (nat right)) of
          (False, it) \<Rightarrow> Some (ix_Invalidate it)
        | (True, it) \<Rightarrow>
           if Compare (x_key it) search_key = 0 then Some it
           else
             let limit = (if right < int (x_restart_num it) - 1 then ix_RestartOffset it (nat right + 1)
                          else x_restart_offset it)
             in ix_SeekLoop search_key limit (x_curr_offset it, x_key it, x_page_id it) it))"

definition ix_Seek :: "bytes \<Rightarrow> IndexPageIter \<Rightarrow> IndexPageIter option" where
  "ix_Seek search_key it =
    (let cmp_ret = Compare (x_key it) search_key in
     if x_key it \<noteq> [] \<and> cmp_ret = 0 then Some it
     else
       let left = (if x_key it \<noteq> [] \<and> cmp_ret < 0 then int (x_curr_restart_idx it) else 0);
           right = (if x_key it \<noteq> [] \<and> cmp_ret > 0 then int (x_curr_restart_idx it)
                    else int (x_restart_num it) - 1)
       in
       case ix_Search_loop it search_key right (nat (right - left + 1)) of
         None \<Rightarrow> Some (ix_Invalidate it)
       | Some right \<Rightarrow> ix_SeekRegion search_key right it)"

text \<open>Reading a page from its start: at most \<open>n\<close> calls of \<open>Next\<close>.\<close>

fun ix_ReadEntries :: "nat \<Rightarrow> IndexPageIter \<Rightarrow> IndexEntry list" where
  "ix_ReadEntries 0 it = []"
| "ix_ReadEntries (Suc n) it =
    (if ix_HasNext it then
       (case ix_Next it of (True, it') \<Rightarrow> (x_key it', x_page_id it') # ix_ReadEntries n it' | (False, _) \<Rightarrow> [])
     else [])"

end
