(* ===== verification/Index_Page_Correct.thy ===== *)
theory Index_Page_Correct
  imports Index_Page Data_Page_Correct
begin

text \<open>
  Correctness of index pages: the entries read back, and \<open>Seek\<close> finds the child whose range holds the key,
  from every position of the iterator.

  What data pages and index pages have in common, blocks of bytes one after the other of which every
  \<open>iv\<close>-th is a restart point, is the locale \<open>restart_blocks\<close>.
\<close>

section \<open>Blocks with restart points\<close>

locale restart_blocks =
  fixes enc :: "'e list \<Rightarrow> nat \<Rightarrow> bytes" and base iv :: nat
  assumes enc_nonempty: "enc es j \<noteq> []"
    and enc_snoc: "j < length es \<Longrightarrow> enc (es @ [e]) j = enc es j"
begin

definition blocks :: "'e list \<Rightarrow> nat \<Rightarrow> nat \<Rightarrow> bytes" where
  "blocks es i j = concat (map (enc es) [i..<j])"

definition off :: "'e list \<Rightarrow> nat \<Rightarrow> nat" where
  "off es j = base + length (blocks es 0 j)"

definition restarts :: "'e list \<Rightarrow> nat list" where
  "restarts es = map (\<lambda>i. off es (i * iv)) [0..<num_regions iv (length es)]"

lemma blocks_empty [simp]: "blocks es i i = []"
  by (simp add: blocks_def)

lemma blocks_split: "i \<le> j \<Longrightarrow> j \<le> n \<Longrightarrow> blocks es i n = blocks es i j @ blocks es j n"
  unfolding blocks_def using upt_add_eq_append [of i j "n - j"] by (simp del: upt_Suc)

lemma blocks_Suc: "i \<le> j \<Longrightarrow> blocks es i (Suc j) = blocks es i j @ enc es j"
  by (simp add: blocks_def)

lemma blocks_Cons: "i < j \<Longrightarrow> blocks es i j = enc es i @ blocks es (Suc i) j"
  by (simp add: blocks_def upt_conv_Cons)

lemma off_0 [simp]: "off es 0 = base"
  by (simp add: off_def)

lemma off_Suc: "off es (Suc j) = off es j + length (enc es j)"
  by (simp add: off_def blocks_Suc)

lemma off_less: "i < j \<Longrightarrow> off es i < off es j"
proof (induction j)
  case (Suc j)
  have "0 < length (enc es j)" by (simp add: enc_nonempty)
  with Suc show ?case by (cases "i = j") (auto simp: off_Suc)
qed simp

lemma off_le_iff [simp]: "off es i \<le> off es j \<longleftrightarrow> i \<le> j"
  by (metis less_imp_le linorder_not_less nat_less_le off_less)

lemma off_less_iff [simp]: "off es i < off es j \<longleftrightarrow> i < j"
  by (meson linorder_not_less off_le_iff)

lemma off_eq_iff [simp]: "off es i = off es j \<longleftrightarrow> i = j"
  by (metis linorder_neqE_nat off_less_iff order_less_irrefl)

lemma base_le_off: "base \<le> off es j"
  by (simp add: off_def)

lemma blocks_snoc: "j \<le> length es \<Longrightarrow> blocks (es @ [e]) i j = blocks es i j"
  unfolding blocks_def by (intro arg_cong [where f = concat] map_cong) (auto simp: enc_snoc)

lemma off_snoc: "j \<le> length es \<Longrightarrow> off (es @ [e]) j = off es j"
  by (simp add: off_def blocks_snoc)

lemma length_restarts [simp]: "length (restarts es) = num_regions iv (length es)"
  by (simp add: restarts_def)

lemma restarts_snoc:
  assumes "0 < iv"
  shows "restarts (es @ [e]) =
    (if es \<noteq> [] \<and> length es mod iv = 0 then restarts es @ [off es (length es)] else restarts es)"
proof -
  have "map (\<lambda>i. off (es @ [e]) (i * iv)) [0..<num_regions iv (length es)] = restarts es"
    unfolding restarts_def using num_regions_mult [OF assms] by (auto simp: off_snoc)
  then show ?thesis
    using num_regions_mod [of "length es" iv] assms
    by (auto simp: restarts_def [of "es @ [e]"] num_regions_Suc off_snoc)
qed

lemma off_suffix: "j \<le> n \<Longrightarrow> off es n - length (blocks es j n) = off es j"
  using blocks_split [of 0 j n es] by (simp add: off_def)

end

text \<open>The entries of a data page are such blocks.\<close>

interpretation data_blocks: restart_blocks "enc_at iv" content_offset iv for iv
  by unfold_locales (auto simp: enc_at_def enc_entry_nonempty prev_key_def prev_ts_def nth_append)

section \<open>The encoding of an index entry\<close>

definition ix_enc :: "bytes \<Rightarrow> PageId \<Rightarrow> IndexEntry \<Rightarrow> bytes" where
  "ix_enc last_key last_id e =
    (let shared = common_prefix last_key (fst e) in
     EncodeVarint32 (of_nat shared) @ EncodeVarint32 (of_nat (length (fst e) - shared))
     @ drop shared (fst e) @ EncodeVarint32 (EncodeInt32Delta (snd e - last_id)))"

definition ix_prev_key :: "nat \<Rightarrow> IndexEntry list \<Rightarrow> nat \<Rightarrow> bytes" where
  "ix_prev_key iv es j = (if j mod iv = 0 then [] else fst (es ! (j - 1)))"

definition ix_prev_id :: "nat \<Rightarrow> IndexEntry list \<Rightarrow> nat \<Rightarrow> PageId" where
  "ix_prev_id iv es j = (if j mod iv = 0 then 0 else snd (es ! (j - 1)))"

definition ix_enc_at :: "nat \<Rightarrow> IndexEntry list \<Rightarrow> nat \<Rightarrow> bytes" where
  "ix_enc_at iv es j = ix_enc (ix_prev_key iv es j) (ix_prev_id iv es j) (es ! j)"

lemma ix_header_value [simp]: "ix_HeaderSize = 15" "leftmost_ptr_offset = 11"
  by (simp_all add: ix_HeaderSize_def leftmost_ptr_offset_def checksum_bytes_def)

interpretation ix: restart_blocks "ix_enc_at iv" 15 iv for iv
  by unfold_locales (auto simp: ix_enc_at_def ix_enc_def Let_def ix_prev_key_def ix_prev_id_def nth_append)

lemma ix_DecodeEntry_Encode:
  "ix_DecodeEntry (EncodeVarint32 a @ EncodeVarint32 b @ rest) = Some (a, b, rest)"
  (is "ix_DecodeEntry ?p = _")
proof -
  let ?or = "\<lambda>p. (ucast (p ! 0) OR ucast (p ! 1)) :: uint32"
  have "1 \<le> length (EncodeVarint32 v)" for v by (simp add: varint_sizes)
  from this [of a] this [of b] have l2: "\<not> length ?p < 2" unfolding length_append by linarith
  have slow: "\<not> ?or ?p < 128 \<Longrightarrow> ?thesis"
    using l2 by (simp add: ix_DecodeEntry_def)
  show ?thesis
  proof (cases "a < 128 \<and> b < 128")
    case True
    then have *: "?p = ucast a # ucast b # rest" by (simp add: varint_first_byte)
    have "\<not> bit (a OR b) n" if "7 \<le> n" for n
      using True less_128_take_bit that by (metis bit_or_iff bit_take_bit_iff linorder_not_less)
    then have "take_bit 7 (a OR b) = a OR b"
      by (intro bit_word_eqI) (metis bit_take_bit_iff linorder_not_less)
    then have "unat (a OR b) < 2 ^ 7" by (metis unsigned_take_bit_eq take_bit_nat_less_exp)
    then have "a OR b < 128" by (simp add: word_less_nat_alt)
    then show ?thesis
      using True varint_last_byte(1) [of a] varint_last_byte(1) [of b]
      unfolding * by (simp add: ix_DecodeEntry_def)
  next
    case False
    obtain x xs where x: "EncodeVarint32 a = x # xs" by (metis EncodeVarint_nonempty(1) list.exhaust)
    obtain y ys where y: "EncodeVarint32 b = y # ys" by (metis EncodeVarint_nonempty(1) list.exhaust)
    consider "128 \<le> a" | "a < 128" "128 \<le> b" using False by force
    then have "bit (?or ?p) 7"
    proof cases
      case 1
      from varint_first_byte(1) [OF 1] show ?thesis by (simp add: x bit_or_iff)
    next
      case 2
      from varint_first_byte(1) [OF 2(2)] show ?thesis by (simp add: varint_first_byte(2) [OF 2(1)] y bit_or_iff)
    qed
    then show ?thesis by (intro slow not_less_128_bit)
  qed
qed

section \<open>The builder\<close>

definition ix_restart :: "IndexPageBuilder \<Rightarrow> bool" where
  "ix_restart b = (\<not> xb_counter b < index_page_restart_interval (xb_options b))"

definition ix_next_block :: "IndexPageBuilder \<Rightarrow> IndexEntry \<Rightarrow> bytes" where
  "ix_next_block b e =
    (if ix_restart b then ix_enc [] 0 e else ix_enc (xb_last_key b) (xb_last_page_id b) e)"

text \<open>\<open>Add\<close> of a further entry in terms of its block.\<close>

lemma ix_Add_eq:
  assumes "xb_cnt b \<noteq> 0" "TypeOfPage (xb_buffer b) = page_type_code (index_type leaf)"
  shows "ix_Add b key page_id leaf = Some
    (if ix_CurrentSizeEstimate b + (if ix_restart b then 2 else 0) + length (ix_next_block b (key, page_id))
          > data_page_size (xb_options b)
     then (False, if ix_restart b then b\<lparr>xb_last_page_id := 0\<rparr> else b)
     else (True, b\<lparr>xb_buffer := xb_buffer b @ ix_next_block b (key, page_id),
       xb_restarts := xb_restarts b @ (if ix_restart b then [length (xb_buffer b)] else []),
       xb_counter := (if ix_restart b then 0 else xb_counter b) + 1,
       xb_cnt := xb_cnt b + 1, xb_last_key := key, xb_last_page_id := page_id\<rparr>))"
proof -
  have key: "resize (common_prefix k key) k @ read_at (common_prefix k key) (length key - common_prefix k key) key = key" for k
    using common_prefix_le [of k key] common_prefix_take [of k key] by (simp add: resize_def read_at_def)
  have key0: "resize 0 k @ read_at 0 (length key) key = key" for k by (simp add: resize_def read_at_def)
  show ?thesis
    using assms key [of "xb_last_key b"] key0 [of "xb_last_key b"]
    by (cases "ix_restart b")
      (simp_all add: ix_Add_def ix_IsEmpty_def ix_restart_def [symmetric] ix_restart_def [of b, symmetric, simplified]
        ix_next_block_def ix_enc_def Let_def PutVarint32_def read_at_def ix_CurrentSizeEstimate_def ix_TailMetaSize_def)
qed

definition ix_builder_inv :: "bool \<Rightarrow> PageId \<Rightarrow> IndexPageBuilder \<Rightarrow> IndexEntry list \<Rightarrow> bool" where
  "ix_builder_inv leaf p0 b es \<longleftrightarrow>
    (let iv = index_page_restart_interval (xb_options b); n = length es in
     valid_options (xb_options b)
     \<and> (\<exists>hdr. length hdr = 15 \<and> xb_buffer b = hdr @ ix.blocks iv es 0 n
          \<and> hdr ! page_type_offset = page_type_code (index_type leaf) \<and> DecodeFixed32 (drop 11 hdr) = p0)
     \<and> xb_restarts b = ix.restarts iv es
     \<and> xb_counter b = (if n = 0 then 0 else (n - 1) mod iv + 1)
     \<and> xb_cnt b = Suc n \<and> \<not> xb_finished b
     \<and> (n mod iv \<noteq> 0 \<longrightarrow> xb_last_key b = fst (last es) \<and> xb_last_page_id b = snd (last es))
     \<and> (n = 0 \<longrightarrow> xb_last_key b = [] \<and> xb_last_page_id b = 0)
     \<and> ix_CurrentSizeEstimate b \<le> data_page_size (xb_options b)
     \<and> (\<forall>e \<in> set es. length (fst e) \<le> length (xb_buffer b)))"

lemma ix_inv_restart:
  assumes "ix_builder_inv leaf p0 b es"
  shows "ix_restart b \<longleftrightarrow> es \<noteq> [] \<and> length es mod index_page_restart_interval (xb_options b) = 0"
proof -
  let ?iv = "index_page_restart_interval (xb_options b)"
  have iv: "0 < ?iv" using assms by (simp add: ix_builder_inv_def Let_def valid_options_def)
  show ?thesis
  proof (cases es)
    case (Cons a list)
    have "xb_counter b = length list mod ?iv + 1" using assms Cons by (simp add: ix_builder_inv_def Let_def)
    moreover have "length list mod ?iv + 1 \<ge> ?iv \<longleftrightarrow> Suc (length list) mod ?iv = 0"
      using iv mod_less_divisor [OF iv, of "length list"] by (auto simp: mod_Suc)
    ultimately show ?thesis by (simp add: ix_restart_def Cons not_less)
  qed (use assms iv in \<open>simp add: ix_builder_inv_def Let_def ix_restart_def\<close>)
qed

lemma ix_next_block_snoc:
  assumes "ix_builder_inv leaf p0 b es"
  shows "ix_enc_at (index_page_restart_interval (xb_options b)) (es @ [e]) (length es) = ix_next_block b e"
  using ix_inv_restart [OF assms] assms
  by (cases "es = []")
    (auto simp: ix_enc_at_def ix_next_block_def ix_prev_key_def ix_prev_id_def ix_builder_inv_def Let_def
      nth_append last_conv_nth)

lemma ix_Add_inv:
  assumes inv: "ix_builder_inv leaf p0 b es" and add: "ix_Add b key page_id leaf = Some (True, b')"
  shows "ix_builder_inv leaf p0 b' (es @ [(key, page_id)])" "xb_options b' = xb_options b"
proof -
  let ?iv = "index_page_restart_interval (xb_options b)" and ?e = "(key, page_id)"
  let ?es = "es @ [?e]"
  let ?blk = "ix_next_block b ?e"
  obtain hdr where hdr: "length hdr = 15" "xb_buffer b = hdr @ ix.blocks ?iv es 0 (length es)"
    "hdr ! page_type_offset = page_type_code (index_type leaf)" "DecodeFixed32 (drop 11 hdr) = p0"
    using inv by (auto simp: ix_builder_inv_def Let_def)
  have iv: "0 < ?iv" using inv by (simp add: ix_builder_inv_def Let_def valid_options_def)
  have ty: "TypeOfPage (xb_buffer b) = page_type_code (index_type leaf)"
    using hdr by (simp add: TypeOfPage_def nth_append page_type_offset_def checksum_bytes_def)
  note nr = ix_inv_restart [OF inv]
  have cnt: "xb_cnt b \<noteq> 0" using inv by (simp add: ix_builder_inv_def Let_def)
  have b': "b' = b\<lparr>xb_buffer := xb_buffer b @ ?blk,
       xb_restarts := xb_restarts b @ (if ix_restart b then [length (xb_buffer b)] else []),
       xb_counter := (if ix_restart b then 0 else xb_counter b) + 1,
       xb_cnt := xb_cnt b + 1, xb_last_key := key, xb_last_page_id := page_id\<rparr>"
    and size: "ix_CurrentSizeEstimate b + (if ix_restart b then 2 else 0) + length ?blk \<le> data_page_size (xb_options b)"
    using add ix_Add_eq [OF cnt ty, of key page_id] by (auto split: if_splits)
  show "xb_options b' = xb_options b" by (simp add: b')
  have len: "length (xb_buffer b) = ix.off ?iv es (length es)" using hdr by (simp add: ix.off_def)
  have buf: "xb_buffer b' = hdr @ ix.blocks ?iv ?es 0 (length ?es)"
    by (simp add: b' hdr ix.blocks_Suc ix.blocks_snoc ix_next_block_snoc [OF inv])
  have rst: "xb_restarts b' = ix.restarts ?iv ?es"
    using inv len nr by (simp add: b' ix.restarts_snoc [OF iv] ix_builder_inv_def Let_def)
  have ctr: "xb_counter b' = length es mod ?iv + 1"
  proof (cases "ix_restart b")
    case True
    then show ?thesis using nr by (simp add: b')
  next
    case False
    then have "es = [] \<or> length es mod ?iv \<noteq> 0" using nr by simp
    then have "xb_counter b = length es mod ?iv"
      using inv by (cases es) (auto simp: ix_builder_inv_def Let_def mod_Suc split: if_splits)
    then show ?thesis using False by (simp add: b')
  qed
  have "length key \<le> length (xb_buffer b')"
  proof (cases "ix_restart b \<or> es = []")
    case True
    then have "length key \<le> length ?blk"
      using inv by (auto simp: ix_next_block_def ix_enc_def Let_def ix_builder_inv_def)
    then show ?thesis by (simp add: b')
  next
    case False
    then have "xb_last_key b = fst (last es)" using inv nr by (auto simp: ix_builder_inv_def Let_def)
    then have "length (xb_last_key b) \<le> length (xb_buffer b)"
      using inv False by (auto simp: ix_builder_inv_def Let_def dest!: bspec [where x = "last es"])
    moreover have "length key - common_prefix (xb_last_key b) key \<le> length ?blk"
      using False by (simp add: ix_next_block_def ix_enc_def Let_def)
    ultimately show ?thesis using common_prefix_le(1) [of "xb_last_key b" key] by (simp add: b')
  qed
  moreover have "length (fst x) \<le> length (xb_buffer b')" if "x \<in> set es" for x
    using inv that by (fastforce simp: b' ix_builder_inv_def Let_def)
  ultimately have kls: "\<forall>x \<in> set ?es. length (fst x) \<le> length (xb_buffer b')" by simp
  have size': "ix_CurrentSizeEstimate b' \<le> data_page_size (xb_options b)"
    using size by (simp add: b' ix_CurrentSizeEstimate_def ix_TailMetaSize_def split: if_splits)
  have "valid_options (xb_options b)" "\<not> xb_finished b" "xb_cnt b = Suc (length es)"
    using inv by (simp_all add: ix_builder_inv_def Let_def)
  moreover have "xb_options b' = xb_options b" "xb_finished b' = xb_finished b" "xb_cnt b' = Suc (xb_cnt b)"
      "xb_last_key b' = key" "xb_last_page_id b' = page_id"
    by (simp_all add: b')
  ultimately show "ix_builder_inv leaf p0 b' ?es"
    using buf hdr rst ctr kls size' unfolding ix_builder_inv_def Let_def by auto
qed

lemma ix_first_inv:
  assumes "valid_options (xb_options b)" "ix_Add (ix_Reset b) key p0 leaf = Some (ok, b')"
  shows "ok \<and> ix_builder_inv leaf p0 b' [] \<and> xb_options b' = xb_options b"
proof -
  let ?h = "write_at 11 (EncodeFixed32 p0) (SetPageType (replicate 15 0) (index_type leaf))"
  have l: "length (SetPageType (replicate 15 0) (index_type leaf)) = 15" by (simp add: SetPageType_def)
  have h: "length ?h = 15" using l by simp
  have "DecodeFixed32 (drop 11 ?h) = p0" using l by (simp add: drop_write_at_same)
  moreover have "?h ! page_type_offset = page_type_code (index_type leaf)"
    using l by (simp add: write_at_def nth_append SetPageType_def page_type_offset_def checksum_bytes_def)
  moreover have "ok" "b' = (ix_Reset b)\<lparr>xb_buffer := ?h, xb_cnt := 1\<rparr>"
    using assms(2) by (simp_all add: ix_Add_def ix_IsEmpty_def ix_Reset_def)
  ultimately show ?thesis
    using assms(1) h
    by (simp add: ix_builder_inv_def Let_def ix_Reset_def ix.restarts_def num_regions_def ix_CurrentSizeEstimate_def
        ix_TailMetaSize_def valid_options_def)
qed

lemma ix_AddAll_inv:
  "ix_builder_inv leaf p0 b es \<Longrightarrow> ix_AddAll b leaf es' = Some b' \<Longrightarrow>
    ix_builder_inv leaf p0 b' (es @ es') \<and> xb_options b' = xb_options b"
proof (induction b leaf es' arbitrary: es rule: ix_AddAll.induct)
  case (2 b leaf key page_id es')
  then obtain b1 where b1: "ix_Add b key page_id leaf = Some (True, b1)" "ix_AddAll b1 leaf es' = Some b'"
    by (auto split: option.splits prod.splits bool.splits)
  then show ?case
    using "2.IH" [OF b1(1) refl refl, of "es @ [(key, page_id)]"] ix_Add_inv [OF "2.prems"(1) b1(1)] by simp
qed simp

section \<open>The layout of a finished page\<close>

definition ix_offs :: "nat \<Rightarrow> IndexEntry list \<Rightarrow> nat list" where
  "ix_offs iv es = (if es = [] then [] else ix.restarts iv es)"

definition ix_layout :: "nat \<Rightarrow> bool \<Rightarrow> PageId \<Rightarrow> IndexEntry list \<Rightarrow> bytes \<Rightarrow> bool" where
  "ix_layout iv leaf p0 es page \<longleftrightarrow> 0 < iv
    \<and> (\<exists>hdr pad. length hdr = 15
        \<and> page = hdr @ ix.blocks iv es 0 (length es) @ fixed16s (ix_offs iv es)
            @ EncodeFixed16 (of_nat (length (ix_offs iv es))) @ pad)
    \<and> DecodeFixed32 (drop 11 page) = p0
    \<and> TypeOfPage page = page_type_code (index_type leaf)
    \<and> ContentLength page = ix.off iv es (length es) + 2 * length (ix_offs iv es) + 2
    \<and> (\<forall>e \<in> set es. length (fst e) < 2 ^ 16)"

lemma ix_Finish_layout:
  assumes "ix_builder_inv leaf p0 b es"
  shows "ix_layout (index_page_restart_interval (xb_options b)) leaf p0 es (fst (ix_Finish b))"
    and "length (fst (ix_Finish b)) = data_page_size (xb_options b)"
proof -
  let ?iv = "index_page_restart_interval (xb_options b)"
  let ?rs = "ix_offs ?iv es"
  obtain hdr where hdr: "length hdr = 15" "xb_buffer b = hdr @ ix.blocks ?iv es 0 (length es)"
    "hdr ! page_type_offset = page_type_code (index_type leaf)" "DecodeFixed32 (drop 11 hdr) = p0"
    using assms by (auto simp: ix_builder_inv_def Let_def)
  have inv: "valid_options (xb_options b)" "xb_restarts b = ix.restarts ?iv es" "xb_cnt b = Suc (length es)"
    "ix_CurrentSizeEstimate b \<le> data_page_size (xb_options b)" "\<forall>e \<in> set es. length (fst e) \<le> length (xb_buffer b)"
    using assms by (simp_all add: ix_builder_inv_def Let_def)
  let ?buf = "hdr @ ix.blocks ?iv es 0 (length es) @ fixed16s ?rs @ EncodeFixed16 (of_nat (length ?rs))"
  let ?tot = "ix.off ?iv es (length es) + 2 * length ?rs + 2"
  have tot: "length ?buf = ?tot" using hdr by (simp add: ix.off_def)
  have "length ?rs \<le> length (xb_restarts b)" by (simp add: ix_offs_def inv(2))
  then have ps: "?tot \<le> data_page_size (xb_options b)" "data_page_size (xb_options b) < 2 ^ 16"
    using inv(1,4) hdr by (simp_all add: ix_CurrentSizeEstimate_def ix_TailMetaSize_def ix.off_def valid_options_def)
  let ?hdr = "write_at 9 (EncodeFixed16 (of_nat ?tot)) hdr"
  let ?pad = "replicate (data_page_size (xb_options b) - ?tot) 0"
  have w: "write_at 9 (EncodeFixed16 c) (hdr @ x) = write_at 9 (EncodeFixed16 c) hdr @ x" for c x
    using hdr(1) by (simp add: write_at_def)
  have rs: "(if xb_cnt b = 1 then [] else xb_restarts b) = ?rs" by (simp add: ix_offs_def inv(2,3))
  have fin: "fst (ix_Finish b) = resize (data_page_size (xb_options b)) (write_at 9 (EncodeFixed16 (of_nat (length ?buf))) ?buf)"
    unfolding ix_Finish_def Let_def rs foldl_PutFixed16 by (simp add: PutFixed16_def hdr(2))
  have page: "fst (ix_Finish b) = ?hdr @ ix.blocks ?iv es 0 (length es) @ fixed16s ?rs
            @ EncodeFixed16 (of_nat (length ?rs)) @ ?pad"
    unfolding fin tot w using ps hdr(1) by (subst resize_append) (simp_all add: ix.off_def)
  have hl: "length ?hdr = 15" using hdr(1) by simp
  have cl: "ContentLength (fst (ix_Finish b)) = ?tot"
  proof -
    have "DecodeFixed16 (drop page_size_offset (fst (ix_Finish b))) = of_nat ?tot"
      unfolding page using hdr(1) by (simp add: drop_write_at_same)
    moreover have "unat (of_nat ?tot :: uint16) = ?tot" by (rule unat_of_nat_16) (use ps in linarith)
    ultimately show ?thesis by (simp only: ContentLength_def)
  qed
  have "drop 11 ?hdr = drop 11 hdr" using hdr(1) by (intro drop_write_at_after) simp_all
  then have "DecodeFixed32 (drop 11 (fst (ix_Finish b))) = DecodeFixed32 (drop 11 hdr @ drop 15 (fst (ix_Finish b)))"
    unfolding page using hl by simp
  also have "\<dots> = DecodeFixed32 (take 4 (drop 11 hdr @ drop 15 (fst (ix_Finish b))))" by (rule DecodeFixed_take(2) [symmetric]) simp
  also have "\<dots> = p0" using hdr DecodeFixed_take(2) [of 4 "drop 11 hdr"] by simp
  finally have left: "DecodeFixed32 (drop 11 (fst (ix_Finish b))) = p0" .
  have ty: "TypeOfPage (fst (ix_Finish b)) = page_type_code (index_type leaf)"
    unfolding page TypeOfPage_def using hdr by (simp add: nth_append write_at_def page_type_offset_def checksum_bytes_def)
  have "\<forall>e \<in> set es. length (fst e) < 2 ^ 16"
    using inv(5) hdr ps by (fastforce simp: ix.off_def)
  then show "ix_layout ?iv leaf p0 es (fst (ix_Finish b))"
    using page hl cl left ty inv(1) unfolding ix_layout_def valid_options_def by blast
  show "length (fst (ix_Finish b)) = data_page_size (xb_options b)" by (simp add: ix_Finish_def Let_def)
qed

section \<open>Reading a page\<close>

definition ix_on :: "nat \<Rightarrow> bool \<Rightarrow> PageId \<Rightarrow> IndexEntry list \<Rightarrow> IndexPageIter \<Rightarrow> bool" where
  "ix_on iv leaf p0 es it \<longleftrightarrow> ix_layout iv leaf p0 es (x_page it)
    \<and> x_restart_num it = length (ix_offs iv es) \<and> x_restart_offset it = ix.off iv es (length es)
    \<and> ix.off iv es (length es) + 2 * length (ix_offs iv es) + 2 < 2 ^ 16"

lemma ix_layout_bound:
  "ix_layout iv leaf p0 es page \<Longrightarrow> ix.off iv es (length es) + 2 * length (ix_offs iv es) + 2 < 2 ^ 16"
  unfolding ix_layout_def ContentLength_def
  using unsigned_less [of "DecodeFixed16 (drop page_size_offset page)", where ?'a = nat] by simp

lemma ix_layout_drop:
  assumes "ix_layout iv leaf p0 es page"
  obtains pad where "drop (ix.off iv es (length es)) page =
      fixed16s (ix_offs iv es) @ EncodeFixed16 (of_nat (length (ix_offs iv es))) @ pad"
  using assms unfolding ix_layout_def by (auto simp: ix.off_def)

lemma ix_on_new:
  assumes "ix_layout iv leaf p0 es page"
  shows "ix_on iv leaf p0 es (IndexPageIter_new page)"
proof -
  let ?nr = "length (ix_offs iv es)" and ?e = "ix.off iv es (length es)"
  note b = ix_layout_bound [OF assms]
  obtain pad where d: "drop ?e page = fixed16s (ix_offs iv es) @ EncodeFixed16 (of_nat ?nr) @ pad"
    by (rule ix_layout_drop [OF assms])
  have c: "ContentLength page = ?e + 2 * ?nr + 2" using assms by (simp add: ix_layout_def)
  have "drop (ContentLength page - 2) page = drop (2 * ?nr) (drop ?e page)" by (simp add: c add.commute)
  also have "\<dots> = EncodeFixed16 (of_nat ?nr) @ pad" by (simp add: d)
  finally have rn: "RestartNum page = ?nr" using b by (simp add: RestartNum_def unat_of_nat_16)
  have "(of_nat (ContentLength page) - of_nat ((1 + ?nr) * 2) :: uint16) = of_nat ?e" by (simp add: c algebra_simps)
  then have "unat (of_nat (ContentLength page) - of_nat ((1 + ?nr) * 2) :: uint16) = ?e"
    using b by (simp add: unat_of_nat_16 del: of_nat_mult of_nat_add)
  then show ?thesis using assms b by (simp add: ix_on_def IndexPageIter_new_def rn)
qed

lemma ix_on_RestartOffset:
  assumes "ix_on iv leaf p0 es it" "i < length (ix_offs iv es)"
  shows "ix_RestartOffset it i = ix.off iv es (i * iv)"
proof -
  have pl: "ix_layout iv leaf p0 es (x_page it)" and iv: "0 < iv"
    and ro: "x_restart_offset it = ix.off iv es (length es)"
    using assms(1) by (simp_all add: ix_on_def ix_layout_def)
  have i: "i < num_regions iv (length es)" "ix_offs iv es ! i = ix.off iv es (i * iv)"
    using assms(2) by (simp_all add: ix_offs_def ix.restarts_def split: if_splits)
  obtain pad where d: "drop (ix.off iv es (length es)) (x_page it) =
      fixed16s (ix_offs iv es) @ EncodeFixed16 (of_nat (length (ix_offs iv es))) @ pad"
    by (rule ix_layout_drop [OF pl])
  have "drop (x_restart_offset it + i * 2) (x_page it) = drop (2 * i) (drop (ix.off iv es (length es)) (x_page it))"
    by (simp add: ro mult.commute add.commute)
  then have "DecodeFixed16 (drop (x_restart_offset it + i * 2) (x_page it)) = of_nat (ix.off iv es (i * iv))"
    using assms(2) DecodeFixed16_fixed16s [of i "ix_offs iv es"] by (simp add: d i(2))
  moreover have "ix.off iv es (i * iv) < 2 ^ 16"
    using num_regions_mult(1) [OF iv i(1)] assms(1) ix.off_le_iff [of iv es "i * iv" "length es"]
    unfolding ix_on_def by linarith
  ultimately show ?thesis by (simp add: ix_RestartOffset_def unat_of_nat_16)
qed

lemma ix_on_region:
  assumes "ix_on iv leaf p0 es it" "j \<le> length es"
  shows "ix_region_from it (ix.off iv es j) = ix.blocks iv es j (length es)"
proof -
  have ro: "x_restart_offset it = ix.off iv es (length es)" using assms(1) by (simp add: ix_on_def)
  obtain hdr rest where h: "length hdr = 15" "x_page it = hdr @ ix.blocks iv es 0 (length es) @ rest"
    using assms(1) unfolding ix_on_def ix_layout_def by auto
  have "take (x_restart_offset it) (x_page it) = hdr @ ix.blocks iv es 0 (length es)"
    by (simp add: ro h ix.off_def)
  then show ?thesis
    using assms(2) h(1) ix.blocks_split [of 0 j "length es" iv es] by (simp add: ix_region_from_def ix.off_def)
qed

lemma ix_fits:
  assumes "ix_on iv leaf p0 es it" "j < length es"
  shows "length (fst (es ! j)) < 2 ^ 16"
  using assms by (simp add: ix_on_def ix_layout_def)

text \<open>The state of an iterator that stands before entry \<open>j\<close>.  After a \<open>Seek\<close> that looked at an entry too
  many the index of the restart point may be one too large.\<close>

definition ix_at :: "nat \<Rightarrow> bool \<Rightarrow> PageId \<Rightarrow> IndexEntry list \<Rightarrow> nat \<Rightarrow> IndexPageIter \<Rightarrow> bool" where
  "ix_at iv leaf p0 es j it \<longleftrightarrow> ix_on iv leaf p0 es it \<and> j \<le> length es
    \<and> x_curr_offset it = ix.off iv es j
    \<and> (x_curr_restart_idx it = min (j div iv) (num_regions iv (length es) - 1)
       \<or> j mod iv \<noteq> 0 \<and> j div iv + 1 < num_regions iv (length es) \<and> x_curr_restart_idx it = j div iv + 1)
    \<and> (j mod iv \<noteq> 0 \<longrightarrow> x_key it = fst (es ! (j - 1)) \<and> x_page_id it = snd (es ! (j - 1)))"

definition ix_ids_ok :: "IndexEntry list \<Rightarrow> bool" where
  "ix_ids_ok es \<longleftrightarrow> (\<forall>e \<in> set es. unat (snd e) < 2 ^ 31)"

lemma id_diff:
  fixes a b :: uint32
  assumes "unat a < 2 ^ 31" "unat b < 2 ^ 31"
  shows "a - b \<noteq> 2 ^ 31"
proof
  assume "a - b = 2 ^ 31"
  then have "a = b + 2 ^ 31" by (simp add: algebra_simps)
  then have "unat a = unat b + 2 ^ 31" using assms(2) by (simp add: unat_word_ariths)
  then show False using assms(1) by simp
qed

lemma ix_ParseNextKey_decoded:
  assumes "x_curr_offset it < x_restart_offset it" "15 \<le> x_curr_offset it"
    and "ix_DecodeEntry (ix_region_from it (x_curr_offset it)) = Some (shared, non_shared, pt)"
    and "unat shared \<le> length (x_key it)"
    and "GetVarint32Ptr (drop (unat non_shared) pt) = Some (v, rest)"
  shows "ix_ParseNextKey it =
    (True,
     it\<lparr>x_curr_offset := x_restart_offset it - length rest,
        x_curr_restart_idx :=
          (if x_curr_restart_idx it + 1 < x_restart_num it
             \<and> ix_RestartOffset it (x_curr_restart_idx it + 1) \<le> x_restart_offset it - length rest
           then x_curr_restart_idx it + 1 else x_curr_restart_idx it),
        x_key := take (unat shared) (x_key it) @ take (unat non_shared) pt,
        x_page_id :=
          (if x_curr_offset it = ix_RestartOffset it (x_curr_restart_idx it)
           then DecodeInt32Delta v else x_page_id it + DecodeInt32Delta v)\<rparr>)"
  using assms by (simp add: ix_ParseNextKey_def Let_def)

text \<open>The index of the restart point after entry \<open>j\<close>, from either of its two values before it.\<close>

lemma ix_next_idx:
  assumes on: "ix_on iv leaf p0 es it" and j: "j < length es"
    and idx: "i = j div iv \<or> j mod iv \<noteq> 0 \<and> j div iv + 1 < num_regions iv (length es) \<and> i = j div iv + 1"
    and i': "i' = (if i + 1 < x_restart_num it \<and> ix_RestartOffset it (i + 1) \<le> ix.off iv es (Suc j) then i + 1 else i)"
  shows "i' = min (Suc j div iv) (num_regions iv (length es) - 1)
    \<or> Suc j mod iv \<noteq> 0 \<and> Suc j div iv + 1 < num_regions iv (length es) \<and> i' = Suc j div iv + 1"
proof -
  let ?nr = "num_regions iv (length es)"
  have iv: "0 < iv" and nr: "x_restart_num it = ?nr" and lo: "length (ix_offs iv es) = ?nr"
    using on j by (auto simp: ix_on_def ix_layout_def ix_offs_def)
  have jd: "j div iv < ?nr" by (rule div_less_num_regions [OF j])
  have step: "(j div iv + 1) * iv \<le> Suc j \<longleftrightarrow> Suc j mod iv = 0"
  proof (cases "Suc j mod iv = 0")
    case True
    then have "Suc j = (j div iv + 1) * iv" by (metis Suc_eq_plus1 add.right_neutral div_Suc div_mult_mod_eq)
    then show ?thesis using True by simp
  next
    case False
    have "Suc j < (Suc j div iv + 1) * iv" using iv by (metis Suc_eq_plus1 div_less_iff_less_mult lessI)
    then show ?thesis using False by (simp add: div_Suc)
  qed
  have ro: "ix_RestartOffset it (k + 1) \<le> ix.off iv es (Suc j) \<longleftrightarrow> (k + 1) * iv \<le> Suc j" if "k + 1 < ?nr" for k
    using ix_on_RestartOffset [OF on, of "k + 1"] that lo by simp
  from idx show ?thesis
  proof
    assume "i = j div iv"
    then show ?thesis using i' ro [of "j div iv"] step jd by (auto simp: nr div_Suc)
  next
    assume k: "j mod iv \<noteq> 0 \<and> j div iv + 1 < ?nr \<and> i = j div iv + 1"
    have "\<not> (i + 1) * iv \<le> Suc j"
    proof
      assume "(i + 1) * iv \<le> Suc j"
      then have "(j div iv + 1) * iv + iv \<le> Suc j" using k by simp
      moreover have "j < (j div iv + 1) * iv" using iv by (metis Suc_eq_plus1 div_less_iff_less_mult lessI)
      ultimately have "iv = 1" "j mod iv = 0" using iv by auto
      then show False using k by simp
    qed
    then have "i' = i" using i' ro [of i] by (auto simp: nr)
    then show ?thesis using k by (auto simp: div_Suc)
  qed
qed

lemma ix_parse_step:
  assumes pos: "ix_at iv leaf p0 es j it" and j: "j < length es" and ids: "ix_ids_ok es"
  obtains it' where "ix_ParseNextKey it = (True, it')" "ix_at iv leaf p0 es (Suc j) it'"
    "x_key it' = fst (es ! j)" "x_page_id it' = snd (es ! j)" "x_page it' = x_page it"
proof -
  let ?n = "length es" and ?key = "fst (es ! j)" and ?id = "snd (es ! j)"
  let ?nr = "num_regions iv (length es)"
  let ?k = "ix_prev_key iv es j" and ?p = "ix_prev_id iv es j"
  let ?sh = "common_prefix ?k ?key"
  let ?rest = "ix.blocks iv es (Suc j) ?n"
  let ?v = "EncodeInt32Delta (?id - ?p)"
  have on: "ix_on iv leaf p0 es it" and off: "x_curr_offset it = ix.off iv es j"
    using pos by (simp_all add: ix_at_def)
  have iv: "0 < iv" using on by (simp add: ix_on_def ix_layout_def)
  have jd: "j div iv < ?nr" by (rule div_less_num_regions [OF j])
  have lo: "length (ix_offs iv es) = ?nr" using j by (auto simp: ix_offs_def)
  have idx: "x_curr_restart_idx it = j div iv
      \<or> j mod iv \<noteq> 0 \<and> j div iv + 1 < ?nr \<and> x_curr_restart_idx it = j div iv + 1"
  proof -
    have "min (j div iv) (?nr - 1) = j div iv" using jd by simp
    then show ?thesis using pos unfolding ix_at_def by metis
  qed
  have ro: "x_restart_offset it = ix.off iv es ?n" using on by (simp add: ix_on_def)
  have is_restart: "x_curr_offset it = ix_RestartOffset it (x_curr_restart_idx it) \<longleftrightarrow> j mod iv = 0"
    using idx
  proof
    assume "x_curr_restart_idx it = j div iv"
    then have "ix_RestartOffset it (x_curr_restart_idx it) = ix.off iv es (j div iv * iv)"
      using ix_on_RestartOffset [OF on, of "j div iv"] jd lo by simp
    then show ?thesis by (simp add: off) (metis add.right_neutral add_left_cancel div_mult_mod_eq)
  next
    assume k: "j mod iv \<noteq> 0 \<and> j div iv + 1 < ?nr \<and> x_curr_restart_idx it = j div iv + 1"
    have "j < (j div iv + 1) * iv" using iv by (metis Suc_eq_plus1 div_less_iff_less_mult lessI)
    then show ?thesis using k ix_on_RestartOffset [OF on, of "j div iv + 1"] lo by (simp add: off)
  qed
  have sh: "?sh \<le> length ?key" "?sh \<le> length (x_key it)" "take ?sh (x_key it) = take ?sh ?key"
    using common_prefix_le [of ?k ?key] common_prefix_take [of ?k ?key] pos
    by (auto simp: ix_prev_key_def ix_at_def split: if_splits)
  have "?sh < 2 ^ 32" "length ?key - ?sh < 2 ^ 32" using ix_fits [OF on j] sh(1) by simp_all
  note u = this [THEN unat_of_nat_32]
  have "ix_region_from it (x_curr_offset it) = ix_enc ?k ?p (es ! j) @ ?rest"
    using ix_on_region [OF on, of j] j by (simp add: off ix.blocks_Cons ix_enc_at_def)
  then have dec: "ix_DecodeEntry (ix_region_from it (x_curr_offset it)) =
      Some (of_nat ?sh, of_nat (length ?key - ?sh), drop ?sh ?key @ EncodeVarint32 ?v @ ?rest)"
    by (simp add: ix_enc_def Let_def ix_DecodeEntry_Encode)
  have var: "GetVarint32Ptr (drop (unat (of_nat (length ?key - ?sh) :: uint32)) (drop ?sh ?key @ EncodeVarint32 ?v @ ?rest))
      = Some (?v, ?rest)"
    by (simp add: u)
  have a: "x_curr_offset it < x_restart_offset it" "15 \<le> x_curr_offset it"
    using j ix.base_le_off [of iv es j] by (simp_all add: off ro)
  have shl: "unat (of_nat ?sh :: uint32) \<le> length (x_key it)" using sh(2) by (simp add: u)
  have co: "x_restart_offset it - length ?rest = ix.off iv es (Suc j)"
    using ix.off_suffix [of "Suc j" ?n iv es] j by (simp add: ro)
  have "unat ?id < 2 ^ 31" "unat ?p < 2 ^ 31"
    using ids j by (auto simp: ix_ids_ok_def ix_prev_id_def)
  then have delta: "DecodeInt32Delta ?v = ?id - ?p" by (intro DecodeInt32Delta_Encode id_diff)
  have key: "take ?sh (x_key it) @ take (length ?key - ?sh) (drop ?sh ?key @ x) = ?key" for x
    using sh by simp
  have id: "(if j mod iv = 0 then ?id - ?p else x_page_id it + (?id - ?p)) = ?id"
    using pos by (auto simp: ix_prev_id_def ix_at_def)
  define i' where "i' = (if x_curr_restart_idx it + 1 < x_restart_num it
      \<and> ix_RestartOffset it (x_curr_restart_idx it + 1) \<le> ix.off iv es (Suc j)
      then x_curr_restart_idx it + 1 else x_curr_restart_idx it)"
  define it' where "it' = it\<lparr>x_curr_offset := ix.off iv es (Suc j), x_curr_restart_idx := i',
      x_key := ?key, x_page_id := ?id\<rparr>"
  have "ix_ParseNextKey it = (True, it')"
    unfolding ix_ParseNextKey_decoded [OF a dec shl var] is_restart co delta id it'_def i'_def u key by simp
  moreover have "ix_at iv leaf p0 es (Suc j) it'"
    using on j ix_next_idx [OF on j idx i'_def] by (simp add: ix_at_def it'_def ix_on_def)
  moreover have "x_key it' = ?key" "x_page_id it' = ?id" "x_page it' = x_page it" by (simp_all add: it'_def)
  ultimately show thesis by (rule that)
qed

lemma ix_parse_leftmost:
  assumes "ix_on iv leaf p0 es it" "x_curr_offset it = 11"
  shows "\<exists>it'. ix_ParseNextKey it = (True, it') \<and> ix_at iv leaf p0 es 0 it' \<and> x_key it' = [] \<and> x_page_id it' = p0"
  using assms ix.base_le_off [of iv es "length es"]
  by (auto simp: ix_ParseNextKey_def ix_at_def ix_on_def ix_layout_def)

lemma ix_at_HasNext: "ix_at iv leaf p0 es j it \<Longrightarrow> ix_HasNext it \<longleftrightarrow> j < length es"
  by (simp add: ix_at_def ix_on_def ix_HasNext_def)

lemma ix_ReadEntries_at:
  assumes "ix_ids_ok es"
  shows "ix_at iv leaf p0 es j it \<Longrightarrow> length es \<le> j + n \<Longrightarrow> ix_ReadEntries n it = drop j es"
proof (induction n arbitrary: it j)
  case (Suc n)
  show ?case
  proof (cases "j < length es")
    case True
    obtain it' where it': "ix_ParseNextKey it = (True, it')" "ix_at iv leaf p0 es (Suc j) it'"
      "x_key it' = fst (es ! j)" "x_page_id it' = snd (es ! j)"
      by (rule ix_parse_step [OF Suc.prems(1) True assms])
    then have "ix_ReadEntries n it' = drop (Suc j) es" using Suc by simp
    then show ?thesis
      using it' True ix_at_HasNext [OF Suc.prems(1)] by (simp add: ix_Next_def Cons_nth_drop_Suc [symmetric])
  next
    case False
    then show ?thesis using ix_at_HasNext [OF Suc.prems(1)] by simp
  qed
qed (simp add: ix_at_def)

lemma ix_ReadEntries_new:
  assumes "ix_layout iv leaf p0 es page" "ix_ids_ok es" "length es < n"
  shows "ix_ReadEntries n (IndexPageIter_new page) = ([], p0) # es"
proof -
  let ?it = "IndexPageIter_new page"
  obtain m where n: "n = Suc m" using assms(3) by (cases n) auto
  have o: "x_curr_offset ?it = 11" by (simp add: IndexPageIter_new_def)
  obtain it' where it': "ix_ParseNextKey ?it = (True, it')" "ix_at iv leaf p0 es 0 it'" "x_key it' = []" "x_page_id it' = p0"
    using ix_parse_leftmost [OF ix_on_new [OF assms(1)] o] by auto
  have "ix_HasNext ?it"
    using ix_on_new [OF assms(1)] ix.base_le_off [of iv es "length es"] by (simp add: ix_HasNext_def o ix_on_def)
  then show ?thesis
    using it' ix_ReadEntries_at [OF assms(2) it'(2), of m] assms(3) by (simp add: n ix_Next_def)
qed

section \<open>Searching a page\<close>

definition ix_sorted :: "IndexEntry list \<Rightarrow> bool" where
  "ix_sorted es \<longleftrightarrow> sorted_wrt (<) (map fst es) \<and> [] \<notin> set (map fst es)"

lemma ix_sorted_nth: "ix_sorted es \<Longrightarrow> i < j \<Longrightarrow> j < length es \<Longrightarrow> fst (es ! i) < fst (es ! j)"
  by (simp add: ix_sorted_def sorted_wrt_map sorted_wrt_iff_nth_less)

lemma ix_sorted_below:
  assumes "ix_sorted es" "i < j" "j \<le> length es" "fst (es ! (j - 1)) \<le> key"
  shows "fst (es ! i) \<le> key"
proof (cases "i = j - 1")
  case False
  then have "fst (es ! i) < fst (es ! (j - 1))" using assms by (intro ix_sorted_nth) linarith+
  then show ?thesis using assms(4) by simp
qed (use assms in simp)

text \<open>The number of entries whose key is not above the search key.\<close>

definition ix_rank :: "IndexEntry list \<Rightarrow> bytes \<Rightarrow> nat" where
  "ix_rank es key = length (takeWhile (\<lambda>e. fst e \<le> key) es)"

lemma ix_rank_eqI:
  assumes "j \<le> length es" "\<And>i. i < j \<Longrightarrow> fst (es ! i) \<le> key" "j < length es \<Longrightarrow> key < fst (es ! j)"
  shows "ix_rank es key = j"
  unfolding ix_rank_def
  using assms by (subst takeWhile_eq_take_P_nth [of j]) (auto simp: not_le min_def)

text \<open>The child for a key: the pointer of the last entry not above it, or the leftmost pointer.\<close>

definition child_for :: "PageId \<Rightarrow> IndexEntry list \<Rightarrow> bytes \<Rightarrow> PageId" where
  "child_for p0 es key = (let g = ix_rank es key in if g = 0 then p0 else snd (es ! (g - 1)))"

lemma ix_pivot:
  assumes on: "ix_on iv leaf p0 es it" and i: "i < length (ix_offs iv es)"
  obtains rest where "ix_DecodeEntry (ix_region_from it (ix_RestartOffset it i)) = Some (0, of_nat (length (fst (es ! (i * iv)))), fst (es ! (i * iv)) @ rest)"
    "i * iv < length es" "length (fst (es ! (i * iv))) < 2 ^ 16"
proof -
  have iv: "0 < iv" using on by (simp add: ix_on_def ix_layout_def)
  let ?j = "i * iv"
  have j: "?j < length es"
    using i num_regions_mult(2) [OF iv, of i "length es"] by (auto simp: ix_offs_def split: if_splits)
  have k: "ix_prev_key iv es ?j = []" by (simp add: ix_prev_key_def)
  have "ix_region_from it (ix_RestartOffset it i)
      = ix_enc [] (ix_prev_id iv es ?j) (es ! ?j) @ ix.blocks iv es (Suc ?j) (length es)"
    using ix_on_region [OF on] j by (simp add: ix_on_RestartOffset [OF on i] ix.blocks_Cons ix_enc_at_def k)
  then show thesis
    using that j ix_fits [OF on j] by (auto simp: ix_enc_def Let_def ix_DecodeEntry_Encode)
qed

lemma ix_Search_loop_spec:
  assumes on: "ix_on iv leaf p0 es it" and sorted: "ix_sorted es"
    and lo: "\<And>i. int i \<le> right - int cnt \<Longrightarrow> i < length (ix_offs iv es) \<Longrightarrow> fst (es ! (i * iv)) \<le> key"
    and hi: "\<And>i. right < int i \<Longrightarrow> i < length (ix_offs iv es) \<Longrightarrow> key < fst (es ! (i * iv))"
    and b: "right < int (length (ix_offs iv es))" "- 1 \<le> right - int cnt"
  shows "\<exists>r. ix_Search_loop it key right cnt = Some r \<and> - 1 \<le> r \<and> r < int (length (ix_offs iv es))
    \<and> (\<forall>i. int i \<le> r \<longrightarrow> fst (es ! (i * iv)) \<le> key)
    \<and> (\<forall>i. r < int i \<and> i < length (ix_offs iv es) \<longrightarrow> key < fst (es ! (i * iv)))"
  using lo hi b
proof (induction cnt arbitrary: right rule: less_induct)
  case (less cnt)
  let ?nr = "length (ix_offs iv es)"
  have iv: "0 < iv" using on by (simp add: ix_on_def ix_layout_def)
  show ?case
  proof (cases "0 < cnt")
    case False
    then show ?thesis using less.prems by (subst ix_Search_loop.simps) auto
  next
    case True
    let ?mid = "right - int (cnt div 2)"
    have mid: "0 \<le> ?mid" "nat ?mid < ?nr" "int (nat ?mid) = ?mid" using less.prems(3,4) True by linarith+
    obtain rest where piv: "ix_DecodeEntry (ix_region_from it (ix_RestartOffset it (nat ?mid)))
        = Some (0, of_nat (length (fst (es ! (nat ?mid * iv)))), fst (es ! (nat ?mid * iv)) @ rest)"
      "nat ?mid * iv < length es" "length (fst (es ! (nat ?mid * iv))) < 2 ^ 16"
      by (rule ix_pivot [OF on mid(2)])
    have pk: "take (unat (of_nat (length (fst (es ! (nat ?mid * iv)))) :: uint32)) (fst (es ! (nat ?mid * iv)) @ rest)
        = fst (es ! (nat ?mid * iv))"
      using piv(3) by (simp add: unat_of_nat_32)
    have inner: "i * iv < length es" if "i < ?nr" for i
      using that num_regions_mult(2) [OF iv, of i "length es"] by (auto simp: ix_offs_def split: if_splits)
    have mono: "fst (es ! (i * iv)) \<le> fst (es ! (k * iv))" if "i \<le> k" "k < ?nr" for i k
      using that ix_sorted_nth [OF sorted, of "i * iv" "k * iv"] inner [OF that(2)] iv by (cases "i = k") (auto intro: less_imp_le)
    show ?thesis
    proof (cases "key < fst (es ! (nat ?mid * iv))")
      case above: True
      have "ix_Search_loop it key right cnt = ix_Search_loop it key (?mid - 1) (cnt - (cnt div 2 + 1))"
        using True piv(1) pk above by (subst ix_Search_loop.simps) (simp add: Let_def)
      moreover have "key < fst (es ! (i * iv))" if "?mid - 1 < int i" "i < ?nr" for i
      proof -
        have "nat ?mid \<le> i" using that(1) by linarith
        from mono [OF this that(2)] show ?thesis by (rule less_le_trans [OF above])
      qed
      moreover have "?mid - 1 - int (cnt - (cnt div 2 + 1)) = right - int cnt" using True by linarith
      ultimately show ?thesis
        using less.IH [of "cnt - (cnt div 2 + 1)" "?mid - 1"] less.prems True by simp
    next
      case below: False
      have "ix_Search_loop it key right cnt = ix_Search_loop it key right (cnt div 2)"
        using True piv(1) pk below by (subst ix_Search_loop.simps) (simp add: Let_def)
      moreover have "fst (es ! (i * iv)) \<le> key" if "int i \<le> right - int (cnt div 2)" "i < ?nr" for i
      proof -
        have "i \<le> nat ?mid" using that(1) by linarith
        from mono [OF this mid(2)] show ?thesis using below by (meson linorder_not_less order_trans)
      qed
      ultimately show ?thesis
        using less.IH [of "cnt div 2" right] less.prems(2,3) mid True by simp
    qed
  qed
qed

text \<open>The iterator stands on the last entry that is not above the key, or on the leftmost pointer.\<close>

definition ix_stands :: "nat \<Rightarrow> bool \<Rightarrow> PageId \<Rightarrow> IndexEntry list \<Rightarrow> nat \<Rightarrow> IndexPageIter \<Rightarrow> bool" where
  "ix_stands iv leaf p0 es g it \<longleftrightarrow> ix_at iv leaf p0 es g it
    \<and> (x_key it, x_page_id it) = (if g = 0 then ([], p0) else es ! (g - 1))"

lemma ix_restore_simps: "x_key (ix_restore (os, k, p) it) = k" "x_page_id (ix_restore (os, k, p) it) = p"
  by (simp_all add: ix_restore_def)

lemma ix_restored_idx:
  assumes at: "ix_at iv leaf p0 es (Suc j) it1" and r: "r * iv < j" "j < (r + 1) * iv"
    and it: "ix_at iv leaf p0 es j it"
  shows "ix_at iv leaf p0 es j (ix_restore (x_curr_offset it, x_key it, x_page_id it) it1)"
proof -
  let ?nr = "num_regions iv (length es)"
  have on: "ix_on iv leaf p0 es it1" using at by (simp add: ix_at_def)
  have "j div iv = r"
    using r by (metis Suc_eq_plus1 div_nat_eqI less_or_eq_imp_le mult.commute mult_Suc_right)
  then have jm: "j mod iv \<noteq> 0" using r(1) by (metis add.right_neutral div_mult_mod_eq less_irrefl)
  have "x_curr_restart_idx it1 = min (j div iv) (?nr - 1)
      \<or> j mod iv \<noteq> 0 \<and> j div iv + 1 < ?nr \<and> x_curr_restart_idx it1 = j div iv + 1"
  proof (cases "Suc j mod iv = 0")
    case True
    then have "x_curr_restart_idx it1 = min (j div iv + 1) (?nr - 1)" using at by (simp add: ix_at_def div_Suc)
    then show ?thesis using jm by linarith
  next
    case False
    then have "Suc j div iv = j div iv" by (simp add: div_Suc)
    then show ?thesis using at jm by (auto simp: ix_at_def)
  qed
  then show ?thesis using it on by (simp add: ix_at_def ix_restore_def ix_on_def)
qed

lemma ix_SeekLoop_spec:
  assumes "ix_stands iv leaf p0 es j it" "r * iv < j" "j \<le> m" "m \<le> (r + 1) * iv" "m \<le> length es"
    and "fst (es ! (j - 1)) < key" "m < length es \<Longrightarrow> key < fst (es ! m)"
    and "ix_sorted es" "ix_ids_ok es"
  shows "\<exists>it'. ix_SeekLoop key (ix.off iv es m) (x_curr_offset it, x_key it, x_page_id it) it = Some it'
      \<and> ix_stands iv leaf p0 es (ix_rank es key) it'"
  using assms
proof (induction "m - j" arbitrary: it j)
  case 0
  then have jm: "j = m" by simp
  have below: "fst (es ! i) \<le> key" if "i < j" for i
    using ix_sorted_below [OF "0.prems"(8) that] "0.prems"(5,6) jm by simp
  have off: "x_curr_offset it = ix.off iv es m" using "0.prems"(1) jm by (simp add: ix_stands_def ix_at_def)
  have rank: "ix_rank es key = m" using below "0.prems"(5,7) jm by (intro ix_rank_eqI) auto
  have "ix_SeekLoop key (ix.off iv es m) (x_curr_offset it, x_key it, x_page_id it) it = Some it"
    using off by (subst ix_SeekLoop.simps) (simp add: ix_restore_def)
  then show ?case using "0.prems"(1) jm rank by simp
next
  case (Suc d)
  then have j: "j < m" "j < length es" "j < (r + 1) * iv" by linarith+
  have at: "ix_at iv leaf p0 es j it" using Suc.prems(1) by (simp add: ix_stands_def)
  obtain it1 where it1: "ix_ParseNextKey it = (True, it1)" "ix_at iv leaf p0 es (Suc j) it1"
    "x_key it1 = fst (es ! j)" "x_page_id it1 = snd (es ! j)"
    by (rule ix_parse_step [OF at j(2) Suc.prems(9)])
  have st1: "ix_stands iv leaf p0 es (Suc j) it1" using it1 by (simp add: ix_stands_def)
  have off: "x_curr_offset it < ix.off iv es m" using at j by (simp add: ix_at_def)
  have below: "fst (es ! i) \<le> key" if "i < j" for i
    using ix_sorted_below [OF Suc.prems(8) that] Suc.prems(6) j by simp
  consider "key < fst (es ! j)" | "key = fst (es ! j)" | "fst (es ! j) < key" by fastforce
  then show ?case
  proof cases
    case 1
    then have "ix_SeekLoop key (ix.off iv es m) (x_curr_offset it, x_key it, x_page_id it) it
        = Some (ix_restore (x_curr_offset it, x_key it, x_page_id it) it1)"
      using off it1(1,3) by (subst ix_SeekLoop.simps) (simp add: Let_def)
    moreover have "ix_rank es key = j" using 1 below j by (intro ix_rank_eqI) auto
    moreover have "ix_stands iv leaf p0 es j (ix_restore (x_curr_offset it, x_key it, x_page_id it) it1)"
      using ix_restored_idx [OF it1(2) Suc.prems(2) j(3) at] Suc.prems(1)
      unfolding ix_stands_def ix_restore_simps by blast
    ultimately show ?thesis by simp
  next
    case 2
    then have "ix_SeekLoop key (ix.off iv es m) (x_curr_offset it, x_key it, x_page_id it) it = Some it1"
      using off it1(1,3) by (subst ix_SeekLoop.simps) (simp add: Let_def)
    moreover have "ix_rank es key = Suc j"
      using 2 below j ix_sorted_nth [OF Suc.prems(8), of j "Suc j"] by (intro ix_rank_eqI) (auto simp: less_Suc_eq)
    ultimately show ?thesis using st1 by simp
  next
    case 3
    then have "ix_SeekLoop key (ix.off iv es m) (x_curr_offset it, x_key it, x_page_id it) it
        = ix_SeekLoop key (ix.off iv es m) (x_curr_offset it1, x_key it1, x_page_id it1) it1"
      using off it1(1,3) order_less_imp_not_less [OF 3] by (subst ix_SeekLoop.simps) (auto simp: Let_def)
    then show ?thesis
      using Suc.hyps(1) [of "Suc j" it1] Suc.hyps(2) st1 j Suc.prems 3 by simp
  qed
qed

lemma ix_at_restart:
  assumes "ix_on iv leaf p0 es it" "i < length (ix_offs iv es)"
  shows "ix_at iv leaf p0 es (i * iv) (ix_SeekToRestart it i)"
proof -
  have iv: "0 < iv" using assms by (simp add: ix_on_def ix_layout_def)
  have i: "i < num_regions iv (length es)" using assms(2) by (auto simp: ix_offs_def split: if_splits)
  show ?thesis
    using assms i iv num_regions_mult(1) [OF iv i] ix_on_RestartOffset [OF assms]
    by (simp add: ix_at_def ix_SeekToRestart_def ix_on_def)
qed

lemma ix_SeekRegion_spec:
  assumes on: "ix_on iv leaf p0 es it" and sorted: "ix_sorted es" and ids: "ix_ids_ok es"
    and r: "- 1 \<le> r" "r < int (length (ix_offs iv es))"
    and lo: "\<And>i. int i \<le> r \<Longrightarrow> fst (es ! (i * iv)) \<le> key"
    and hi: "\<And>i. r < int i \<Longrightarrow> i < length (ix_offs iv es) \<Longrightarrow> key < fst (es ! (i * iv))"
  shows "\<exists>it'. ix_SeekRegion key r it = Some it' \<and> ix_stands iv leaf p0 es (ix_rank es key) it'"
proof (cases "r < 0")
  case True
  let ?it = "it\<lparr>x_curr_offset := 11, x_curr_restart_idx := 0\<rparr>"
  have "ix_on iv leaf p0 es ?it" using on by (simp add: ix_on_def)
  from ix_parse_leftmost [OF this] obtain it' where it': "ix_ParseNextKey ?it = (True, it')" "ix_at iv leaf p0 es 0 it'"
    "x_key it' = []" "x_page_id it' = p0" by auto
  have "key < fst (es ! 0)" if "es \<noteq> []"
    using hi [of 0] True that by (simp add: ix_offs_def num_regions_def)
  then have "ix_rank es key = 0" by (intro ix_rank_eqI) auto
  then show ?thesis using it' True by (simp add: ix_SeekRegion_def ix_stands_def)
next
  case False
  then obtain c where c: "r = int c" by (metis linorder_not_less nonneg_int_cases)
  have iv: "0 < iv" using on by (simp add: ix_on_def ix_layout_def)
  have cn: "c < length (ix_offs iv es)" using r(2) c by simp
  have nr: "length (ix_offs iv es) = num_regions iv (length es)" "es \<noteq> []"
    using cn by (auto simp: ix_offs_def split: if_splits)
  have lt: "c * iv < length es" using num_regions_mult(2) [OF iv, of c "length es"] cn nr by simp
  obtain it1 where it1: "ix_ParseNextKey (ix_SeekToRestart it c) = (True, it1)" "ix_at iv leaf p0 es (Suc (c * iv)) it1"
    "x_key it1 = fst (es ! (c * iv))" "x_page_id it1 = snd (es ! (c * iv))"
    by (rule ix_parse_step [OF ix_at_restart [OF on cn] lt ids])
  have st1: "ix_stands iv leaf p0 es (Suc (c * iv)) it1" using it1 by (simp add: ix_stands_def)
  have below: "fst (es ! i) \<le> key" if "i < Suc (c * iv)" for i
    using that lo [of c] ix_sorted_nth [OF sorted, of i "c * iv"] lt c by (cases "i = c * iv") auto
  show ?thesis
  proof (cases "fst (es ! (c * iv)) = key")
    case True
    then have "ix_rank es key = Suc (c * iv)"
      using below lt ix_sorted_nth [OF sorted, of "c * iv" "Suc (c * iv)"] by (intro ix_rank_eqI) auto
    then show ?thesis using it1 st1 True False c by (simp add: ix_SeekRegion_def)
  next
    case ne: False
    define m where "m = min ((c + 1) * iv) (length es)"
    have on1: "ix_on iv leaf p0 es it1" using it1(2) by (simp add: ix_at_def)
    have rn: "x_restart_num it1 = num_regions iv (length es)" "x_restart_offset it1 = ix.off iv es (length es)"
      using on1 nr by (simp_all add: ix_on_def)
    have lim: "(if r < int (x_restart_num it1) - 1 then ix_RestartOffset it1 (nat r + 1) else x_restart_offset it1) = ix.off iv es m"
    proof (cases "c + 1 < num_regions iv (length es)")
      case True
      then have "(c + 1) * iv < length es" using num_regions_mult(2) [OF iv True] nr by simp
      then show ?thesis using True c rn nr ix_on_RestartOffset [OF on1, of "c + 1"] by (simp add: m_def)
    next
      case False
      then have "length es \<le> (c + 1) * iv"
        using num_regions_cover [OF iv, of "length es"] by (meson dual_order.trans linorder_not_less mult_le_mono1)
      then show ?thesis using False c rn by (simp add: m_def min_def)
    qed
    have last: "key < fst (es ! m)" if "m < length es"
    proof -
      have m: "m = (c + 1) * iv" using that by (simp add: m_def min_def split: if_splits)
      have "c + 1 < num_regions iv (length es)"
        using that num_regions_cover [OF iv, of "length es"] m by (metis leD leI mult_le_mono1 order_less_le_trans)
      then show ?thesis using hi [of "c + 1"] c nr m by simp
    qed
    have lt1: "fst (es ! (c * iv)) < key" using below [of "c * iv"] ne by simp
    have "\<exists>it'. ix_SeekLoop key (ix.off iv es m) (x_curr_offset it1, x_key it1, x_page_id it1) it1 = Some it'
      \<and> ix_stands iv leaf p0 es (ix_rank es key) it'"
      by (rule ix_SeekLoop_spec [OF st1, of c]) (use lt lt1 iv sorted ids last in \<open>auto simp: m_def\<close>)
    moreover have "ix_SeekRegion key r it
        = ix_SeekLoop key (ix.off iv es m) (x_curr_offset it1, x_key it1, x_page_id it1) it1"
      unfolding ix_SeekRegion_def Let_def using it1(1,3) ne False c
      by (subst lim [symmetric]) simp
    ultimately show ?thesis by simp
  qed
qed

text \<open>\<open>Seek\<close> from a new iterator, and from one that an earlier \<open>Seek\<close> or \<open>Next\<close> has moved.\<close>

lemma ix_Seek_spec:
  assumes on: "ix_on iv leaf p0 es it" and sorted: "ix_sorted es" and ids: "ix_ids_ok es"
    and it: "x_key it = [] \<or> ix_stands iv leaf p0 es j it"
  shows "\<exists>it'. ix_Seek key it = Some it' \<and> ix_stands iv leaf p0 es (ix_rank es key) it'"
proof (cases "x_key it = []")
  case True
  have rn: "x_restart_num it = length (ix_offs iv es)" using on by (simp add: ix_on_def)
  let ?r = "int (length (ix_offs iv es)) - 1"
  obtain r where r: "ix_Search_loop it key ?r (length (ix_offs iv es)) = Some r" "- 1 \<le> r" "r < int (length (ix_offs iv es))"
    "\<forall>i. int i \<le> r \<longrightarrow> fst (es ! (i * iv)) \<le> key"
    "\<forall>i. r < int i \<and> i < length (ix_offs iv es) \<longrightarrow> key < fst (es ! (i * iv))"
    using ix_Search_loop_spec [OF on sorted, of ?r "length (ix_offs iv es)" key] by auto
  have "ix_Seek key it = ix_SeekRegion key r it"
    using True r(1) by (simp add: ix_Seek_def Let_def rn)
  then show ?thesis using ix_SeekRegion_spec [OF on sorted ids r(2,3), of key] r(4,5) by auto
next
  case False
  then have st: "ix_stands iv leaf p0 es j it" using it by simp
  let ?nr = "length (ix_offs iv es)" and ?i = "x_curr_restart_idx it" and ?k = "fst (es ! (j - 1))"
  have iv: "0 < iv" using on by (simp add: ix_on_def ix_layout_def)
  have j0: "0 < j" using st False by (auto simp: ix_stands_def split: if_splits)
  then have "(x_key it, x_page_id it) = es ! (j - 1)" using st by (simp add: ix_stands_def)
  from arg_cong [OF this, of fst] have jk: "x_key it = ?k" by simp
  have at: "ix_at iv leaf p0 es j it" and jl: "j \<le> length es" using st by (auto simp: ix_stands_def ix_at_def)
  have nr: "?nr = num_regions iv (length es)" "x_restart_num it = ?nr" using j0 jl on by (auto simp: ix_offs_def ix_on_def)
  have nr0: "0 < ?nr" using nr by (simp add: num_regions_def)
  have idx: "?i < ?nr" using at nr0 nr(1) by (auto simp: ix_at_def min_def)
  have inner: "i * iv < length es" if "i < ?nr" for i
    using that num_regions_mult(2) [OF iv, of i "length es"] nr(1) order_less_le_trans [OF j0 jl] by simp
  have jd: "j div iv * iv \<le> j" "j < (j div iv + 1) * iv"
    using iv by (simp, metis Suc_eq_plus1 div_less_iff_less_mult lessI)
  have before: "i * iv \<le> j - 1" if i: "i < ?i" for i
  proof -
    consider "i < j div iv" | "i = j div iv" "j mod iv \<noteq> 0" using at i by (auto simp: ix_at_def less_Suc_eq)
    then show ?thesis
    proof cases
      case 1
      then have "(i + 1) * iv \<le> j div iv * iv" by (intro mult_le_mono1) simp
      then have "(i + 1) * iv \<le> j" using jd(1) by (rule le_trans)
      then show ?thesis using iv by simp
    next
      case 2
      then have "i * iv \<noteq> j" by (metis mod_mult_self2_is_0)
      moreover have "i * iv \<le> j" using jd(1) 2(1) by simp
      ultimately show ?thesis by linarith
    qed
  qed
  have after: "j \<le> i * iv" if i: "?i < i" "i < ?nr" for i
  proof -
    have "?i = min (j div iv) (num_regions iv (length es) - 1) \<or> ?i = j div iv + 1" using at by (auto simp: ix_at_def)
    then have "j div iv + 1 \<le> i" using i nr(1) by linarith
    then have "(j div iv + 1) * iv \<le> i * iv" by (rule mult_le_mono1)
    then show ?thesis using jd(2) by simp
  qed
  have pref: "fst (es ! i) \<le> ?k" if "i \<le> j - 1" for i
    using ix_sorted_below [OF sorted _ jl order_refl, of i] that j0 by simp
  have suff: "?k \<le> fst (es ! i)" if "j - 1 \<le> i" "i < length es" for i
    using that ix_sorted_nth [OF sorted, of "j - 1" i] by (cases "i = j - 1") auto
  have fin: "\<exists>it'. ix_SeekRegion key r it = Some it' \<and> ix_stands iv leaf p0 es (ix_rank es key) it'"
    if "- 1 \<le> r \<and> r < int ?nr \<and> (\<forall>i. int i \<le> r \<longrightarrow> fst (es ! (i * iv)) \<le> key)
      \<and> (\<forall>i. r < int i \<and> i < ?nr \<longrightarrow> key < fst (es ! (i * iv)))" for r
    using that by (intro ix_SeekRegion_spec [OF on sorted ids]) auto
  consider "?k = key" | "?k < key" | "key < ?k" by fastforce
  then show ?thesis
  proof cases
    case 1
    then have "ix_rank es key = j"
      using pref j0 jl ix_sorted_nth [OF sorted, of "j - 1" j] by (intro ix_rank_eqI) auto
    then show ?thesis using False j0 jk 1 st by (simp add: ix_Seek_def)
  next
    case 2
    have lo: "fst (es ! (i * iv)) \<le> key" if "i < ?i" for i
      using pref [OF before [OF that]] 2 by simp
    have "\<exists>r. ix_Search_loop it key (int ?nr - 1) (nat (int ?nr - 1 - int ?i + 1)) = Some r \<and> - 1 \<le> r \<and> r < int ?nr
        \<and> (\<forall>i. int i \<le> r \<longrightarrow> fst (es ! (i * iv)) \<le> key) \<and> (\<forall>i. r < int i \<and> i < ?nr \<longrightarrow> key < fst (es ! (i * iv)))"
      by (rule ix_Search_loop_spec [OF on sorted]) (use lo idx in auto)
    then obtain r where r: "ix_Search_loop it key (int ?nr - 1) (nat (int ?nr - 1 - int ?i + 1)) = Some r"
      "- 1 \<le> r \<and> r < int ?nr \<and> (\<forall>i. int i \<le> r \<longrightarrow> fst (es ! (i * iv)) \<le> key)
        \<and> (\<forall>i. r < int i \<and> i < ?nr \<longrightarrow> key < fst (es ! (i * iv)))" by blast
    have "ix_Seek key it = ix_SeekRegion key r it"
      using False 2 j0 jk r(1) nr(2) order_less_imp_not_less [OF 2] by (auto simp: ix_Seek_def Let_def)
    then show ?thesis using fin [OF r(2)] by simp
  next
    case 3
    have hi: "key < fst (es ! (i * iv))" if "?i < i" "i < ?nr" for i
      using suff [of "i * iv"] after [OF that] inner [OF that(2)] 3 by (meson diff_le_self le_trans less_le_trans)
    have "\<exists>r. ix_Search_loop it key (int ?i) (nat (int ?i - 0 + 1)) = Some r \<and> - 1 \<le> r \<and> r < int ?nr
        \<and> (\<forall>i. int i \<le> r \<longrightarrow> fst (es ! (i * iv)) \<le> key) \<and> (\<forall>i. r < int i \<and> i < ?nr \<longrightarrow> key < fst (es ! (i * iv)))"
      by (rule ix_Search_loop_spec [OF on sorted]) (use hi idx in auto)
    then obtain r where r: "ix_Search_loop it key (int ?i) (nat (int ?i - 0 + 1)) = Some r"
      "- 1 \<le> r \<and> r < int ?nr \<and> (\<forall>i. int i \<le> r \<longrightarrow> fst (es ! (i * iv)) \<le> key)
        \<and> (\<forall>i. r < int i \<and> i < ?nr \<longrightarrow> key < fst (es ! (i * iv)))" by blast
    have "ix_Seek key it = ix_SeekRegion key r it"
      using False 3 j0 jk r(1) order_less_imp_not_less [OF 3] by (auto simp: ix_Seek_def Let_def)
    then show ?thesis using fin [OF r(2)] by simp
  qed
qed

section \<open>Termination on every page\<close>

text \<open>The linear search makes progress on any bytes, so that \<open>Seek\<close> returns also on a damaged page.\<close>

lemma GetVarint32Ptr_shorter: "GetVarint32Ptr p = Some (v, q) \<Longrightarrow> length q < length p"
proof -
  have "GetVarint32PtrFallback_loop k r p = Some (v, q) \<Longrightarrow> length q < length p" for k r
    by (induction k r p rule: GetVarint32PtrFallback_loop.induct)
      (subst (asm) (2) GetVarint32PtrFallback_loop.simps, auto simp: Let_def neq_Nil_conv split: if_splits)
  then show "GetVarint32Ptr p = Some (v, q) \<Longrightarrow> length q < length p"
    by (auto simp: GetVarint32Ptr_def GetVarint32PtrFallback_def neq_Nil_conv split: if_splits)
qed

lemma ix_DecodeEntry_shorter:
  assumes "ix_DecodeEntry p = Some (a, b, q)"
  shows "length q < length p"
proof (cases "length q + 2 = length p")
  case False
  then obtain r where "GetVarint32Ptr p = Some (a, r)" "GetVarint32Ptr r = Some (b, q)"
    using assms by (auto simp: ix_DecodeEntry_def Let_def split: if_splits option.splits)
  then show ?thesis using GetVarint32Ptr_shorter order_less_trans by blast
qed simp

lemma ix_parse_progress:
  assumes "ix_ParseNextKey it = (True, it')"
  shows "x_curr_offset it < x_curr_offset it'"
proof (cases "x_curr_offset it < leftmost_ptr_offset + 4")
  case True
  then show ?thesis using assms by (auto simp: ix_ParseNextKey_def split: if_splits)
next
  case False
  then obtain a b pt v rest where d: "x_curr_offset it < x_restart_offset it"
    "ix_DecodeEntry (ix_region_from it (x_curr_offset it)) = Some (a, b, pt)"
    "GetVarint32Ptr (drop (unat b) pt) = Some (v, rest)" "x_curr_offset it' = x_restart_offset it - length rest"
    using assms by (auto simp: ix_ParseNextKey_def Let_def split: if_splits option.splits prod.splits)
  have "length rest < length (ix_region_from it (x_curr_offset it))"
    using GetVarint32Ptr_shorter [OF d(3)] ix_DecodeEntry_shorter [OF d(2)] by simp
  moreover have "length (ix_region_from it (x_curr_offset it)) \<le> x_restart_offset it - x_curr_offset it"
    by (simp add: ix_region_from_def)
  ultimately show ?thesis using d(1,4) by simp
qed

lemma ix_SeekLoop_total: "ix_SeekLoop key limit sv it \<noteq> None"
proof (induction "limit - x_curr_offset it" arbitrary: sv it rule: less_induct)
  case less
  show ?case
  proof (cases "x_curr_offset it < limit \<and> fst (ix_ParseNextKey it)")
    case True
    then obtain it' where it': "ix_ParseNextKey it = (True, it')" by (metis prod.collapse)
    have "limit - x_curr_offset it' < limit - x_curr_offset it"
      using ix_parse_progress [OF it'] True by linarith
    from less [OF this] it' show ?thesis by (subst ix_SeekLoop.simps) (simp add: Let_def)
  next
    case False
    then show ?thesis by (subst ix_SeekLoop.simps) (auto simp: Let_def split: prod.splits)
  qed
qed

lemma ix_SeekRegion_total: "ix_SeekRegion key r it \<noteq> None"
  using ix_SeekLoop_total [of key] unfolding ix_SeekRegion_def Let_def
  by (simp split: prod.split bool.split)

lemma ix_Seek_total: "ix_Seek key it \<noteq> None"
proof (cases "x_key it \<noteq> [] \<and> Compare (x_key it) key = 0")
  case True
  then show ?thesis unfolding ix_Seek_def Let_def by (simp only: if_True) simp
next
  case False
  have "(case x of None \<Rightarrow> Some a | Some r \<Rightarrow> ix_SeekRegion key r it) \<noteq> None" for x a
    using ix_SeekRegion_total by (cases x) simp_all
  with False show ?thesis unfolding ix_Seek_def Let_def by (simp only: if_False not_False_eq_True)
qed

end
