(* ===== verification/Index_Page_Props.thy ===== *)
theory Index_Page_Props
  imports Index_Page_Correct
begin

text \<open>
  The properties of index pages.
\<close>

text \<open>A page as its clients build it: the builder is reset, the leftmost pointer and the entries are added
  in order, and the page is finished.\<close>

definition built_index :: "KvOptions \<Rightarrow> bool \<Rightarrow> PageId \<Rightarrow> IndexEntry list \<Rightarrow> bytes option" where
  "built_index opts leaf p0 es =
    map_option (\<lambda>b. fst (ix_Finish b)) (ix_AddAll (ix_Reset (IndexPageBuilder_new opts)) leaf (([], p0) # es))"

lemma built_index_layout:
  assumes "valid_options opts" "built_index opts leaf p0 es = Some page"
  shows "ix_layout (index_page_restart_interval opts) leaf p0 es page" "length page = data_page_size opts"
proof -
  let ?b = "IndexPageBuilder_new opts"
  have opts: "xb_options ?b = opts" by (simp add: IndexPageBuilder_new_def)
  obtain b1 b2 where b: "ix_Add (ix_Reset ?b) [] p0 leaf = Some (True, b1)" "ix_AddAll b1 leaf es = Some b2"
    "page = fst (ix_Finish b2)"
    using assms(2) by (auto simp: built_index_def split: option.splits prod.splits bool.splits)
  have "ix_builder_inv leaf p0 b1 []" "xb_options b1 = opts"
    using ix_first_inv [OF _ b(1)] assms(1) opts by simp_all
  then have inv: "ix_builder_inv leaf p0 b2 es" "xb_options b2 = opts"
    using ix_AddAll_inv [of leaf p0 b1 "[]" es b2] b(2) by simp_all
  show "ix_layout (index_page_restart_interval opts) leaf p0 es page" "length page = data_page_size opts"
    using ix_Finish_layout [OF inv(1)] inv(2) b(3) by simp_all
qed

text \<open>C20: An index page that accepted the leftmost pointer and the entries is read back entry by entry, and
  says whether its children are data pages.\<close>

theorem index_page_roundtrip:
  assumes "valid_options opts" "built_index opts leaf p0 es = Some page" "ix_ids_ok es" "length es < n"
  shows "ix_ReadEntries n (IndexPageIter_new page) = ([], p0) # es \<and> IsPointingToLeaf page = leaf
    \<and> length page = data_page_size opts"
proof -
  note layout = built_index_layout [OF assms(1,2)]
  have "IsPointingToLeaf page = leaf"
    using layout(1) by (cases leaf) (simp_all add: ix_layout_def IsPointingToLeaf_def index_type_def)
  then show ?thesis using ix_ReadEntries_new [OF layout(1) assms(3,4)] layout(2) by simp
qed

text \<open>C6: On an index page with increasing keys, \<open>Seek\<close> returns and stands on the child whose range holds
  the key: the last entry whose key is not above it, or the leftmost pointer.  The same holds when the
  iterator is moved on by a second \<open>Seek\<close> to any other key.\<close>

theorem index_page_seek:
  assumes "valid_options opts" "built_index opts leaf p0 es = Some page" "ix_ids_ok es" "ix_sorted es"
  shows "\<exists>it. ix_Seek key (IndexPageIter_new page) = Some it \<and> x_page_id it = child_for p0 es key
    \<and> (\<exists>it'. ix_Seek key' it = Some it' \<and> x_page_id it' = child_for p0 es key')"
proof -
  let ?iv = "index_page_restart_interval opts"
  have child: "x_page_id it = child_for p0 es k" if "ix_stands ?iv leaf p0 es (ix_rank es k) it" for it k
  proof -
    have "(x_key it, x_page_id it) = (if ix_rank es k = 0 then ([], p0) else es ! (ix_rank es k - 1))"
      using that by (simp add: ix_stands_def)
    from arg_cong [OF this, of snd] show ?thesis by (simp add: child_for_def Let_def)
  qed
  have on: "ix_on ?iv leaf p0 es (IndexPageIter_new page)"
    by (rule ix_on_new [OF built_index_layout(1) [OF assms(1,2)]])
  obtain it where it: "ix_Seek key (IndexPageIter_new page) = Some it" "ix_stands ?iv leaf p0 es (ix_rank es key) it"
    using ix_Seek_spec [OF on assms(4,3), of 0 key] by (auto simp: IndexPageIter_new_def)
  then have "ix_on ?iv leaf p0 es it" by (simp add: ix_stands_def ix_at_def)
  then obtain it' where "ix_Seek key' it = Some it'" "ix_stands ?iv leaf p0 es (ix_rank es key') it'"
    using ix_Seek_spec [OF _ assms(4,3), of ?iv leaf p0 it _ key'] it(2) by blast
  then show ?thesis using it child by blast
qed


section \<open>Example\<close>

definition ex_ix_opts :: KvOptions where
  "ex_ix_opts = default_options\<lparr>data_page_size := 64, index_page_restart_interval := 2\<rparr>"

definition ex_ix_entries :: "IndexEntry list" where
  "ex_ix_entries = [([98], 7), ([98, 99], 3), ([100], 9)]"

lemma ex_ix_built: "valid_options ex_ix_opts" "ix_ids_ok ex_ix_entries" "ix_sorted ex_ix_entries"
  "\<exists>page. built_index ex_ix_opts True 5 ex_ix_entries = Some page"
proof -
  show "valid_options ex_ix_opts" by (simp add: valid_options_def ex_ix_opts_def default_options_def)
  show "ix_ids_ok ex_ix_entries" by (simp add: ix_ids_ok_def ex_ix_entries_def)
  show "ix_sorted ex_ix_entries" by (simp add: ix_sorted_def ex_ix_entries_def)
  have "built_index ex_ix_opts True 5 ex_ix_entries \<noteq> None" by code_simp
  then show "\<exists>page. built_index ex_ix_opts True 5 ex_ix_entries = Some page" by auto
qed

theorem index_page_roundtrip_witness:
  "\<exists>page. built_index ex_ix_opts True 5 ex_ix_entries = Some page
    \<and> ix_ReadEntries 4 (IndexPageIter_new page) = ([], 5) # ex_ix_entries \<and> IsPointingToLeaf page"
proof -
  obtain page where p: "built_index ex_ix_opts True 5 ex_ix_entries = Some page" using ex_ix_built(4) by blast
  show ?thesis
    using index_page_roundtrip [OF ex_ix_built(1) p ex_ix_built(2), of 4] p by (simp add: ex_ix_entries_def)
qed

theorem index_page_seek_witness:
  "\<exists>page it. built_index ex_ix_opts True 5 ex_ix_entries = Some page
    \<and> ix_Seek [99] (IndexPageIter_new page) = Some it \<and> x_page_id it = 3"
proof -
  obtain page where p: "built_index ex_ix_opts True 5 ex_ix_entries = Some page" using ex_ix_built(4) by blast
  have "child_for 5 ex_ix_entries [99] = 3" by (simp add: child_for_def ix_rank_def ex_ix_entries_def)
  then show ?thesis using index_page_seek [OF ex_ix_built(1) p ex_ix_built(2,3), of "[99]" "[1]"] p by auto
qed

end
