(* ===== verification/Io_Buffer.thy ===== *)
theory Io_Buffer
  imports Page_Layout
begin

text \<open>
  The growing, aligned buffer in which manifest records are built (\<open>include/direct_io_buffer.h\<close>,
  \<open>include/manifest_buffer.h\<close>).  The memory behind the buffer is kept with its stale bytes: a resize
  within the capacity exposes whatever an earlier record left there.  \<open>al\<close> is the page size that
  the operating system reports (\<open>page_align\<close>), a power of two, so that masking with \<open>al - 1\<close> is
  the remainder.
\<close>

record DirectIoBuffer =
  dio_data :: bytes
  dio_size :: nat

definition DirectIoBuffer_new :: DirectIoBuffer where
  "DirectIoBuffer_new = \<lparr>dio_data = [], dio_size = 0\<rparr>"

definition AlignSize :: "nat \<Rightarrow> nat \<Rightarrow> nat" where
  "AlignSize al n = (n + al - 1) div al * al"

definition EnsureCapacity :: "nat \<Rightarrow> DirectIoBuffer \<Rightarrow> nat \<Rightarrow> DirectIoBuffer" where
  "EnsureCapacity al b min_capacity =
    (let capacity = length (dio_data b) in
     if min_capacity \<le> capacity then b
     else
       let grow = (if capacity = 0 then al else capacity * 2);
           new_capacity = max (AlignSize al min_capacity) (AlignSize al grow)
       in b\<lparr>dio_data := take (dio_size b) (dio_data b) @ replicate (new_capacity - dio_size b) 0\<rparr>)"

definition dio_reserve :: "nat \<Rightarrow> DirectIoBuffer \<Rightarrow> nat \<Rightarrow> DirectIoBuffer" where
  "dio_reserve al b bytes = EnsureCapacity al b bytes"

definition dio_resize :: "nat \<Rightarrow> DirectIoBuffer \<Rightarrow> nat \<Rightarrow> DirectIoBuffer" where
  "dio_resize al b new_size = (EnsureCapacity al b new_size)\<lparr>dio_size := new_size\<rparr>"

definition dio_clear :: "DirectIoBuffer \<Rightarrow> DirectIoBuffer" where
  "dio_clear b = b\<lparr>dio_size := 0\<rparr>"

definition dio_assign :: "nat \<Rightarrow> DirectIoBuffer \<Rightarrow> bytes \<Rightarrow> DirectIoBuffer" where
  "dio_assign al b src =
    (if src = [] then dio_clear b
     else let b1 = EnsureCapacity al b (length src) in
       b1\<lparr>dio_size := length src, dio_data := write_at 0 src (dio_data b1)\<rparr>)"

definition dio_append :: "nat \<Rightarrow> DirectIoBuffer \<Rightarrow> bytes \<Rightarrow> DirectIoBuffer" where
  "dio_append al b src =
    (if src = [] then b
     else let b1 = EnsureCapacity al b (dio_size b + length src) in
       b1\<lparr>dio_data := write_at (dio_size b) src (dio_data b1), dio_size := dio_size b + length src\<rparr>)"

definition EnsureDefaultReserve :: "nat \<Rightarrow> nat \<Rightarrow> DirectIoBuffer \<Rightarrow> DirectIoBuffer" where
  "EnsureDefaultReserve al reserve b =
    (if reserve = 0 \<or> length (dio_data b) \<ge> reserve then b
     else let b1 = EnsureCapacity al b reserve in
       if dio_size b1 > reserve then b1\<lparr>dio_size := reserve\<rparr> else b1)"

definition padded_size :: "nat \<Rightarrow> DirectIoBuffer \<Rightarrow> nat" where
  "padded_size al b = (if dio_data b = [] \<or> dio_size b = 0 then 0 else AlignSize al (dio_size b))"

definition dio_view :: "DirectIoBuffer \<Rightarrow> bytes" where
  "dio_view b = take (dio_size b) (dio_data b)"

text \<open>Writing through \<open>data()\<close>.\<close>

definition dio_write :: "nat \<Rightarrow> bytes \<Rightarrow> DirectIoBuffer \<Rightarrow> DirectIoBuffer" where
  "dio_write off src b = b\<lparr>dio_data := write_at off src (dio_data b)\<rparr>"

definition AppendVarint32 :: "nat \<Rightarrow> DirectIoBuffer \<Rightarrow> uint32 \<Rightarrow> DirectIoBuffer" where
  "AppendVarint32 al b value = dio_append al b (EncodeVarint32 value)"

definition AppendVarint64 :: "nat \<Rightarrow> DirectIoBuffer \<Rightarrow> uint64 \<Rightarrow> DirectIoBuffer" where
  "AppendVarint64 al b value = dio_append al b (EncodeVarint64 value)"

definition AlignTo :: "DirectIoBuffer \<Rightarrow> nat \<Rightarrow> DirectIoBuffer" where
  "AlignTo b alignment = b\<lparr>dio_size := (dio_size b + alignment - 1) div alignment * alignment\<rparr>"

section \<open>The buffer as a byte string\<close>

definition dio_inv :: "nat \<Rightarrow> DirectIoBuffer \<Rightarrow> bool" where
  "dio_inv al b \<longleftrightarrow> 0 < al \<and> dio_size b \<le> length (dio_data b) \<and> al dvd length (dio_data b)"

lemma AlignSize_bounds:
  assumes "0 < al"
  shows "n \<le> AlignSize al n" "AlignSize al n < n + al" "al dvd AlignSize al n"
proof -
  show "al dvd AlignSize al n" by (simp add: AlignSize_def)
  have "(n + al - 1) div al * al + (n + al - 1) mod al = n + al - 1" by (rule div_mult_mod_eq)
  moreover have "(n + al - 1) mod al < al" using assms by simp
  ultimately show "n \<le> AlignSize al n" "AlignSize al n < n + al"
    unfolding AlignSize_def using assms by linarith+
qed

lemma AlignSize_least:
  assumes "0 < al" "n \<le> m" "al dvd m"
  shows "AlignSize al n \<le> m"
proof -
  obtain k where k: "m = al * k" using assms(3) by (elim dvdE)
  have "(n + al - 1) div al \<le> k"
  proof -
    have "n + al - 1 < al * (k + 1)" using assms(1,2) k by (simp add: algebra_simps)
    then have "(n + al - 1) div al < k + 1"
      by (simp add: less_mult_imp_div_less mult.commute)
    then show ?thesis by simp
  qed
  then show ?thesis using k by (simp add: AlignSize_def mult.commute)
qed

lemma EnsureCapacity_ok:
  assumes "dio_inv al b"
  shows "dio_inv al (EnsureCapacity al b n)" "n \<le> length (dio_data (EnsureCapacity al b n))"
    "dio_size (EnsureCapacity al b n) = dio_size b"
    "take (dio_size b) (dio_data (EnsureCapacity al b n)) = dio_view b"
proof -
  have al: "0 < al" "dio_size b \<le> length (dio_data b)" "al dvd length (dio_data b)"
    using assms by (auto simp: dio_inv_def)
  let ?c = "length (dio_data b)"
  let ?nc = "max (AlignSize al n) (AlignSize al (if ?c = 0 then al else ?c * 2))"
  have nc: "al dvd ?nc" "n \<le> ?nc"
    using AlignSize_bounds(3) [OF al(1)] AlignSize_bounds(1) [OF al(1), of n]
    by (simp add: max_def, simp only: le_max_iff_disj simp_thms)
  show "dio_inv al (EnsureCapacity al b n)" "n \<le> length (dio_data (EnsureCapacity al b n))"
    "dio_size (EnsureCapacity al b n) = dio_size b"
    "take (dio_size b) (dio_data (EnsureCapacity al b n)) = dio_view b"
    using al nc by (auto simp: EnsureCapacity_def dio_inv_def dio_view_def Let_def)
qed

lemma length_dio_view: "dio_inv al b \<Longrightarrow> length (dio_view b) = dio_size b"
  by (simp add: dio_view_def dio_inv_def)

lemma dio_append_ok:
  assumes "dio_inv al b"
  shows "dio_inv al (dio_append al b src)" "dio_view (dio_append al b src) = dio_view b @ src"
proof -
  let ?b = "EnsureCapacity al b (dio_size b + length src)"
  note e = EnsureCapacity_ok [OF assms, of "dio_size b + length src"]
  have i: "0 < al" "dio_size b + length src \<le> length (dio_data ?b)" "al dvd length (dio_data ?b)"
    using e by (auto simp: dio_inv_def)
  show "dio_inv al (dio_append al b src)"
    using i assms by (auto simp: dio_append_def dio_inv_def Let_def length_write_at)
  show "dio_view (dio_append al b src) = dio_view b @ src"
    using i e(4) assms by (simp add: dio_append_def dio_view_def dio_inv_def Let_def write_at_def)
qed

lemma dio_resize_ok:
  assumes "dio_inv al b"
  shows "dio_inv al (dio_resize al b n)" "length (dio_view (dio_resize al b n)) = n"
    "n \<le> dio_size b \<Longrightarrow> dio_view (dio_resize al b n) = take n (dio_view b)"
    "dio_size b \<le> n \<Longrightarrow> take (dio_size b) (dio_view (dio_resize al b n)) = dio_view b"
proof -
  note e = EnsureCapacity_ok [OF assms, of n]
  show i: "dio_inv al (dio_resize al b n)" using e by (simp add: dio_resize_def dio_inv_def)
  show "length (dio_view (dio_resize al b n)) = n"
    using length_dio_view [OF i] by (simp add: dio_resize_def)
  show "n \<le> dio_size b \<Longrightarrow> dio_view (dio_resize al b n) = take n (dio_view b)"
    unfolding e(4) [symmetric] by (simp add: dio_resize_def dio_view_def min_absorb1)
  show "dio_size b \<le> n \<Longrightarrow> take (dio_size b) (dio_view (dio_resize al b n)) = dio_view b"
    using e(4) by (simp add: dio_resize_def dio_view_def min_absorb1)
qed

lemma write_at_take:
  assumes "off + length src \<le> n" "n \<le> length p"
  shows "write_at off src (take n p) = take n (write_at off src p)"
proof -
  obtain k where n: "n = off + length src + k" using assms(1) le_iff_add by blast
  have "min (length p) off = off" using assms by simp
  then show ?thesis by (simp add: write_at_def drop_take n)
qed

lemma dio_write_ok:
  assumes "dio_inv al b" "off + length src \<le> dio_size b"
  shows "dio_inv al (dio_write off src b)" "dio_view (dio_write off src b) = write_at off src (dio_view b)"
  using assms by (simp_all add: dio_inv_def dio_write_def dio_view_def write_at_take)

lemma AlignTo_ok:
  assumes "dio_inv al b"
  shows "dio_inv al (AlignTo b al)" "length (dio_view (AlignTo b al)) = AlignSize al (dio_size b)"
    "take (dio_size b) (dio_view (AlignTo b al)) = dio_view b"
proof -
  have al: "0 < al" "dio_size b \<le> length (dio_data b)" "al dvd length (dio_data b)"
    using assms by (auto simp: dio_inv_def)
  have s: "dio_size (AlignTo b al) = AlignSize al (dio_size b)" "dio_data (AlignTo b al) = dio_data b"
    by (simp_all add: AlignTo_def AlignSize_def)
  show i: "dio_inv al (AlignTo b al)" using al AlignSize_least [OF al] by (simp add: dio_inv_def s)
  show "length (dio_view (AlignTo b al)) = AlignSize al (dio_size b)"
    using length_dio_view [OF i] s by simp
  show "take (dio_size b) (dio_view (AlignTo b al)) = dio_view b"
    using AlignSize_bounds(1) [OF al(1)] by (simp add: dio_view_def s min_absorb1)
qed

end
