(* ===== verification/Mapping_Table.thy ===== *)
theory Mapping_Table
  imports Coding "HOL-Library.AList"
begin

text \<open>
  The mapping table of a partition (\<open>MappingSnapshot\<close> and its \<open>MappingTbl\<close> in
  \<open>src/storage/page_mapper.cpp\<close> and \<open>include/storage/page_mapper.h\<close>): tagged 64-bit values in
  chunks of 512, with an overlay that collects the updates made while the table is being
  copied.

  A table holds the pool behind its chunk arena pointer (None for a null pointer); chunks taken
  from the pool keep the values they had when they were released. The memory of cached pages,
  which swizzled values point into, is the parameter \<open>heap\<close>. Out-of-range accesses and failed
  CHECKs are None.
\<close>

section \<open>Mapping values\<close>

definition TypeBits :: nat where [simp]:
  "TypeBits = 3"

definition TypeMask :: uint64 where [simp]:
  "TypeMask = 7"

datatype ValType = SwizzlingPointer | VFilePageId | VPageId | VInvalid | VOther

definition InvalidValue :: uint64 where [simp]:
  "InvalidValue = 7"

definition GetValType :: "uint64 \<Rightarrow> ValType" where
  "GetValType val =
    (let t = val AND TypeMask in
     if t = 0 then SwizzlingPointer else if t = 1 then VFilePageId
     else if t = 2 then VPageId else if t = 7 then VInvalid else VOther)"

definition IsSwizzlingPointer :: "uint64 \<Rightarrow> bool" where
  "IsSwizzlingPointer val \<longleftrightarrow> GetValType val = SwizzlingPointer"

definition IsFilePageId :: "uint64 \<Rightarrow> bool" where
  "IsFilePageId val \<longleftrightarrow> GetValType val = VFilePageId"

definition EncodeFilePageId :: "FilePageId \<Rightarrow> uint64" where
  "EncodeFilePageId file_page_id = push_bit TypeBits file_page_id OR 1"

text \<open>The page id is shifted as a 32-bit value before it is widened.\<close>

definition EncodePageId :: "PageId \<Rightarrow> uint64" where
  "EncodePageId page_id = ucast (push_bit TypeBits page_id) OR 2"

definition DecodeId :: "uint64 \<Rightarrow> uint64" where
  "DecodeId val = drop_bit TypeBits val"

section \<open>The chunk arena\<close>

type_synonym Chunk = "uint64 list"

definition kChunkShift :: nat where [simp]:
  "kChunkShift = 9"

definition kChunkSize :: nat where
  "kChunkSize = 2 ^ kChunkShift"

definition Arena_Extend :: "Chunk list \<Rightarrow> Chunk list" where
  "Arena_Extend pool = pool @ replicate 1024 (replicate kChunkSize 0)"

definition Arena_Acquire :: "Chunk list \<Rightarrow> Chunk \<times> Chunk list" where
  "Arena_Acquire pool =
    (let pool = (if pool = [] then Arena_Extend pool else pool) in (last pool, butlast pool))"

definition Arena_Release :: "Chunk \<Rightarrow> Chunk list \<Rightarrow> Chunk list" where
  "Arena_Release chunk pool = pool @ [chunk]"

section \<open>The table\<close>

record MappingTbl =
  under_copying :: bool
  changes :: "(PageId \<times> uint64) list"
  base :: "Chunk list"
  logical_size :: nat
  chunk_arena :: "Chunk list option"

definition MappingTbl_new :: "Chunk list option \<Rightarrow> MappingTbl" where
  "MappingTbl_new arena =
    \<lparr> under_copying = False, changes = [], base = [], logical_size = 0, chunk_arena = arena \<rparr>"

definition AcquireChunk :: "MappingTbl \<Rightarrow> Chunk \<times> MappingTbl" where
  "AcquireChunk t =
    (case chunk_arena t of
       None \<Rightarrow> (replicate kChunkSize 0, t)
     | Some pool \<Rightarrow>
         let (chunk, pool') = Arena_Acquire pool in (chunk, t\<lparr> chunk_arena := Some pool' \<rparr>))"

definition ReleaseChunk :: "Chunk \<Rightarrow> MappingTbl \<Rightarrow> MappingTbl" where
  "ReleaseChunk chunk t = t\<lparr> chunk_arena := map_option (Arena_Release chunk) (chunk_arena t) \<rparr>"

definition RequiredChunks :: "nat \<Rightarrow> nat" where
  "RequiredChunks n = drop_bit kChunkShift (n + kChunkSize - 1)"

fun push_chunks :: "nat \<Rightarrow> MappingTbl \<Rightarrow> MappingTbl" where
  "push_chunks 0 t = t"
| "push_chunks (Suc n) t =
    (let (chunk, t') = AcquireChunk t in push_chunks n (t'\<lparr> base := base t' @ [chunk] \<rparr>))"

definition EnsureChunkCount :: "MappingTbl \<Rightarrow> nat \<Rightarrow> MappingTbl" where
  "EnsureChunkCount t count =
    (if count \<le> length (base t) then t else push_chunks (count - length (base t)) t)"

definition ResizeInternal :: "MappingTbl \<Rightarrow> nat \<Rightarrow> bool \<Rightarrow> MappingTbl" where
  "ResizeInternal t new_size init_new_chunks =
    (if new_size = logical_size t then t
     else
       let required_chunks = RequiredChunks new_size;
           current_chunks = length (base t)
       in if new_size < logical_size t
          then
            let t = (if required_chunks < current_chunks
                     then (fold ReleaseChunk (drop required_chunks (base t)) t)
                            \<lparr> base := take required_chunks (base t) \<rparr>
                     else t)
            in t\<lparr> logical_size := new_size \<rparr>
          else
            let t = EnsureChunkCount t required_chunks;
                t = (if init_new_chunks
                     then t\<lparr> base := take current_chunks (base t)
                              @ map (\<lambda>c. replicate kChunkSize InvalidValue)
                                  (drop current_chunks (base t)) \<rparr>
                     else t)
            in t\<lparr> logical_size := new_size \<rparr>)"

definition EnsureSize :: "MappingTbl \<Rightarrow> PageId \<Rightarrow> MappingTbl" where
  "EnsureSize t page_id =
    (if unat page_id < logical_size t then t else ResizeInternal t (unat page_id + 1) True)"

definition tbl_clear :: "MappingTbl \<Rightarrow> MappingTbl" where
  "tbl_clear t =
    (fold ReleaseChunk (base t) t)
      \<lparr> base := [], changes := [], logical_size := 0, under_copying := False \<rparr>"

text \<open>The slot of a page id: the chunk index and the offset in the chunk.\<close>

definition base_put :: "MappingTbl \<Rightarrow> PageId \<Rightarrow> uint64 \<Rightarrow> MappingTbl option" where
  "base_put t page_id value =
    (let chunk_idx = drop_bit kChunkShift (unat page_id);
         chunk_offset = take_bit kChunkShift (unat page_id)
     in if chunk_idx < length (base t)
        then Some (t\<lparr> base := (base t)[chunk_idx := (base t ! chunk_idx)[chunk_offset := value]] \<rparr>)
        else None)"

definition base_get :: "MappingTbl \<Rightarrow> PageId \<Rightarrow> uint64 option" where
  "base_get t page_id =
    (let chunk_idx = drop_bit kChunkShift (unat page_id);
         chunk_offset = take_bit kChunkShift (unat page_id)
     in if chunk_idx < length (base t) then Some (base t ! chunk_idx ! chunk_offset) else None)"

definition tbl_Set :: "MappingTbl \<Rightarrow> PageId \<Rightarrow> uint64 \<Rightarrow> MappingTbl option" where
  "tbl_Set t page_id value =
    (let next_size = unat page_id + 1 in
     if under_copying t
     then Some (t\<lparr> changes := AList.update page_id value (changes t),
                   logical_size := (if logical_size t < next_size then next_size
                                    else logical_size t) \<rparr>)
     else base_put (EnsureSize t page_id) page_id value)"

definition tbl_PushBack :: "MappingTbl \<Rightarrow> uint64 \<Rightarrow> (PageId \<times> MappingTbl) option" where
  "tbl_PushBack t value =
    (let page_id = of_nat (logical_size t) in
     map_option (\<lambda>t'. (page_id, t')) (tbl_Set t page_id value))"

definition tbl_Get :: "MappingTbl \<Rightarrow> PageId \<Rightarrow> uint64 option" where
  "tbl_Get t page_id =
    (case (if under_copying t then map_of (changes t) page_id else None) of
       Some v \<Rightarrow> Some v
     | None \<Rightarrow> if unat page_id < logical_size t then base_get t page_id else None)"

definition tbl_eq :: "MappingTbl \<Rightarrow> MappingTbl \<Rightarrow> bool" where
  "tbl_eq t rhs \<longleftrightarrow>
    logical_size t = logical_size rhs
    \<and> list_all (\<lambda>i. tbl_Get t (of_nat i) = tbl_Get rhs (of_nat i)) [0..<logical_size t]"

section \<open>Copying\<close>

definition StartCopying :: "MappingTbl \<Rightarrow> MappingTbl" where
  "StartCopying t = t\<lparr> under_copying := True \<rparr>"

fun apply_changes :: "(PageId \<times> uint64) list \<Rightarrow> MappingTbl \<Rightarrow> MappingTbl option" where
  "apply_changes [] t = Some t"
| "apply_changes ((page_id, value) # es) t =
    (let t = (if logical_size t < unat page_id + 1 then ResizeInternal t (unat page_id + 1) True
              else t)
     in Option.bind (base_put t page_id value) (apply_changes es))"

definition ApplyChanges :: "MappingTbl \<Rightarrow> MappingTbl option" where
  "ApplyChanges t = apply_changes (changes t) t"

definition FinishCopying :: "MappingTbl \<Rightarrow> MappingTbl option" where
  "FinishCopying t =
    map_option (\<lambda>t'. t'\<lparr> changes := [], under_copying := False \<rparr>) (ApplyChanges t)"

text \<open>What the table code reads of a cached page.\<close>

record MemCachedPage =
  mp_page_id :: PageId
  mp_file_page_id :: FilePageId
  mp_detached :: bool

type_synonym page_heap = "uint64 \<Rightarrow> MemCachedPage"

definition copy_value :: "page_heap \<Rightarrow> uint64 \<Rightarrow> uint64" where
  "copy_value heap val =
    (if IsSwizzlingPointer val \<and> mp_detached (heap val)
     then EncodeFilePageId (mp_file_page_id (heap val)) else val)"

definition CopyChunk :: "page_heap \<Rightarrow> MappingTbl \<Rightarrow> MappingTbl \<Rightarrow> nat \<Rightarrow> MappingTbl option" where
  "CopyChunk heap src dst chunk_idx =
    (let copy_elems = min kChunkSize (logical_size src - push_bit kChunkShift chunk_idx) in
     if chunk_idx < length (base src)
     then Some (dst\<lparr> base := (base dst)[chunk_idx :=
            map (copy_value heap) (take copy_elems (base src ! chunk_idx))
            @ drop copy_elems (base dst ! chunk_idx)] \<rparr>)
     else None)"

fun tbl_Sets :: "(PageId \<times> uint64) list \<Rightarrow> MappingTbl \<Rightarrow> MappingTbl option" where
  "tbl_Sets [] t = Some t"
| "tbl_Sets ((page_id, value) # es) t = Option.bind (tbl_Set t page_id value) (tbl_Sets es)"

text \<open>The copy yields to other tasks once before the first chunk and after every chunk. What they
  store into the source table at the n-th yield is \<open>env n\<close>, and the cached pages are \<open>heap n\<close>
  while chunk \<open>n\<close> is copied.\<close>

function CopyFrom_loop ::
  "(nat \<Rightarrow> (PageId \<times> uint64) list) \<Rightarrow> (nat \<Rightarrow> page_heap) \<Rightarrow> nat
    \<Rightarrow> MappingTbl \<Rightarrow> MappingTbl \<Rightarrow> (MappingTbl \<times> MappingTbl) option" where
  "CopyFrom_loop env heap chunk_idx src dst =
    (if chunk_idx < length (base dst) \<and> push_bit kChunkShift chunk_idx < logical_size src
     then Option.bind (CopyChunk (heap chunk_idx) src dst chunk_idx)
            (\<lambda>dst'. Option.bind (tbl_Sets (env (Suc chunk_idx)) src)
               (\<lambda>src'. CopyFrom_loop env heap (Suc chunk_idx) src' dst'))
     else Some (src, dst))"
  by auto
termination
  by (relation "measure (\<lambda>(env, heap, i, src, dst). length (base dst) - i)")
    (auto simp: CopyChunk_def Let_def split: if_splits)

declare CopyFrom_loop.simps [simp del]

definition CopyFrom ::
  "(nat \<Rightarrow> (PageId \<times> uint64) list) \<Rightarrow> (nat \<Rightarrow> page_heap)
    \<Rightarrow> MappingTbl \<Rightarrow> MappingTbl \<Rightarrow> (MappingTbl \<times> MappingTbl) option" where
  "CopyFrom env heap src dst =
    (if logical_size src = 0 then Some (src, tbl_clear dst)
     else
       let dst = ResizeInternal dst (logical_size src) False
       in Option.bind (tbl_Sets (env 0) src) (\<lambda>src'. CopyFrom_loop env heap 0 src' dst))"

definition ApplyPendingTo :: "MappingTbl \<Rightarrow> MappingTbl \<Rightarrow> MappingTbl option" where
  "ApplyPendingTo t dst =
    (if logical_size t < logical_size dst then None
     else
       let dst = (if logical_size t > logical_size dst then ResizeInternal dst (logical_size t) True
                  else dst)
       in tbl_Sets (changes t) dst)"

section \<open>Snapshot queries\<close>

definition ToFilePage_val :: "page_heap \<Rightarrow> uint64 \<Rightarrow> FilePageId" where
  "ToFilePage_val heap val =
    (case GetValType val of
       SwizzlingPointer \<Rightarrow> mp_file_page_id (heap val)
     | VFilePageId \<Rightarrow> DecodeId val
     | _ \<Rightarrow> MaxFilePageId)"

definition ToFilePage :: "page_heap \<Rightarrow> MappingTbl \<Rightarrow> PageId \<Rightarrow> FilePageId option" where
  "ToFilePage heap t page_id =
    (if page_id = MaxPageId then Some MaxFilePageId
     else map_option (ToFilePage_val heap) (tbl_Get t page_id))"

definition next_free :: "uint64 \<Rightarrow> PageId" where
  "next_free val = (if val = InvalidValue then MaxPageId else ucast (DecodeId val))"

definition GetNextFree :: "MappingTbl \<Rightarrow> PageId \<Rightarrow> PageId option" where
  "GetNextFree t page_id = map_option next_free (tbl_Get t page_id)"

definition Unswizzling :: "page_heap \<Rightarrow> MappingTbl \<Rightarrow> uint64 \<Rightarrow> MappingTbl option" where
  "Unswizzling heap t page =
    (let page_id = mp_page_id (heap page) in
     if unat page_id < logical_size t
     then Option.bind (tbl_Get t page_id) (\<lambda>val.
       if IsSwizzlingPointer val \<and> val = page
       then tbl_Set t page_id (EncodeFilePageId (mp_file_page_id (heap page)))
       else Some t)
     else Some t)"

definition GetSwizzlingHandle :: "MappingTbl \<Rightarrow> PageId \<Rightarrow> uint64 option option" where
  "GetSwizzlingHandle t page_id =
    map_option (\<lambda>val. if IsSwizzlingPointer val then Some val else None) (tbl_Get t page_id)"

definition AddSwizzling :: "MappingTbl \<Rightarrow> PageId \<Rightarrow> uint64 \<Rightarrow> MappingTbl option" where
  "AddSwizzling t page_id idx_page =
    Option.bind (tbl_Get t page_id) (\<lambda>val.
      if IsSwizzlingPointer val then Some t else tbl_Set t page_id idx_page)"

text \<open>Swizzled values are written as the file page they stand for.\<close>

definition serialized_value :: "page_heap \<Rightarrow> uint64 \<Rightarrow> uint64" where
  "serialized_value heap val =
    (if IsSwizzlingPointer val then EncodeFilePageId (mp_file_page_id (heap val)) else val)"

fun tbl_Serialize_loop :: "page_heap \<Rightarrow> MappingTbl \<Rightarrow> nat list \<Rightarrow> bytes \<Rightarrow> bytes option" where
  "tbl_Serialize_loop heap t [] dst = Some dst"
| "tbl_Serialize_loop heap t (i # is) dst =
    Option.bind (tbl_Get t (of_nat i)) (\<lambda>val.
      tbl_Serialize_loop heap t is (PutVarint64 dst (serialized_value heap val)))"

definition tbl_Serialize :: "page_heap \<Rightarrow> MappingTbl \<Rightarrow> bytes \<Rightarrow> bytes option" where
  "tbl_Serialize heap t dst = tbl_Serialize_loop heap t [0..<logical_size t] dst"

end
