(* ===== verification/Mapping_Table_Correct.thy ===== *)
theory Mapping_Table_Correct
  imports Mapping_Table
begin

text \<open>
  The mapping table behaves like a list of values, in and out of a copy: the invariant of the
  table, what a store does to every later lookup, and the protocol that copies a table while
  other tasks keep storing into it.
\<close>

section \<open>Tagged values\<close>

lemma and_7_tag:
  fixes a :: uint64
  assumes "\<And>n. n < 3 \<Longrightarrow> \<not> bit a n"
  shows "(a OR t) AND 7 = t AND 7" "t AND 7 = t \<Longrightarrow> drop_bit 3 (a OR t) = drop_bit 3 a"
proof -
  have m: "bit (7 :: uint64) n \<longleftrightarrow> n < 3" for n
    using bit_mask_iff [of 3 n, where ?'a = uint64] by (auto simp: mask_eq_exp_minus_1)
  show "(a OR t) AND 7 = t AND 7"
    by (rule bit_word_eqI) (use assms m in \<open>auto simp: bit_simps\<close>)
  assume "t AND 7 = t"
  then have "bit t n \<Longrightarrow> n < 3" for n by (metis bit_and_iff m)
  then show "drop_bit 3 (a OR t) = drop_bit 3 a"
    by (intro bit_word_eqI) (auto simp: bit_simps)
qed

lemma EncodeFilePageId_tag:
  "GetValType (EncodeFilePageId f) = VFilePageId"
  "DecodeId (EncodeFilePageId f) = drop_bit 3 (push_bit 3 f)"
proof -
  have b: "n < 3 \<Longrightarrow> \<not> bit (push_bit 3 f) n" for n by (simp add: bit_simps)
  show "GetValType (EncodeFilePageId f) = VFilePageId"
    using and_7_tag(1) [OF b, where t = 1] by (simp add: EncodeFilePageId_def GetValType_def)
  show "DecodeId (EncodeFilePageId f) = drop_bit 3 (push_bit 3 f)"
    using and_7_tag(2) [OF b, where t = 1] by (simp add: EncodeFilePageId_def DecodeId_def)
qed

lemma DecodeId_EncodeFilePageId:
  assumes "unat f < 2 ^ 61"
  shows "DecodeId (EncodeFilePageId f) = f"
proof -
  have "\<not> bit f n" if "61 \<le> n" for n
  proof -
    have "take_bit 61 (unat f) = unat f" using assms by (rule take_bit_nat_eq_self)
    then have "\<not> bit (unat f) n" using that by (metis bit_take_bit_iff not_less)
    then show ?thesis by (auto simp: bit_unsigned_iff dest: bit_imp_le_length)
  qed
  then have "drop_bit 3 (push_bit 3 f) = f"
    by (intro bit_word_eqI) (simp add: bit_simps, metis linorder_not_le)
  then show ?thesis by (simp add: EncodeFilePageId_tag)
qed

lemma EncodePageId_tag:
  "GetValType (EncodePageId p) = VPageId"
  "DecodeId (EncodePageId p) = ucast (drop_bit 3 (push_bit 3 p))"
proof -
  have b: "n < 3 \<Longrightarrow> \<not> bit (ucast (push_bit 3 p) :: uint64) n" for n by (simp add: bit_simps)
  show "GetValType (EncodePageId p) = VPageId"
    using and_7_tag(1) [OF b, where t = 2] by (simp add: EncodePageId_def GetValType_def)
  have "drop_bit 3 (ucast (push_bit 3 p) :: uint64) = ucast (drop_bit 3 (push_bit 3 p))"
    by (rule bit_word_eqI) (auto simp: bit_simps dest: bit_imp_le_length)
  then show "DecodeId (EncodePageId p) = ucast (drop_bit 3 (push_bit 3 p))"
    using and_7_tag(2) [OF b, where t = 2] by (simp add: EncodePageId_def DecodeId_def)
qed

lemma DecodeId_EncodePageId:
  "ucast (DecodeId (EncodePageId p)) = p \<longleftrightarrow> unat p < 2 ^ 29"
proof -
  have u: "(ucast (ucast x :: uint64) :: uint32) = x" for x :: uint32
    by (rule bit_word_eqI) (auto simp: bit_simps)
  have t: "drop_bit 3 (push_bit 3 p) = take_bit 29 p"
    by (rule bit_word_eqI) (auto simp: bit_simps)
  have "take_bit 29 p = p \<longleftrightarrow> unat p < 2 ^ 29"
  proof
    assume "take_bit 29 p = p"
    then have "unat p = take_bit 29 (unat p)" by (metis unsigned_take_bit_eq)
    then show "unat p < 2 ^ 29" by (metis take_bit_nat_less_exp)
  next
    assume "unat p < 2 ^ 29"
    then have "unat (take_bit 29 p) = unat p"
      by (simp add: unsigned_take_bit_eq take_bit_nat_eq_self)
    then show "take_bit 29 p = p" by (rule unsigned_word_eqI)
  qed
  then show ?thesis by (simp add: EncodePageId_tag u t)
qed

lemma EncodePageId_ne_Invalid: "EncodePageId p \<noteq> InvalidValue"
  using EncodePageId_tag(1) [of p] by (auto simp: GetValType_def)

section \<open>Chunks as one list\<close>

lemma concat_chunks_nth:
  "\<forall>c\<in>set cs. length c = n \<Longrightarrow> i < n * length cs \<Longrightarrow> concat cs ! i = cs ! (i div n) ! (i mod n)"
proof (induction cs arbitrary: i)
  case (Cons c cs)
  show ?case
  proof (cases "i < n")
    case True
    then show ?thesis using Cons.prems by (simp add: nth_append)
  next
    case False
    moreover from this Cons.prems have "0 < n" by (cases n) auto
    moreover have "i div n = Suc ((i - n) div n)" "i mod n = (i - n) mod n"
      using False \<open>0 < n\<close> by (simp_all add: le_div_geq le_mod_geq)
    ultimately show ?thesis using Cons.prems Cons.IH [of "i - n"] by (simp add: nth_append)
  qed
qed simp

lemma concat_chunks_update:
  "\<forall>c\<in>set cs. length c = n \<Longrightarrow> i < n * length cs
    \<Longrightarrow> concat (cs[i div n := (cs ! (i div n))[i mod n := v]]) = (concat cs)[i := v]"
proof (induction cs arbitrary: i)
  case (Cons c cs)
  show ?case
  proof (cases "i < n")
    case True
    then show ?thesis using Cons.prems by (simp add: list_update_append1)
  next
    case False
    moreover from this Cons.prems have "0 < n" by (cases n) auto
    moreover have "i div n = Suc ((i - n) div n)" "i mod n = (i - n) mod n"
      using False \<open>0 < n\<close> by (simp_all add: le_div_geq le_mod_geq)
    ultimately show ?thesis
      using Cons.prems Cons.IH [of "i - n"] by (simp add: list_update_append)
  qed
qed simp

lemma length_concat_chunks: "\<forall>c\<in>set cs. length c = n \<Longrightarrow> length (concat cs) = n * length cs"
  by (induction cs) auto

definition chunks_ok :: "MappingTbl \<Rightarrow> bool" where
  "chunks_ok t \<longleftrightarrow> (\<forall>c\<in>set (base t). length c = kChunkSize)
    \<and> (\<forall>pool. chunk_arena t = Some pool \<longrightarrow> (\<forall>c\<in>set pool. length c = kChunkSize))"

definition flat :: "MappingTbl \<Rightarrow> uint64 list" where
  "flat t = concat (base t)"

lemma length_flat: "chunks_ok t \<Longrightarrow> length (flat t) = kChunkSize * length (base t)"
  by (simp add: flat_def chunks_ok_def length_concat_chunks)

lemma kChunkSize_value: "kChunkSize = 512"
  by (simp add: kChunkSize_def)

lemma slot:
  "drop_bit kChunkShift i = i div kChunkSize" "take_bit kChunkShift i = i mod kChunkSize"
  by (simp_all add: kChunkSize_def drop_bit_eq_div take_bit_eq_mod)

lemma div_chunk_less: "i div kChunkSize < n \<longleftrightarrow> i < kChunkSize * n"
  by (simp add: kChunkSize_value div_less_iff_less_mult mult.commute)

lemma base_get_flat:
  assumes "chunks_ok t"
  shows "base_get t p = (if unat p < length (flat t) then Some (flat t ! unat p) else None)"
  unfolding base_get_def Let_def slot div_chunk_less length_flat [OF assms]
  using assms by (simp add: flat_def chunks_ok_def concat_chunks_nth [where n = kChunkSize])

lemma chunks_ok_update:
  assumes "chunks_ok t" "i < length (base t)" "length c = kChunkSize"
  shows "chunks_ok (t\<lparr> base := (base t)[i := c] \<rparr>)"
  using assms by (auto simp: chunks_ok_def dest!: set_update_subset_insert [THEN subsetD])

lemma base_put_flat:
  assumes "chunks_ok t"
  shows "unat p < length (flat t) \<Longrightarrow> \<exists>t'. base_put t p v = Some t' \<and> chunks_ok t'
      \<and> flat t' = (flat t)[unat p := v] \<and> logical_size t' = logical_size t
      \<and> under_copying t' = under_copying t \<and> changes t' = changes t"
    and "length (flat t) \<le> unat p \<Longrightarrow> base_put t p v = None"
proof -
  let ?i = "unat p div kChunkSize"
  show "\<exists>t'. base_put t p v = Some t' \<and> chunks_ok t'
      \<and> flat t' = (flat t)[unat p := v] \<and> logical_size t' = logical_size t
      \<and> under_copying t' = under_copying t \<and> changes t' = changes t" if "unat p < length (flat t)"
  proof -
    have i: "?i < length (base t)" "unat p < kChunkSize * length (base t)"
      using that by (simp_all add: length_flat [OF assms] div_chunk_less)
    then have l: "length ((base t ! ?i)[unat p mod kChunkSize := v]) = kChunkSize"
      using assms by (simp add: chunks_ok_def)
    have "flat (t\<lparr> base := (base t)[?i := (base t ! ?i)[unat p mod kChunkSize := v]] \<rparr>)
        = (flat t)[unat p := v]"
      using assms i by (simp add: flat_def concat_chunks_update chunks_ok_def)
    then show ?thesis
      using chunks_ok_update [OF assms i(1) l] i(1) unfolding base_put_def Let_def slot by simp
  qed
  show "base_put t p v = None" if "length (flat t) \<le> unat p"
    using that unfolding length_flat [OF assms] base_put_def Let_def slot div_chunk_less by simp
qed

lemma AcquireChunk_ok:
  assumes "chunks_ok t" "AcquireChunk t = (c, t')"
  shows "chunks_ok t'" "length c = kChunkSize" "base t' = base t"
    "logical_size t' = logical_size t" "under_copying t' = under_copying t" "changes t' = changes t"
  using assms
  by (auto simp: AcquireChunk_def Arena_Acquire_def Arena_Extend_def chunks_ok_def Let_def
      split: option.splits prod.splits if_splits dest!: in_set_butlastD)

lemma push_chunks_ok:
  "chunks_ok t \<Longrightarrow> chunks_ok (push_chunks n t) \<and> length (base (push_chunks n t)) = length (base t) + n
    \<and> take (length (base t)) (base (push_chunks n t)) = base t
    \<and> logical_size (push_chunks n t) = logical_size t
    \<and> under_copying (push_chunks n t) = under_copying t \<and> changes (push_chunks n t) = changes t"
proof (induction n arbitrary: t)
  case (Suc n)
  obtain c t' where a: "AcquireChunk t = (c, t')" by fastforce
  note ok = AcquireChunk_ok [OF Suc.prems a]
  let ?t = "t'\<lparr> base := base t' @ [c] \<rparr>"
  have "chunks_ok ?t" using ok by (auto simp: chunks_ok_def)
  note ih = Suc.IH [OF this]
  then have "take (length (base t)) (take (Suc (length (base t))) (base (push_chunks n ?t))) = base t"
    using ok(3) by simp
  then have "take (length (base t)) (base (push_chunks n ?t)) = base t" by (simp add: min_def)
  then show ?case using ih ok a by simp
qed simp

lemma RequiredChunks_cover: "n \<le> kChunkSize * RequiredChunks n"
  unfolding RequiredChunks_def slot by (simp add: kChunkSize_value)

lemma EnsureChunkCount_ok:
  assumes "chunks_ok t"
  shows "chunks_ok (EnsureChunkCount t n)"
    "length (base (EnsureChunkCount t n)) = max n (length (base t))"
    "take (length (base t)) (base (EnsureChunkCount t n)) = base t"
    "logical_size (EnsureChunkCount t n) = logical_size t"
    "under_copying (EnsureChunkCount t n) = under_copying t"
    "changes (EnsureChunkCount t n) = changes t"
  using push_chunks_ok [OF assms, of "n - length (base t)"] assms
  by (auto simp: EnsureChunkCount_def)

lemma flat_base: "flat (t\<lparr> base := b \<rparr>) = concat b" "flat (t\<lparr> logical_size := n \<rparr>) = flat t"
  by (simp_all add: flat_def)

lemma ResizeInternal_grow:
  assumes ok: "chunks_ok t" and n: "logical_size t < n"
  shows "chunks_ok (ResizeInternal t n init)" "logical_size (ResizeInternal t n init) = n"
    "n \<le> length (flat (ResizeInternal t n init))"
    "length (flat t) \<le> length (flat (ResizeInternal t n init))"
    "i < length (flat t) \<Longrightarrow> flat (ResizeInternal t n init) ! i = flat t ! i"
    "init \<Longrightarrow> length (flat t) \<le> i \<Longrightarrow> i < length (flat (ResizeInternal t n init))
      \<Longrightarrow> flat (ResizeInternal t n init) ! i = InvalidValue"
    "under_copying (ResizeInternal t n init) = under_copying t"
    "changes (ResizeInternal t n init) = changes t"
proof -
  let ?c = "length (base t)"
  define t1 where "t1 = EnsureChunkCount t (RequiredChunks n)"
  note e = EnsureChunkCount_ok [OF ok, of "RequiredChunks n", folded t1_def]
  define fill where "fill = map (\<lambda>c. replicate kChunkSize InvalidValue) (drop ?c (base t1))"
  define new where "new = (if init then fill else drop ?c (base t1))"
  have b1: "base t1 = base t @ drop ?c (base t1)" using e(3) by (metis append_take_drop_id)
  have r: "ResizeInternal t n init = t1\<lparr> base := base t @ new, logical_size := n \<rparr>"
    using n b1 e(3) by (cases "init") (simp_all add: ResizeInternal_def Let_def t1_def [symmetric]
      new_def fill_def)
  have new: "\<forall>c\<in>set new. length c = kChunkSize" "length new = RequiredChunks n - ?c"
    using e(1,2) by (auto simp: new_def fill_def chunks_ok_def dest: in_set_dropD)
  have fr: "flat (ResizeInternal t n init) = flat t @ concat new"
    by (simp add: r flat_def)
  show "chunks_ok (ResizeInternal t n init)"
    using e(1) ok new(1) unfolding r chunks_ok_def by auto
  have "length (flat (ResizeInternal t n init)) = kChunkSize * (?c + (RequiredChunks n - ?c))"
    using length_flat [OF ok] length_concat_chunks [OF new(1)] new(2)
    by (simp add: fr distrib_left)
  moreover have "kChunkSize * RequiredChunks n \<le> kChunkSize * (?c + (RequiredChunks n - ?c))"
    by (intro mult_le_mono) simp_all
  ultimately show "n \<le> length (flat (ResizeInternal t n init))"
    using RequiredChunks_cover [of n] by linarith
  show "length (flat t) \<le> length (flat (ResizeInternal t n init))"
    "logical_size (ResizeInternal t n init) = n"
    by (simp add: fr) (simp add: r)
  show "flat (ResizeInternal t n init) ! i = flat t ! i" if "i < length (flat t)"
    using that by (simp add: fr nth_append)
  show "under_copying (ResizeInternal t n init) = under_copying t"
    "changes (ResizeInternal t n init) = changes t"
    using e(5,6) by (simp_all add: r)
  assume init and i: "length (flat t) \<le> i" "i < length (flat (ResizeInternal t n init))"
  have "v = InvalidValue" if "v \<in> set (concat new)" for v
    using that \<open>init\<close> by (auto simp: new_def fill_def split: if_splits)
  moreover have "i - length (flat t) < length (concat new)" using i by (simp add: fr)
  ultimately have "concat new ! (i - length (flat t)) = InvalidValue" by (metis nth_mem)
  then show "flat (ResizeInternal t n init) ! i = InvalidValue"
    using i(1) by (simp add: fr nth_append)
qed

section \<open>The invariant of a table\<close>

text \<open>Outside a copy the chunks cover the logical size and the overlay is empty. During a copy
  every page below the logical size is in a chunk or in the overlay.\<close>

definition tbl_inv :: "MappingTbl \<Rightarrow> bool" where
  "tbl_inv t \<longleftrightarrow> chunks_ok t \<and> logical_size t < 2 ^ 32 \<and> distinct (map fst (changes t))
    \<and> (\<forall>p\<in>fst ` set (changes t). unat p < logical_size t)
    \<and> (\<forall>p. unat p < logical_size t \<longrightarrow> unat p < length (flat t) \<or> p \<in> fst ` set (changes t))
    \<and> (\<not> under_copying t \<longrightarrow> changes t = [])"

lemma tbl_inv_flat:
  assumes "tbl_inv t" "\<not> under_copying t"
  shows "logical_size t \<le> length (flat t)"
proof (rule ccontr)
  assume "\<not> ?thesis"
  then have "length (flat t) < 2 ^ 32" "length (flat t) < logical_size t"
    using assms(1) by (auto simp: tbl_inv_def)
  then have "unat (of_nat (length (flat t)) :: PageId) = length (flat t)"
    by (simp add: unsigned_of_nat take_bit_nat_eq_self)
  then show False
    using assms \<open>length (flat t) < logical_size t\<close> unfolding tbl_inv_def
    by (metis empty_iff image_empty less_irrefl list.set(1))
qed

lemma tbl_Get_inv:
  assumes "tbl_inv t"
  shows "tbl_Get t p = (if unat p < logical_size t
    then Some (case map_of (changes t) p of Some v \<Rightarrow> v | None \<Rightarrow> flat t ! unat p) else None)"
proof -
  have ok: "chunks_ok t" using assms by (simp add: tbl_inv_def)
  have k: "p \<in> fst ` set (changes t) \<longleftrightarrow> map_of (changes t) p \<noteq> None" by (simp add: map_of_eq_None_iff)
  show ?thesis
    using assms k unfolding tbl_inv_def tbl_Get_def base_get_flat [OF ok]
    by (auto split: option.splits)
qed

lemma tbl_Get_None: "tbl_inv t \<Longrightarrow> tbl_Get t p = None \<longleftrightarrow> logical_size t \<le> unat p"
  by (simp add: tbl_Get_inv)

lemma tbl_inv_new:
  "(\<And>pool c. arena = Some pool \<Longrightarrow> c \<in> set pool \<Longrightarrow> length c = kChunkSize) \<Longrightarrow> tbl_inv (MappingTbl_new arena)"
  by (auto simp: tbl_inv_def MappingTbl_new_def chunks_ok_def)

section \<open>Storing a value\<close>

lemma unat_less_Suc: "unat q < Suc (unat p) \<longleftrightarrow> unat q < unat p \<or> q = p" for p q :: PageId
  by (metis less_Suc_eq unsigned_word_eqI)

lemma tbl_Set_ok:
  assumes inv: "tbl_inv t" and p: "unat p \<le> logical_size t" "unat p < 2 ^ 32 - 1"
  obtains t' where "tbl_Set t p v = Some t'" "tbl_inv t'"
    "logical_size t' = max (logical_size t) (unat p + 1)"
    "under_copying t' = under_copying t" "\<And>q. tbl_Get t' q = (if q = p then Some v else tbl_Get t q)"
    "length (flat t) \<le> length (flat t')" "under_copying t \<Longrightarrow> flat t' = flat t"
    "under_copying t \<Longrightarrow> changes t' = AList.update p v (changes t)"
proof (cases "under_copying t")
  case True
  define t' where "t' = t\<lparr> changes := AList.update p v (changes t),
    logical_size := max (logical_size t) (unat p + 1) \<rparr>"
  have s: "tbl_Set t p v = Some t'"
    using True by (auto simp: tbl_Set_def t'_def max_def)
  have f: "flat t' = flat t" "under_copying t'" "changes t' = AList.update p v (changes t)"
    "logical_size t' = max (logical_size t) (unat p + 1)"
    using True by (simp_all add: t'_def flat_def)
  have keys: "fst ` set (changes t') = insert p (fst ` set (changes t))"
    by (simp add: f dom_update)
  have less: "unat q < logical_size t' \<longleftrightarrow> unat q < logical_size t \<or> q = p" for q
    using p unat_less_Suc [of q p] by (auto simp: f)
  have "chunks_ok t'" "distinct (map fst (changes t'))" "logical_size t' < 2 ^ 32"
    using inv p by (simp_all add: f(3,4) distinct_update tbl_inv_def, simp add: t'_def chunks_ok_def)
  then have i: "tbl_inv t'"
    using inv True unfolding tbl_inv_def keys less f(1) by (auto simp: f(2))
  have "tbl_Get t' q = (if q = p then Some v else tbl_Get t q)" for q
    unfolding tbl_Get_inv [OF i] tbl_Get_inv [OF inv] less f(1,3) update_conv' fun_upd_apply
    by simp
  with s f i True show ?thesis by (intro that [of t']) simp_all
next
  case False
  then have ch: "changes t = []" and ok: "chunks_ok t" using inv by (simp_all add: tbl_inv_def)
  note cover = tbl_inv_flat [OF inv False]
  define t1 where "t1 = EnsureSize t p"
  have t1: "chunks_ok t1" "logical_size t1 = max (logical_size t) (unat p + 1)"
    "unat p < length (flat t1)" "length (flat t) \<le> length (flat t1)" "logical_size t1 \<le> length (flat t1)"
    "\<And>i. i < length (flat t) \<Longrightarrow> flat t1 ! i = flat t ! i"
    "\<not> under_copying t1" "changes t1 = []"
    using ok p cover False ch ResizeInternal_grow [OF ok, where n = "unat p + 1" and init = True]
    by (auto simp: t1_def EnsureSize_def max_def)
  obtain t' where t': "base_put t1 p v = Some t'" "chunks_ok t'" "flat t' = (flat t1)[unat p := v]"
    "logical_size t' = logical_size t1" "\<not> under_copying t'" "changes t' = []"
    using base_put_flat(1) [OF t1(1,3), of v] t1 by auto
  have i: "tbl_inv t'"
    using t' t1(2,5) p inv less_le_trans [OF _ t1(5)] by (simp add: tbl_inv_def)
  have less: "unat q < logical_size t' \<longleftrightarrow> unat q < logical_size t \<or> q = p" for q
    using p unat_less_Suc [of q p] by (auto simp: t'(4) t1(2))
  have "tbl_Get t' q = (if q = p then Some v else tbl_Get t q)" for q
  proof (cases "q = p")
    case False
    then have "unat p \<noteq> unat q" by (metis unsigned_word_eqI)
    then show ?thesis
      unfolding tbl_Get_inv [OF i] tbl_Get_inv [OF inv] less t'(3,6) ch using t1(6) [of "unat q"] cover False
      by simp
  qed (use t1(3) in \<open>simp add: tbl_Get_inv [OF i] less t'(3,6)\<close>)
  moreover have "tbl_Set t p v = Some t'" using False t'(1) by (simp add: tbl_Set_def t1_def)
  ultimately show ?thesis using t' t1 i False by (intro that [of t']) simp_all
qed

lemma tbl_Set_in:
  assumes "tbl_inv t" "unat p < logical_size t"
  shows "\<exists>t'. tbl_Set t p v = Some t' \<and> tbl_inv t' \<and> logical_size t' = logical_size t
    \<and> under_copying t' = under_copying t
    \<and> (\<forall>q. tbl_Get t' q = (if q = p then Some v else tbl_Get t q))
    \<and> (under_copying t \<longrightarrow> flat t' = flat t
        \<and> fst ` set (changes t') = insert p (fst ` set (changes t)))"
proof -
  have p: "unat p \<le> logical_size t" "unat p < 2 ^ 32 - 1" using assms by (simp_all add: tbl_inv_def)
  show ?thesis
    by (rule tbl_Set_ok [OF assms(1) p, of v]) (use assms(2) in \<open>simp add: max_def dom_update\<close>)
qed

lemma tbl_PushBack_ok:
  assumes inv: "tbl_inv t" and "logical_size t < 2 ^ 32 - 1"
  obtains t' where "tbl_PushBack t v = Some (of_nat (logical_size t), t')" "tbl_inv t'"
    "logical_size t' = logical_size t + 1"
    "under_copying t' = under_copying t"
    "\<And>q. tbl_Get t' q = (if unat q = logical_size t then Some v else tbl_Get t q)"
proof -
  let ?p = "of_nat (logical_size t) :: PageId"
  have u: "unat ?p = logical_size t"
    using assms(2) by (simp add: unsigned_of_nat take_bit_nat_eq_self)
  have q: "q = ?p \<longleftrightarrow> unat q = logical_size t" for q
    using u by (metis unsigned_word_eqI)
  obtain t' where t': "tbl_Set t ?p v = Some t'" "tbl_inv t'"
    "logical_size t' = max (logical_size t) (unat ?p + 1)" "under_copying t' = under_copying t"
    "\<And>q. tbl_Get t' q = (if q = ?p then Some v else tbl_Get t q)"
    by (rule tbl_Set_ok [OF inv, of ?p v]) (use u assms(2) in simp_all)
  show ?thesis
    using t' u q by (intro that [of t']) (simp_all add: tbl_PushBack_def Let_def)
qed

section \<open>The end of a copy\<close>

lemma apply_changes_ok:
  assumes "chunks_ok t" "distinct (map fst es)"
    "\<forall>p\<in>fst ` set es. unat p < logical_size t \<and> unat p < length (flat t)"
  obtains t' where "apply_changes es t = Some t'" "chunks_ok t'" "logical_size t' = logical_size t"
    "length (flat t') = length (flat t)"
    "\<And>p. flat t' ! unat p = (case map_of es p of Some v \<Rightarrow> v | None \<Rightarrow> flat t ! unat p)"
  using assms
proof (induction es arbitrary: t thesis)
  case (Cons e es)
  obtain p v where e: "e = (p, v)" by (cases e)
  have p: "\<not> logical_size t < unat p + 1" "unat p < length (flat t)" using Cons.prems(4) by (auto simp: e)
  obtain t1 where t1: "base_put t p v = Some t1" "chunks_ok t1" "flat t1 = (flat t)[unat p := v]"
    "logical_size t1 = logical_size t"
    using base_put_flat(1) [OF Cons.prems(2) p(2)] by blast
  obtain t' where t': "apply_changes es t1 = Some t'" "chunks_ok t'" "logical_size t' = logical_size t1"
    "length (flat t') = length (flat t1)"
    "\<And>q. flat t' ! unat q = (case map_of es q of Some v \<Rightarrow> v | None \<Rightarrow> flat t1 ! unat q)"
    by (rule Cons.IH [of t1]) (use Cons.prems t1 in \<open>simp_all\<close>)
  have n: "map_of es p = None" using Cons.prems(3) by (simp add: e map_of_eq_None_iff)
  have "flat t' ! unat q = (case map_of (e # es) q of Some v \<Rightarrow> v | None \<Rightarrow> flat t ! unat q)" for q
  proof (cases "q = p")
    case False
    then have "unat p \<noteq> unat q" by (metis unsigned_word_eqI)
    then show ?thesis using False by (simp add: t'(5) t1(3) e split: option.splits)
  qed (use p(2) n in \<open>simp add: t'(5) t1(3) e\<close>)
  moreover have "apply_changes (e # es) t = Some t'" using p t1 t' by (simp add: e)
  ultimately show ?case using t' t1 by (intro Cons.prems(1) [of t']) simp_all
qed simp

lemma FinishCopying_ok:
  assumes inv: "tbl_inv t" and cover: "logical_size t \<le> length (flat t)"
  obtains t' where "FinishCopying t = Some t'" "tbl_inv t'" "\<not> under_copying t'"
    "logical_size t' = logical_size t" "\<And>p. tbl_Get t' p = tbl_Get t p"
proof -
  have ok: "chunks_ok t" "distinct (map fst (changes t))" using inv by (simp_all add: tbl_inv_def)
  have ch: "\<forall>p\<in>fst ` set (changes t). unat p < logical_size t \<and> unat p < length (flat t)"
    using inv cover unfolding tbl_inv_def by (meson less_le_trans)
  obtain t1 where t1: "apply_changes (changes t) t = Some t1" "chunks_ok t1" "logical_size t1 = logical_size t"
    "length (flat t1) = length (flat t)"
    "\<And>p. flat t1 ! unat p = (case map_of (changes t) p of Some v \<Rightarrow> v | None \<Rightarrow> flat t ! unat p)"
    by (rule apply_changes_ok [OF ok ch]) (rule that; blast)
  define t' where "t' = t1\<lparr> changes := [], under_copying := False \<rparr>"
  have f: "flat t' = flat t1" by (simp add: t'_def flat_def)
  have i: "tbl_inv t'"
    using t1 inv cover less_le_trans [OF _ cover] unfolding tbl_inv_def f
    by (simp add: t'_def chunks_ok_def)
  moreover have "tbl_Get t' p = tbl_Get t p" for p
    unfolding tbl_Get_inv [OF i] tbl_Get_inv [OF inv] f t1(5) using t1(3) by (simp add: t'_def)
  moreover have "FinishCopying t = Some t'" by (simp add: FinishCopying_def ApplyChanges_def t1 t'_def)
  ultimately show ?thesis using t1 by (intro that [of t']) (simp_all add: t'_def)
qed

text \<open>A store that grows the table beyond its chunks during a copy makes the end of the copy reach
  for a chunk that was never added.\<close>

lemma apply_changes_out:
  "chunks_ok t \<Longrightarrow> \<exists>p\<in>fst ` set es. length (flat t) \<le> unat p
    \<Longrightarrow> \<forall>p\<in>fst ` set es. unat p < logical_size t \<Longrightarrow> apply_changes es t = None"
proof (induction es arbitrary: t)
  case (Cons e es)
  obtain p v where e: "e = (p, v)" by (cases e)
  have p: "\<not> logical_size t < unat p + 1" using Cons.prems(3) by (auto simp: e)
  show ?case
  proof (cases "length (flat t) \<le> unat p")
    case True
    then show ?thesis using p base_put_flat(2) [OF Cons.prems(1)] by (simp add: e)
  next
    case False
    then obtain t1 where t1: "base_put t p v = Some t1" "chunks_ok t1" "flat t1 = (flat t)[unat p := v]"
      "logical_size t1 = logical_size t"
      using base_put_flat(1) [OF Cons.prems(1)] by (meson not_le)
    have "apply_changes es t1 = None"
      using Cons.prems False t1 by (intro Cons.IH) (auto simp: e)
    then show ?thesis using p t1 by (simp add: e)
  qed
qed simp

lemma FinishCopying_grown:
  assumes "tbl_inv t" "under_copying t" "length (flat t) < logical_size t"
  shows "FinishCopying t = None"
proof -
  have "unat (of_nat (length (flat t)) :: PageId) = length (flat t)"
    using assms(1,3) by (simp add: unsigned_of_nat take_bit_nat_eq_self tbl_inv_def)
  then have "of_nat (length (flat t)) \<in> fst ` set (changes t)"
    using assms unfolding tbl_inv_def by (metis less_irrefl)
  then have "\<exists>p\<in>fst ` set (changes t). length (flat t) \<le> unat p"
    using \<open>unat _ = _\<close> by (intro bexI [of _ "of_nat (length (flat t))"]) simp_all
  then have "apply_changes (changes t) t = None"
    using assms(1) by (intro apply_changes_out) (simp_all add: tbl_inv_def)
  then show ?thesis by (simp add: FinishCopying_def ApplyChanges_def)
qed

section \<open>Copying while others store\<close>

lemma tbl_Sets_ok:
  assumes "tbl_inv t" "\<forall>p\<in>fst ` set es. unat p < logical_size t"
  obtains t' where "tbl_Sets es t = Some t'" "tbl_inv t'" "logical_size t' = logical_size t"
    "under_copying t' = under_copying t" "under_copying t \<Longrightarrow> flat t' = flat t"
    "under_copying t \<Longrightarrow> fst ` set (changes t') = fst ` set (changes t) \<union> fst ` set es"
    "\<And>q. tbl_Get t' q = (case map_of (rev es) q of Some v \<Rightarrow> Some v | None \<Rightarrow> tbl_Get t q)"
  using assms
proof (induction es arbitrary: t thesis)
  case (Cons e es)
  obtain p v where e: "e = (p, v)" by (cases e)
  have p: "unat p < logical_size t" using Cons.prems(3) by (simp add: e)
  obtain t1 where t1: "tbl_Set t p v = Some t1" "tbl_inv t1" "logical_size t1 = logical_size t"
    "under_copying t1 = under_copying t" "\<And>q. tbl_Get t1 q = (if q = p then Some v else tbl_Get t q)"
    "under_copying t \<Longrightarrow> flat t1 = flat t"
    "under_copying t \<Longrightarrow> fst ` set (changes t1) = insert p (fst ` set (changes t))"
    using tbl_Set_in [OF Cons.prems(2) p] by blast
  have es: "\<forall>p\<in>fst ` set es. unat p < logical_size t1" using Cons.prems(3) t1(3) by simp
  obtain t' where t': "tbl_Sets es t1 = Some t'" "tbl_inv t'" "logical_size t' = logical_size t1"
    "under_copying t' = under_copying t1" "under_copying t1 \<Longrightarrow> flat t' = flat t1"
    "under_copying t1 \<Longrightarrow> fst ` set (changes t') = fst ` set (changes t1) \<union> fst ` set es"
    "\<And>q. tbl_Get t' q = (case map_of (rev es) q of Some v \<Rightarrow> Some v | None \<Rightarrow> tbl_Get t1 q)"
    by (rule Cons.IH [OF _ t1(2) es]) (rule that; blast)
  show ?case
    using t1 t' by (intro Cons.prems(1) [of t'])
      (auto simp: e map_add_def split: option.splits)
qed simp

definition copied :: "(nat \<Rightarrow> page_heap) \<Rightarrow> uint64 list \<Rightarrow> nat \<Rightarrow> MappingTbl \<Rightarrow> bool" where
  "copied heap vals n dst \<longleftrightarrow>
    (\<forall>j<n. flat dst ! j = copy_value (heap (j div kChunkSize)) (vals ! j))"

lemma concat_chunks_replace:
  "\<forall>c\<in>set cs. length c = n \<Longrightarrow> i < length cs \<Longrightarrow> length c' = n
    \<Longrightarrow> concat (cs[i := c']) = take (n * i) (concat cs) @ c' @ drop (n * Suc i) (concat cs)"
proof (induction cs arbitrary: i)
  case (Cons c cs)
  then show ?case by (cases i) (simp_all add: take_append drop_append)
qed simp

lemma CopyChunk_ok:
  assumes ok: "chunks_ok src" "chunks_ok dst" and i: "i < length (base src)" "i < length (base dst)"
    and n: "n \<le> logical_size src" "n \<le> length (flat dst)"
    and c: "copied heap (flat src) (min n (kChunkSize * i)) dst"
  obtains dst' where "CopyChunk (heap i) src dst i = Some dst'" "chunks_ok dst'"
    "length (base dst') = length (base dst)" "logical_size dst' = logical_size dst"
    "under_copying dst' = under_copying dst" "changes dst' = changes dst"
    "copied heap (flat src) (min n (kChunkSize * Suc i)) dst'"
proof -
  let ?K = kChunkSize
  define ce where "ce = min ?K (logical_size src - push_bit kChunkShift i)"
  define ch where "ch = map (copy_value (heap i)) (take ce (base src ! i)) @ drop ce (base dst ! i)"
  define dst' where "dst' = dst\<lparr> base := (base dst)[i := ch] \<rparr>"
  have pb: "push_bit kChunkShift i = ?K * i" by (simp add: push_bit_eq_mult kChunkSize_value)
  have l: "length (base src ! i) = ?K" "length (base dst ! i) = ?K"
    using ok i by (simp_all add: chunks_ok_def)
  have ce: "ce \<le> ?K" by (simp add: ce_def)
  have lch: "length ch = ?K" using l ce by (simp add: ch_def)
  have fl: "flat dst' = take (?K * i) (flat dst) @ ch @ drop (?K * Suc i) (flat dst)"
    using ok(2) i(2) lch unfolding dst'_def flat_base unfolding flat_def
    by (intro concat_chunks_replace) (simp_all add: chunks_ok_def)
  have len: "?K * i \<le> length (flat dst)" using i(2) by (simp add: length_flat [OF ok(2)])
  have "flat dst' ! j = copy_value (heap (j div ?K)) (flat src ! j)" if "j < n" "j < ?K * Suc i" for j
  proof (cases "j < ?K * i")
    case True
    then show ?thesis using c that len by (simp add: copied_def fl nth_append)
  next
    case False
    then have d: "j div ?K = i" "j - ?K * i < ?K"
      using that(2) by (simp_all add: kChunkSize_value div_nat_eqI)
    moreover from d(1) have "j mod ?K = j - ?K * i" by (metis minus_mult_div_eq_mod)
    ultimately have d: "j div ?K = i" "j mod ?K = j - ?K * i" "j - ?K * i < ?K" by simp_all
    then have ce: "j - ?K * i < ce" using that(1) n(1) False unfolding ce_def pb by simp
    have "flat src ! j = base src ! i ! (j - ?K * i)"
      using concat_chunks_nth [of "base src" ?K j] ok(1) i(1) d div_chunk_less [of j "length (base src)"]
      by (simp add: flat_def chunks_ok_def)
    moreover have "flat dst' ! j = ch ! (j - ?K * i)"
      using False len lch d(3) by (simp add: fl nth_append)
    ultimately show ?thesis
      using ce d l \<open>ce \<le> ?K\<close> by (simp add: ch_def nth_append)
  qed
  then have "copied heap (flat src) (min n (?K * Suc i)) dst'" by (simp add: copied_def)
  moreover have "CopyChunk (heap i) src dst i = Some dst'"
    using i(1) by (simp add: CopyChunk_def Let_def dst'_def ch_def ce_def)
  moreover have "chunks_ok dst'" unfolding dst'_def by (rule chunks_ok_update [OF ok(2) i(2) lch])
  ultimately show ?thesis by (intro that [of dst']) (simp_all add: dst'_def)
qed

lemma CopyFrom_loop_ok:
  assumes "tbl_inv src" "under_copying src" "logical_size src = n" "flat src = vals" "n \<le> length vals"
    and "chunks_ok dst" "n \<le> length (flat dst)"
    and "copied heap vals (min n (kChunkSize * i)) dst"
    and "fst ` set (changes src) \<subseteq> P"
    and env: "\<forall>k. \<forall>p\<in>fst ` set (env k). unat p < n \<and> p \<in> P"
  shows "\<exists>src' dst'. CopyFrom_loop env heap i src dst = Some (src', dst')
    \<and> tbl_inv src' \<and> under_copying src' \<and> logical_size src' = n \<and> flat src' = vals
    \<and> fst ` set (changes src') \<subseteq> P \<and> chunks_ok dst' \<and> n \<le> length (flat dst') \<and> copied heap vals n dst'
    \<and> logical_size dst' = logical_size dst \<and> under_copying dst' = under_copying dst
    \<and> changes dst' = changes dst"
  using assms(1-9)
proof (induction "length (base dst) - i" arbitrary: i src dst rule: less_induct)
  case less
  have pb: "push_bit kChunkShift i = kChunkSize * i" by (simp add: push_bit_eq_mult kChunkSize_value)
  show ?case
  proof (cases "i < length (base dst) \<and> kChunkSize * i < n")
    case True
    have ok: "chunks_ok src" using less.prems(1) by (simp add: tbl_inv_def)
    have "kChunkSize * i < length (flat src)"
      using True less.prems(4,5) by (metis order_less_le_trans)
    then have i: "i < length (base src)" by (simp add: length_flat [OF ok])
    obtain dst1 where d1: "CopyChunk (heap i) src dst i = Some dst1" "chunks_ok dst1"
      "length (base dst1) = length (base dst)" "logical_size dst1 = logical_size dst"
      "under_copying dst1 = under_copying dst" "changes dst1 = changes dst"
      "copied heap (flat src) (min n (kChunkSize * Suc i)) dst1"
      by (rule CopyChunk_ok [OF ok less.prems(6) i, of n heap]) (use True less.prems in auto)
    obtain src1 where s1: "tbl_Sets (env (Suc i)) src = Some src1" "tbl_inv src1"
      "logical_size src1 = n" "under_copying src1" "flat src1 = vals" "fst ` set (changes src1) \<subseteq> P"
      by (rule tbl_Sets_ok [OF less.prems(1), of "env (Suc i)"]) (use env less.prems in auto)
    have "n \<le> length (flat dst1)"
      using less.prems(7) d1(3) length_flat [OF d1(2)] length_flat [OF less.prems(6)] by simp
    moreover have "CopyFrom_loop env heap i src dst = CopyFrom_loop env heap (Suc i) src1 dst1"
      using True d1(1) s1(1) less.prems(3) by (subst CopyFrom_loop.simps) (simp only: pb, simp)
    moreover have "length (base dst1) - Suc i < length (base dst) - i"
      using True by (simp add: d1(3) diff_less_mono2)
    ultimately show ?thesis
      using less.hyps [of dst1 "Suc i" src1] d1 s1 less.prems(4,5) by simp
  next
    case False
    have "n \<le> kChunkSize * i"
    proof (cases "i < length (base dst)")
      case False
      then have "length (flat dst) \<le> kChunkSize * i" by (simp add: length_flat [OF less.prems(6)])
      then show ?thesis using less.prems(7) by simp
    qed (use False in simp)
    moreover have "CopyFrom_loop env heap i src dst = Some (src, dst)"
      using False less.prems(3) by (subst CopyFrom_loop.simps) (simp only: pb, simp)
    ultimately show ?thesis using less.prems by (simp add: min_def split: if_splits)
  qed
qed

lemma map_of_rev_distinct: "distinct (map fst es) \<Longrightarrow> map_of (rev es) = map_of es"
  by (intro map_of_eqI) (auto simp: rev_map [symmetric] map_of_eq_Some_iff)

lemma copy_protocol:
  assumes inv: "tbl_inv src" "\<not> under_copying src" and dst: "tbl_inv (MappingTbl_new arena)"
    and env: "\<forall>k. \<forall>p\<in>fst ` set (env k). unat p < logical_size src \<and> p \<in> P"
  shows "\<exists>src1 dst1 dst2. CopyFrom env heap (StartCopying src) (MappingTbl_new arena) = Some (src1, dst1)
    \<and> ApplyPendingTo src1 dst1 = Some dst2 \<and> tbl_inv dst2 \<and> \<not> under_copying dst2 \<and> tbl_inv src1
    \<and> logical_size dst2 = logical_size src \<and> logical_size src1 = logical_size src
    \<and> logical_size src1 \<le> length (flat src1) \<and> fst ` set (changes src1) \<subseteq> P
    \<and> (\<forall>p. p \<notin> P \<longrightarrow> tbl_Get src1 p = tbl_Get src p)
    \<and> (\<forall>p. tbl_Get dst2 p = (if p \<in> fst ` set (changes src1) then tbl_Get src1 p
         else map_option (copy_value (heap (unat p div kChunkSize))) (tbl_Get src1 p)))"
proof -
  let ?n = "logical_size src" and ?d0 = "MappingTbl_new arena"
  define s0 where "s0 = StartCopying src"
  have s0: "tbl_inv s0" "under_copying s0" "logical_size s0 = ?n" "flat s0 = flat src" "changes s0 = []"
    using inv unfolding tbl_inv_def
    by (auto simp: s0_def StartCopying_def chunks_ok_def flat_def)
  have cover: "?n \<le> length (flat src)" using inv by (rule tbl_inv_flat)
  have d0: "chunks_ok ?d0" "logical_size ?d0 = 0" "\<not> under_copying ?d0" "changes ?d0 = []" "flat ?d0 = []"
    using dst by (simp_all add: tbl_inv_def MappingTbl_new_def flat_def)
  have "\<exists>src1 dst1. CopyFrom env heap s0 ?d0 = Some (src1, dst1)
    \<and> tbl_inv src1 \<and> logical_size src1 = ?n \<and> flat src1 = flat src
    \<and> fst ` set (changes src1) \<subseteq> P \<and> chunks_ok dst1 \<and> ?n \<le> length (flat dst1) \<and> copied heap (flat src) ?n dst1
    \<and> logical_size dst1 = ?n \<and> \<not> under_copying dst1 \<and> changes dst1 = []"
  proof (cases "?n = 0")
    case True
    have "tbl_clear ?d0 = ?d0" by (simp add: tbl_clear_def MappingTbl_new_def)
    then show ?thesis using True s0 d0 by (simp add: CopyFrom_def copied_def)
  next
    case False
    obtain s1 where s1: "tbl_Sets (env 0) s0 = Some s1" "tbl_inv s1" "logical_size s1 = ?n"
      "under_copying s1" "flat s1 = flat src" "fst ` set (changes s1) \<subseteq> P"
      by (rule tbl_Sets_ok [OF s0(1), of "env 0"]) (use env s0 in auto)
    define d1 where "d1 = ResizeInternal ?d0 ?n False"
    have d1: "chunks_ok d1" "?n \<le> length (flat d1)" "logical_size d1 = ?n" "\<not> under_copying d1" "changes d1 = []"
      using ResizeInternal_grow [OF d0(1), where n = ?n and init = False] d0 False by (simp_all add: d1_def)
    have "CopyFrom env heap s0 ?d0 = CopyFrom_loop env heap 0 s1 d1"
      using False s0 s1 by (simp add: CopyFrom_def d1_def)
    then show ?thesis
      using CopyFrom_loop_ok [of s1 ?n "flat src" d1 heap 0 P env] s1 d1 cover env
      by (simp add: copied_def) blast
  qed
  then obtain src1 dst1 where c: "CopyFrom env heap s0 ?d0 = Some (src1, dst1)"
    "tbl_inv src1" "logical_size src1 = ?n" "flat src1 = flat src" "chunks_ok dst1" "?n \<le> length (flat dst1)"
    "copied heap (flat src) ?n dst1" "logical_size dst1 = ?n" "\<not> under_copying dst1" "changes dst1 = []"
    "fst ` set (changes src1) \<subseteq> P"
    by blast
  have di: "tbl_inv dst1"
    using c(2,3,5,6,8-10) less_le_trans [OF _ c(6)] by (simp add: tbl_inv_def)
  have keys: "\<forall>p\<in>fst ` set (changes src1). unat p < logical_size dst1" "distinct (map fst (changes src1))"
    using c(2,3,8) by (simp_all add: tbl_inv_def)
  obtain dst2 where d2: "tbl_Sets (changes src1) dst1 = Some dst2" "tbl_inv dst2" "logical_size dst2 = ?n"
    "\<not> under_copying dst2"
    "\<And>q. tbl_Get dst2 q = (case map_of (rev (changes src1)) q of Some v \<Rightarrow> Some v | None \<Rightarrow> tbl_Get dst1 q)"
    by (rule tbl_Sets_ok [OF di keys(1)]) (use c(8,9) that in auto)
  have cv: "logical_size src1 \<le> length (flat src1)" using c(3,4) cover by simp
  have "tbl_Get dst2 p = (if p \<in> fst ` set (changes src1) then tbl_Get src1 p
         else map_option (copy_value (heap (unat p div kChunkSize))) (tbl_Get src1 p))" for p
  proof (cases "map_of (changes src1) p")
    case None
    then have "p \<notin> fst ` set (changes src1)" by (simp add: map_of_eq_None_iff)
    then show ?thesis
      using None c(3,7,8) unfolding d2(5) map_of_rev_distinct [OF keys(2)] tbl_Get_inv [OF di] tbl_Get_inv [OF c(2)] c(4,10)
      by (simp add: copied_def)
  next
    case (Some v)
    then have "p \<in> fst ` set (changes src1)" by (metis map_of_eq_None_iff option.distinct(1))
    then show ?thesis
      using Some c(3,8) keys(1) unfolding d2(5) map_of_rev_distinct [OF keys(2)] tbl_Get_inv [OF c(2)] by auto
  qed
  moreover have "ApplyPendingTo src1 dst1 = Some dst2" using d2(1) c(3,8) by (simp add: ApplyPendingTo_def)
  moreover have "tbl_Get src1 p = tbl_Get src p" if "p \<notin> P" for p
  proof -
    have "map_of (changes src1) p = None" using that c(11) by (auto simp: map_of_eq_None_iff)
    moreover have "changes src = []" using inv by (simp add: tbl_inv_def)
    ultimately show ?thesis unfolding tbl_Get_inv [OF c(2)] tbl_Get_inv [OF inv(1)] c(3,4) by simp
  qed
  ultimately show ?thesis using c(1-3,11) d2(2-4) cv unfolding s0_def by blast
qed

end
