(* ===== verification/File_Names.thy ===== *)
theory File_Names
  imports Eloq_Prelude "HOL-Library.Word"
begin

text \<open>
  The names of data, segment, manifest, archive and term files (\<open>include/common.h\<close>): building a
  name from its parts, taking a name apart again, and the decimal conversions both rest on.

  A \<open>string_view\<close> is the list of its characters; \<open>npos\<close> is None, and so is a parse that returns
  false. \<open>strtoull\<close> is modelled with the leading blanks and the sign that it accepts; it reads up to
  the end of the view, because the character after a view that is parsed is a separator or the
  terminating zero of the name.
\<close>

section \<open>Library functions\<close>

text \<open>\<open>std::to_string\<close> of an unsigned integer.\<close>

definition digit_char :: "nat \<Rightarrow> char" where
  "digit_char d = char_of (48 + d)"

fun to_string :: "nat \<Rightarrow> string" where
  "to_string n = (if n < 10 then [digit_char n] else to_string (n div 10) @ [digit_char (n mod 10)])"

declare to_string.simps [simp del]

definition is_digit :: "char \<Rightarrow> bool" where
  "is_digit c \<longleftrightarrow> 48 \<le> (of_char c :: nat) \<and> (of_char c :: nat) \<le> 57"

definition digit_val :: "char \<Rightarrow> nat" where
  "digit_val c = of_char c - 48"

definition is_space :: "char \<Rightarrow> bool" where
  "is_space c \<longleftrightarrow> c = CHR '' '' \<or> 9 \<le> (of_char c :: nat) \<and> (of_char c :: nat) \<le> 13"

definition decimal :: "string \<Rightarrow> nat" where
  "decimal ds = foldl (\<lambda>acc c. 10 * acc + digit_val c) 0 ds"

text \<open>\<open>strtoull (s, &end, 10)\<close>: the result, the number of characters consumed, and whether
  \<open>errno\<close> was set.\<close>

definition strtoull :: "string \<Rightarrow> uint64 \<times> nat \<times> bool" where
  "strtoull s =
    (let s1 = dropWhile is_space s;
         negate = (s1 \<noteq> [] \<and> hd s1 = CHR ''-'');
         s2 = (if s1 \<noteq> [] \<and> hd s1 \<in> {CHR ''-'', CHR ''+''} then tl s1 else s1);
         ds = takeWhile is_digit s2;
         n = decimal ds
     in if ds = [] then (0, 0, False)
        else if 2 ^ 64 \<le> n then (- 1, length s - length s2 + length ds, True)
        else (if negate then - of_nat n else of_nat n, length s - length s2 + length ds, False))"

text \<open>\<open>find\<close> and \<open>rfind\<close> of a character.\<close>

definition find_char :: "char \<Rightarrow> string \<Rightarrow> nat option" where
  "find_char c s = (if c \<in> set s then Some (length (takeWhile (\<lambda>x. x \<noteq> c) s)) else None)"

definition rfind_char :: "char \<Rightarrow> string \<Rightarrow> nat option" where
  "rfind_char c s =
    (if c \<in> set s then Some (length s - 1 - length (takeWhile (\<lambda>x. x \<noteq> c) (rev s))) else None)"

section \<open>Name parts\<close>

definition FileNameSeparator :: char where
  "FileNameSeparator = CHR ''_''"

definition FileNameData :: string where
  "FileNameData = ''data''"

definition FileNameSegment :: string where
  "FileNameSegment = ''segment''"

definition FileNameManifest :: string where
  "FileNameManifest = ''manifest''"

definition CurrentTermFileName :: string where
  "CurrentTermFileName = ''CURRENT_TERM''"

definition ParseFileName :: "string \<Rightarrow> string \<times> string" where
  "ParseFileName name =
    (case find_char FileNameSeparator name of
       None \<Rightarrow> (name, [])
     | Some pos \<Rightarrow> (take pos name, drop (pos + 1) name))"

definition ParseUint64 :: "string \<Rightarrow> uint64 option" where
  "ParseUint64 str =
    (if str = [] then None
     else let (out, endp, err) = strtoull str in
       if err \<or> endp \<noteq> length str then None else Some out)"

definition is_lower :: "char \<Rightarrow> bool" where
  "is_lower c \<longleftrightarrow> 97 \<le> (of_char c :: nat) \<and> (of_char c :: nat) \<le> 122"

definition is_upper :: "char \<Rightarrow> bool" where
  "is_upper c \<longleftrightarrow> 65 \<le> (of_char c :: nat) \<and> (of_char c :: nat) \<le> 90"

fun NormalizeBranchName_loop :: "string \<Rightarrow> string \<Rightarrow> string" where
  "NormalizeBranchName_loop normalized [] = normalized"
| "NormalizeBranchName_loop normalized (c # cs) =
    (if is_lower c \<or> is_digit c \<or> c = CHR ''-''
     then NormalizeBranchName_loop (normalized @ [c]) cs
     else if is_upper c
     then NormalizeBranchName_loop (normalized @ [char_of (of_char c + 32 :: nat)]) cs
     else [])"

definition NormalizeBranchName :: "string \<Rightarrow> string" where
  "NormalizeBranchName branch_name =
    (if branch_name = [] then [] else NormalizeBranchName_loop [] branch_name)"

definition branch_char :: "char \<Rightarrow> bool" where
  "branch_char c \<longleftrightarrow> is_lower c \<or> is_upper c \<or> is_digit c \<or> c = CHR ''-''"

definition IsValidBranchName :: "string \<Rightarrow> bool" where
  "IsValidBranchName branch_name \<longleftrightarrow> branch_name \<noteq> [] \<and> list_all branch_char branch_name"

section \<open>Taking names apart\<close>

definition ParseDataFileSuffix :: "string \<Rightarrow> (FileId \<times> string \<times> uint64) option" where
  "ParseDataFileSuffix sfx =
    (if sfx = [] then None
     else case find_char FileNameSeparator sfx of
       None \<Rightarrow> None
     | Some first_sep \<Rightarrow>
         (case map_option (\<lambda>n. first_sep + 1 + n)
                 (find_char FileNameSeparator (drop (first_sep + 1) sfx)) of
            None \<Rightarrow> None
          | Some second_sep \<Rightarrow>
              let file_id_str = take first_sep sfx;
                  branch_str = take (second_sep - first_sep - 1) (drop (first_sep + 1) sfx);
                  term_str = drop (second_sep + 1) sfx
              in case ParseUint64 file_id_str of
                   None \<Rightarrow> None
                 | Some parsed_id \<Rightarrow>
                     if \<not> IsValidBranchName branch_str then None
                     else map_option (\<lambda>parsed_term. (parsed_id, branch_str, parsed_term))
                            (ParseUint64 term_str)))"

definition ParseSegmentFileSuffix :: "string \<Rightarrow> (FileId \<times> string \<times> uint64) option" where
  "ParseSegmentFileSuffix sfx = ParseDataFileSuffix sfx"

definition ParseManifestFileSuffix :: "string \<Rightarrow> (string \<times> uint64 \<times> string option) option" where
  "ParseManifestFileSuffix sfx =
    (if sfx = [] then None
     else case find_char FileNameSeparator sfx of
       None \<Rightarrow> None
     | Some first_sep \<Rightarrow>
         let branch_str = take first_sep sfx;
             remainder = drop (first_sep + 1) sfx
         in if \<not> IsValidBranchName branch_str then None
            else if ParseUint64 branch_str \<noteq> None then None
            else case find_char FileNameSeparator remainder of
                None \<Rightarrow> map_option (\<lambda>term. (branch_str, term, None)) (ParseUint64 remainder)
              | Some second_sep \<Rightarrow>
                  let term_str = take second_sep remainder;
                      tag_str = drop (second_sep + 1) remainder
                  in case ParseUint64 term_str of
                       None \<Rightarrow> None
                     | Some term \<Rightarrow>
                         if tag_str = [] then None else Some (branch_str, term, Some tag_str))"

definition ManifestTermFromFilename :: "string \<Rightarrow> uint64" where
  "ManifestTermFromFilename filename =
    (let (type, sfx) = ParseFileName filename in
     if type \<noteq> FileNameManifest then 0
     else case ParseManifestFileSuffix sfx of None \<Rightarrow> 0 | Some (_, term, _) \<Rightarrow> term)"

definition IsArchiveFile :: "string \<Rightarrow> bool" where
  "IsArchiveFile filename =
    (let (type, sfx) = ParseFileName filename in
     if type \<noteq> FileNameManifest then False
     else case ParseManifestFileSuffix sfx of
            None \<Rightarrow> False | Some (_, _, tag) \<Rightarrow> tag \<noteq> None)"

definition IsBranchManifest :: "string \<Rightarrow> bool" where
  "IsBranchManifest filename =
    (let (type, sfx) = ParseFileName filename in
     if type \<noteq> FileNameManifest then False
     else case ParseManifestFileSuffix sfx of
            None \<Rightarrow> False | Some (_, _, ts) \<Rightarrow> ts = None)"

definition IsBranchArchive :: "string \<Rightarrow> bool" where
  "IsBranchArchive filename =
    (let (type, sfx) = ParseFileName filename in
     if type \<noteq> FileNameManifest then False
     else case ParseManifestFileSuffix sfx of
            None \<Rightarrow> False | Some (_, _, ts) \<Rightarrow> ts \<noteq> None)"

definition IsBranchDataFile :: "string \<Rightarrow> bool" where
  "IsBranchDataFile filename =
    (let (type, sfx) = ParseFileName filename in
     if type \<noteq> FileNameData then False else ParseDataFileSuffix sfx \<noteq> None)"

text \<open>Decimal digits with an overflow test before each step, as in \<open>ParseBranchTerm\<close> (64 bits)
  and in \<open>ParseCurrentTermFilename\<close> (32 bits).\<close>

fun parse_digits :: "'a::len word \<Rightarrow> string \<Rightarrow> 'a word option" where
  "parse_digits result [] = Some result"
| "parse_digits result (c # cs) =
    (if is_digit c
     then let digit = of_nat (digit_val c) in
          if result > (- 1 - digit) div 10 then None else parse_digits (result * 10 + digit) cs
     else None)"

definition ParseCurrentTermFilename :: "string \<Rightarrow> (string \<times> uint32) option" where
  "ParseCurrentTermFilename filename =
    (let pfx = CurrentTermFileName in
     if length filename \<le> length pfx \<or> take (length pfx) filename \<noteq> pfx then None
     else if filename ! length pfx \<noteq> FileNameSeparator then None
     else
       let remainder = drop (length pfx + 1) filename
       in case rfind_char FileNameSeparator remainder of
            None \<Rightarrow> None
          | Some last_sep \<Rightarrow>
              if last_sep = 0 \<or> last_sep = length remainder - 1 then None
              else
                let branch_str = take last_sep remainder;
                    pg_id_str = drop (last_sep + 1) remainder
                in if \<not> IsValidBranchName branch_str then None
                   else map_option (\<lambda>pg_id. (branch_str, pg_id)) (parse_digits 0 pg_id_str))"

definition ParseBranchTerm :: "string \<Rightarrow> uint64 option" where
  "ParseBranchTerm content = (if content = [] then None else parse_digits 0 content)"

section \<open>Building names\<close>

definition DataFileName :: "FileId \<Rightarrow> uint64 \<Rightarrow> string" where
  "DataFileName file_id term =
    FileNameData @ [FileNameSeparator] @ to_string (unat file_id) @ [FileNameSeparator]
      @ to_string (unat term)"

definition branch_file_name :: "string \<Rightarrow> FileId \<Rightarrow> string \<Rightarrow> uint64 \<Rightarrow> string" where
  "branch_file_name kind file_id branch_name term =
    (let normalized_branch = NormalizeBranchName branch_name in
     if normalized_branch = [] then []
     else kind @ [FileNameSeparator] @ to_string (unat file_id) @ [FileNameSeparator]
            @ normalized_branch @ [FileNameSeparator] @ to_string (unat term))"

definition SegmentFileName :: "FileId \<Rightarrow> string \<Rightarrow> uint64 \<Rightarrow> string" where
  "SegmentFileName file_id branch_name term = branch_file_name FileNameSegment file_id branch_name term"

definition BranchDataFileName :: "FileId \<Rightarrow> string \<Rightarrow> uint64 \<Rightarrow> string" where
  "BranchDataFileName file_id branch_name term = branch_file_name FileNameData file_id branch_name term"

definition ManifestFileName :: "uint64 \<Rightarrow> string" where
  "ManifestFileName term = FileNameManifest @ [FileNameSeparator] @ to_string (unat term)"

definition ArchiveName :: "uint64 \<Rightarrow> uint64 \<Rightarrow> string" where
  "ArchiveName term ts =
    FileNameManifest @ [FileNameSeparator] @ to_string (unat term) @ [FileNameSeparator]
      @ to_string (unat ts)"

definition BranchManifestFileName :: "string \<Rightarrow> uint64 \<Rightarrow> string" where
  "BranchManifestFileName branch_name term =
    (let normalized_branch = NormalizeBranchName branch_name in
     if normalized_branch = [] then []
     else FileNameManifest @ [FileNameSeparator] @ normalized_branch @ [FileNameSeparator]
            @ to_string (unat term))"

definition BranchArchiveName :: "string \<Rightarrow> uint64 \<Rightarrow> string \<Rightarrow> string" where
  "BranchArchiveName branch_name term tag =
    (let normalized_branch = NormalizeBranchName branch_name in
     if normalized_branch = [] then []
     else FileNameManifest @ [FileNameSeparator] @ normalized_branch @ [FileNameSeparator]
            @ to_string (unat term) @ [FileNameSeparator] @ tag)"

definition CurrentTermFileNameForBranchAndPartitionGroup :: "string \<Rightarrow> uint32 \<Rightarrow> string" where
  "CurrentTermFileNameForBranchAndPartitionGroup branch_name partition_group_id =
    (let normalized_branch = NormalizeBranchName branch_name in
     if normalized_branch = [] then []
     else CurrentTermFileName @ [FileNameSeparator] @ normalized_branch @ [FileNameSeparator]
            @ to_string (unat partition_group_id))"

definition TermToString :: "uint64 \<Rightarrow> string" where
  "TermToString term = to_string (unat term)"

section \<open>Decimal conversions\<close>

lemma of_char_digit_char [simp]: "d < 10 \<Longrightarrow> (of_char (digit_char d) :: nat) = 48 + d"
  by (simp add: digit_char_def)

lemma is_digit_digit_char [simp]: "d < 10 \<Longrightarrow> is_digit (digit_char d)"
  by (simp add: is_digit_def)

lemma digit_val_digit_char [simp]: "d < 10 \<Longrightarrow> digit_val (digit_char d) = d"
  by (simp add: digit_val_def)

lemma digit_val_le: "is_digit c \<Longrightarrow> digit_val c \<le> 9"
  unfolding is_digit_def digit_val_def by linarith

lemma is_digit_not [simp]: "\<not> is_digit FileNameSeparator" "\<not> is_digit CHR ''-''" "\<not> is_digit CHR ''+''"
  by (simp_all add: is_digit_def FileNameSeparator_def)

lemma is_digit_not_space: "is_digit c \<Longrightarrow> \<not> is_space c"
  by (auto simp: is_digit_def is_space_def)

lemma decimal_Nil [simp]: "decimal [] = 0"
  by (simp add: decimal_def)

lemma decimal_snoc [simp]: "decimal (ds @ [c]) = 10 * decimal ds + digit_val c"
  by (simp add: decimal_def)

lemma to_string_digits: "list_all is_digit (to_string n)"
proof (induction n rule: to_string.induct)
  case (1 n)
  then show ?case by (subst to_string.simps) (simp add: list_all_append)
qed

lemma to_string_not_Nil [simp]: "to_string n \<noteq> []"
  by (subst to_string.simps) simp

lemma decimal_to_string [simp]: "decimal (to_string n) = n"
proof (induction n rule: to_string.induct)
  case (1 n)
  then show ?case
    by (subst to_string.simps) (simp add: decimal_def del: foldl_append, simp add: decimal_def)
qed

lemma separator_notin_to_string [simp]: "FileNameSeparator \<notin> set (to_string n)"
  using to_string_digits [of n] by (auto simp: list_all_iff)

lemma strtoull_digits:
  assumes "s \<noteq> []" "list_all is_digit s" "decimal s < 2 ^ 64"
  shows "strtoull s = (of_nat (decimal s), length s, False)"
proof -
  from assms obtain c cs where s: "s = c # cs" "is_digit c" by (cases s) auto
  then have "dropWhile is_space s = s" "hd s \<notin> {CHR ''-'', CHR ''+''}"
    using is_digit_not_space by auto
  moreover have t: "takeWhile is_digit s = s" using assms by (simp add: list_all_iff takeWhile_eq_all_conv)
  ultimately show ?thesis using assms(1,3) by (simp add: strtoull_def Let_def t del: takeWhile_eq_all_conv)
qed

lemma ParseUint64_digits:
  "s \<noteq> [] \<Longrightarrow> list_all is_digit s \<Longrightarrow> decimal s < 2 ^ 64 \<Longrightarrow> ParseUint64 s = Some (of_nat (decimal s))"
  by (simp add: ParseUint64_def strtoull_digits)

lemma unat_lt_64: "unat (w :: uint64) < 2 ^ 64"
  using unsigned_less [of w, where ?'a = nat] by simp

lemma ParseUint64_to_string [simp]: "ParseUint64 (to_string (unat w)) = Some w"
proof -
  have "decimal (to_string (unat w)) < 2 ^ 64" by (simp only: decimal_to_string unat_lt_64)
  from ParseUint64_digits [OF to_string_not_Nil to_string_digits this] show ?thesis by simp
qed

text \<open>The overflow test of \<open>parse_digits\<close> is exact: the loop succeeds on exactly the digit strings
  whose value fits the word.\<close>

lemma digits_fold_mono: "acc \<le> foldl (\<lambda>acc c. 10 * acc + digit_val c) acc ds"
proof (induction ds arbitrary: acc)
  case (Cons c cs)
  show ?case using Cons [of "10 * acc + digit_val c"] by simp
qed simp

lemma parse_digits_step:
  fixes r :: "'a::len word"
  assumes len: "(4 :: nat) \<le> LENGTH('a)" and d: "d \<le> 9"
  shows "r > (- 1 - of_nat d) div 10 \<longleftrightarrow> 2 ^ LENGTH('a) \<le> 10 * unat r + d"
    and "10 * unat r + d < 2 ^ LENGTH('a) \<Longrightarrow> unat (r * 10 + of_nat d) = 10 * unat r + d"
proof -
  let ?M = "2 ^ LENGTH('a) :: nat"
  have ten: "16 \<le> ?M" using power_increasing [OF len, of "2::nat"] by simp
  have small: "unat (of_nat n :: 'a word) = n" if "n < ?M" for n
    using that by (simp add: unat_of_nat take_bit_nat_eq_self)
  have ud: "unat (of_nat d :: 'a word) = d" using d ten by (intro small) linarith
  have u10: "unat (10 :: 'a word) = 10" using ten small [of 10] by simp
  have um: "unat (- 1 - of_nat d :: 'a word) = ?M - 1 - d"
  proof -
    have "(of_nat d :: 'a word) \<le> - 1" by simp
    then show ?thesis by (simp add: unat_sub ud unsigned_minus_1_eq_mask mask_eq_exp_minus_1)
  qed
  have "r > (- 1 - of_nat d) div 10 \<longleftrightarrow> unat r > (?M - 1 - d) div 10"
    unfolding word_less_nat_alt unat_div um u10 ..
  also have "\<dots> \<longleftrightarrow> ?M \<le> 10 * unat r + d" using d ten by auto
  finally show "r > (- 1 - of_nat d) div 10 \<longleftrightarrow> 2 ^ LENGTH('a) \<le> 10 * unat r + d" .
  show "unat (r * 10 + of_nat d) = 10 * unat r + d" if "10 * unat r + d < ?M"
  proof -
    have "unat (of_nat (10 * unat r + d) :: 'a word) = 10 * unat r + d" by (rule small) (rule that)
    moreover have "(of_nat (10 * unat r + d) :: 'a word) = r * 10 + of_nat d" by (simp add: mult.commute)
    ultimately show ?thesis by metis
  qed
qed

lemma parse_digits_exact:
  fixes r :: "'a::len word"
  assumes len: "(4 :: nat) \<le> LENGTH('a)"
  shows "parse_digits r ds =
    (if list_all is_digit ds \<and> foldl (\<lambda>acc c. 10 * acc + digit_val c) (unat r) ds < 2 ^ LENGTH('a)
     then Some (of_nat (foldl (\<lambda>acc c. 10 * acc + digit_val c) (unat r) ds)) else None)"
proof (induction ds arbitrary: r)
  case Nil
  then show ?case by simp
next
  case (Cons c cs)
  show ?case
  proof (cases "is_digit c \<and> 10 * unat r + digit_val c < 2 ^ LENGTH('a)")
    case True
    note step = parse_digits_step [OF len digit_val_le [of c], of r]
    show ?thesis using True step Cons [of "r * 10 + of_nat (digit_val c)"] by (simp add: not_le)
  next
    case False
    show ?thesis
    proof (cases "is_digit c")
      case True
      note step = parse_digits_step [OF len digit_val_le [of c], of r]
      have "\<not> foldl (\<lambda>acc c. 10 * acc + digit_val c) (10 * unat r + digit_val c) cs < 2 ^ LENGTH('a)"
        using False True digits_fold_mono [of "10 * unat r + digit_val c" cs] by linarith
      then show ?thesis using False True step by simp
    qed simp
  qed
qed

lemma ParseBranchTerm_exact:
  "ParseBranchTerm s =
    (if s \<noteq> [] \<and> list_all is_digit s \<and> decimal s < 2 ^ 64 then Some (of_nat (decimal s)) else None)"
  by (simp add: ParseBranchTerm_def parse_digits_exact decimal_def)

section \<open>Separators\<close>

lemma find_char_append: "c \<notin> set a \<Longrightarrow> find_char c (a @ c # b) = Some (length a)"
proof -
  assume "c \<notin> set a"
  then have "takeWhile (\<lambda>x. x \<noteq> c) (a @ c # b) = a"
    by (metis (mono_tags, lifting) append_Nil2 takeWhile.simps(2) takeWhile_append2)
  then show ?thesis by (simp add: find_char_def)
qed

lemma find_char_None: "c \<notin> set a \<Longrightarrow> find_char c a = None"
  by (simp add: find_char_def)

lemma rfind_char_append:
  assumes "c \<notin> set b"
  shows "rfind_char c (a @ c # b) = Some (length a)"
proof -
  have "takeWhile (\<lambda>x. x \<noteq> c) (rev b @ c # rev a) = rev b"
    using assms by (subst takeWhile_append2) auto
  then show ?thesis by (simp add: rfind_char_def)
qed

lemma ParseFileName_append:
  "FileNameSeparator \<notin> set kind \<Longrightarrow> ParseFileName (kind @ FileNameSeparator # rest) = (kind, rest)"
  by (simp add: ParseFileName_def find_char_append)

lemma kind_no_separator [simp]:
  "FileNameSeparator \<notin> set FileNameData"
  "FileNameSeparator \<notin> set FileNameSegment"
  "FileNameSeparator \<notin> set FileNameManifest"
  by (simp_all add: FileNameData_def FileNameSegment_def FileNameManifest_def FileNameSeparator_def)

section \<open>Branch names\<close>

definition to_lower :: "char \<Rightarrow> char" where
  "to_lower c = (if is_upper c then char_of (of_char c + 32 :: nat) else c)"

lemma branch_char_not_separator: "branch_char c \<Longrightarrow> c \<noteq> FileNameSeparator"
  by (auto simp: branch_char_def is_lower_def is_upper_def is_digit_def FileNameSeparator_def)

lemma branch_char_to_lower: "branch_char c \<Longrightarrow> branch_char (to_lower c)"
  by (auto simp: branch_char_def to_lower_def is_lower_def is_upper_def is_digit_def)

lemma to_lower_idem: "to_lower (to_lower c) = to_lower c"
  by (auto simp: to_lower_def is_upper_def)

lemma NormalizeBranchName_loop_eq:
  "NormalizeBranchName_loop acc s = (if list_all branch_char s then acc @ map to_lower s else [])"
proof (induction s arbitrary: acc)
  case (Cons c cs)
  have "is_lower c \<or> is_digit c \<or> c = CHR ''-'' \<Longrightarrow> \<not> is_upper c"
    by (auto simp: is_lower_def is_digit_def is_upper_def)
  with Cons show ?case by (auto simp: branch_char_def to_lower_def)
qed simp

lemma NormalizeBranchName_eq:
  "NormalizeBranchName s = (if IsValidBranchName s then map to_lower s else [])"
  by (simp add: NormalizeBranchName_def IsValidBranchName_def NormalizeBranchName_loop_eq)

lemma NormalizeBranchName_valid:
  "IsValidBranchName b \<Longrightarrow> IsValidBranchName (NormalizeBranchName b)"
  "IsValidBranchName b \<Longrightarrow> NormalizeBranchName b \<noteq> []"
  by (auto simp: NormalizeBranchName_eq IsValidBranchName_def list_all_iff branch_char_to_lower)

lemma NormalizeBranchName_idem: "NormalizeBranchName (NormalizeBranchName b) = NormalizeBranchName b"
  by (auto simp: NormalizeBranchName_eq IsValidBranchName_def to_lower_idem branch_char_to_lower
      list_all_iff)

lemma valid_no_separator: "IsValidBranchName b \<Longrightarrow> FileNameSeparator \<notin> set b"
  using branch_char_not_separator by (auto simp: IsValidBranchName_def list_all_iff)

section \<open>Round trips\<close>

lemma ParseDataFileSuffix_name:
  assumes "IsValidBranchName b"
  shows "ParseDataFileSuffix
    (to_string (unat i) @ FileNameSeparator # b @ FileNameSeparator # to_string (unat t)) = Some (i, b, t)"
proof -
  have "find_char FileNameSeparator (b @ FileNameSeparator # to_string (unat t)) = Some (length b)"
    by (rule find_char_append) (rule valid_no_separator [OF assms])
  then show ?thesis using assms
    by (simp add: ParseDataFileSuffix_def find_char_append)
qed

lemma branch_file_name_parse:
  assumes "IsValidBranchName b" "FileNameSeparator \<notin> set kind"
  shows "\<exists>sfx. ParseFileName (branch_file_name kind i b t) = (kind, sfx)
           \<and> ParseDataFileSuffix sfx = Some (i, NormalizeBranchName b, t)"
  using assms NormalizeBranchName_valid [OF assms(1)]
  by (simp add: branch_file_name_def ParseFileName_append ParseDataFileSuffix_name)

lemma ParseManifestFileSuffix_name:
  assumes "IsValidBranchName b"
  shows "ParseManifestFileSuffix (b @ FileNameSeparator # to_string (unat t)) =
    (if ParseUint64 b = None then Some (b, t, None) else None)"
  using assms by (simp add: ParseManifestFileSuffix_def find_char_append find_char_None valid_no_separator)

lemma ParseManifestFileSuffix_tag:
  assumes "IsValidBranchName b"
  shows "ParseManifestFileSuffix (b @ FileNameSeparator # to_string (unat t) @ FileNameSeparator # tag) =
    (if ParseUint64 b = None \<and> tag \<noteq> [] then Some (b, t, Some tag) else None)"
  using assms by (simp add: ParseManifestFileSuffix_def Let_def find_char_append valid_no_separator)

lemma parse_digits_to_string:
  fixes w :: "'a::len word"
  assumes "4 \<le> LENGTH('a)"
  shows "parse_digits 0 (to_string (unat w)) = Some w"
proof -
  have "foldl (\<lambda>acc c. 10 * acc + digit_val c) 0 (to_string (unat w)) = unat w"
    using decimal_to_string [of "unat w"] by (simp only: decimal_def)
  then show ?thesis using unsigned_less [of w, where ?'a = nat]
    by (simp add: parse_digits_exact [OF assms] to_string_digits)
qed

lemma CurrentTerm_parse:
  assumes "IsValidBranchName b"
  shows "ParseCurrentTermFilename (CurrentTermFileNameForBranchAndPartitionGroup b pg)
    = Some (NormalizeBranchName b, pg)"
proof -
  let ?b = "NormalizeBranchName b"
  have b: "?b \<noteq> []" "IsValidBranchName ?b" using NormalizeBranchName_valid [OF assms] by auto
  have "rfind_char FileNameSeparator (?b @ FileNameSeparator # to_string (unat pg)) = Some (length ?b)"
    by (rule rfind_char_append) simp
  moreover have "length (to_string (unat pg)) \<noteq> 0" by simp
  ultimately show ?thesis using b parse_digits_to_string [of pg]
    by (simp add: ParseCurrentTermFilename_def CurrentTermFileNameForBranchAndPartitionGroup_def
        nth_append Let_def)
qed

end
