(* ===== verification/Branch_Files.thy ===== *)
theory Branch_Files
  imports File_Names Coding
begin

text \<open>
  Which generation, a pair of branch and term, wrote a file: the per-table branch file mapping
  (\<open>include/types.h\<close>, \<open>include/common.h\<close>, \<open>IouringMgr\<close> in \<open>src/async_io_manager.cpp\<close>), its
  lookup by binary search, its maintenance and its serialized form in the manifest; and the table
  identifiers (\<open>src/types.cpp\<close>).

  The mapping is a list of ranges ordered by the running maxima of the data and of the segment
  file ids. A failed CHECK is None.
\<close>

section \<open>Typed file ids\<close>

type_synonym TypedFileId = uint64

definition kMinReserved :: uint64 where
  "kMinReserved = MaxFileId - 1"

definition IsSegmentFile :: "TypedFileId \<Rightarrow> bool" where
  "IsSegmentFile fid \<longleftrightarrow> fid < kMinReserved \<and> fid AND 1 \<noteq> 0"

definition IsDataFile :: "TypedFileId \<Rightarrow> bool" where
  "IsDataFile fid \<longleftrightarrow> fid < kMinReserved \<and> fid AND 1 = 0"

definition ToFileId :: "TypedFileId \<Rightarrow> FileId" where
  "ToFileId fid = drop_bit 1 fid"

definition DataFileKey :: "FileId \<Rightarrow> TypedFileId" where
  "DataFileKey file_id = push_bit 1 file_id"

definition SegmentFileKey :: "FileId \<Rightarrow> TypedFileId" where
  "SegmentFileKey file_id = push_bit 1 file_id OR 1"

definition ManifestFileId :: TypedFileId where
  "ManifestFileId = MaxFileId - 1"

section \<open>The mapping and its lookup\<close>

record BranchFileRange =
  branch_name :: string
  branch_term :: uint64
  max_file_id :: FileId
  max_segment_file_id :: FileId

type_synonym BranchFileMapping = "BranchFileRange list"

definition range_less :: "TypedFileId \<Rightarrow> BranchFileRange \<Rightarrow> bool" where
  "range_less fid r =
    (if IsSegmentFile fid then max_segment_file_id r < ToFileId fid else max_file_id r < ToFileId fid)"

text \<open>\<open>std::lower_bound\<close>: halve the \<open>len\<close> elements that follow position \<open>first\<close> until none is left.\<close>

function std_lower_bound :: "('a \<Rightarrow> bool) \<Rightarrow> 'a list \<Rightarrow> nat \<Rightarrow> nat \<Rightarrow> nat" where
  "std_lower_bound is_less xs first len =
    (if len = 0 then first
     else let half = len div 2; middle = first + half in
       if is_less (xs ! middle) then std_lower_bound is_less xs (middle + 1) (len - half - 1)
       else std_lower_bound is_less xs first half)"
  by pat_completeness auto
termination
  by (relation "measure (\<lambda>(_, _, _, len). len)") auto

declare std_lower_bound.simps [simp del]

definition FindBranchRange :: "BranchFileMapping \<Rightarrow> TypedFileId \<Rightarrow> nat" where
  "FindBranchRange mapping file_id = std_lower_bound (range_less file_id) mapping 0 (length mapping)"

definition FileIdInBranch :: "BranchFileMapping \<Rightarrow> TypedFileId \<Rightarrow> string \<Rightarrow> bool" where
  "FileIdInBranch mapping file_id name =
    (let it = FindBranchRange mapping file_id in
     if it = length mapping then False else branch_name (mapping ! it) = name)"

definition GetBranchNameAndTerm :: "BranchFileMapping \<Rightarrow> TypedFileId \<Rightarrow> (string \<times> uint64) option" where
  "GetBranchNameAndTerm mapping file_id =
    (let it = FindBranchRange mapping file_id in
     if it = length mapping then None
     else Some (branch_name (mapping ! it), branch_term (mapping ! it)))"

definition SetBranchFileIdTerm ::
  "BranchFileMapping \<Rightarrow> TypedFileId \<Rightarrow> string \<Rightarrow> uint64 \<Rightarrow> BranchFileMapping option" where
  "SetBranchFileIdTerm mapping file_id name term =
    (let raw_id = ToFileId file_id; is_segment = IsSegmentFile file_id in
     if mapping \<noteq> [] \<and> branch_name (last mapping) = name \<and> branch_term (last mapping) = term
     then
       if is_segment
       then if raw_id \<ge> max_segment_file_id (last mapping)
            then Some (butlast mapping @ [(last mapping)\<lparr>max_segment_file_id := raw_id\<rparr>]) else None
       else if raw_id \<ge> max_file_id (last mapping)
            then Some (butlast mapping @ [(last mapping)\<lparr>max_file_id := raw_id\<rparr>]) else None
     else
       let inherited = (if mapping = []
             then \<lparr>branch_name = name, branch_term = term, max_file_id = 0, max_segment_file_id = 0\<rparr>
             else \<lparr>branch_name = name, branch_term = term, max_file_id = max_file_id (last mapping),
                   max_segment_file_id = max_segment_file_id (last mapping)\<rparr>)
       in Some (mapping @ [if is_segment then inherited\<lparr>max_segment_file_id := raw_id\<rparr>
                           else inherited\<lparr>max_file_id := raw_id\<rparr>]))"

section \<open>Serialized form\<close>

definition string_bytes :: "string \<Rightarrow> bytes" where
  "string_bytes s = map (\<lambda>c. of_nat (of_char c)) s"

definition bytes_string :: "bytes \<Rightarrow> string" where
  "bytes_string bs = map (\<lambda>b. char_of (unat b)) bs"

definition SerializeBranchFileRange :: "BranchFileRange \<Rightarrow> bytes" where
  "SerializeBranchFileRange r =
    EncodeFixed32 (of_nat (length (branch_name r))) @ string_bytes (branch_name r)
      @ EncodeFixed64 (branch_term r) @ EncodeFixed64 (max_file_id r)
      @ EncodeFixed64 (max_segment_file_id r)"

definition SerializeBranchFileMapping :: "BranchFileMapping \<Rightarrow> bytes" where
  "SerializeBranchFileMapping mapping =
    EncodeFixed64 (of_nat (length mapping)) @ concat (map SerializeBranchFileRange mapping)"

definition DeserializeBranchFileRange :: "bytes \<Rightarrow> (BranchFileRange \<times> bytes) option" where
  "DeserializeBranchFileRange data =
    (if length data < 4 then None
     else let name_len = unat (DecodeFixed32 data); data1 = drop 4 data in
       if length data1 < name_len + 8 * 3 then None
       else let data2 = drop name_len data1 in
         Some (\<lparr>branch_name = bytes_string (take name_len data1), branch_term = DecodeFixed64 data2,
                max_file_id = DecodeFixed64 (drop 8 data2),
                max_segment_file_id = DecodeFixed64 (drop 8 (drop 8 data2))\<rparr>,
               drop 8 (drop 8 (drop 8 data2))))"

definition DeserializeBranchFileMapping :: "bytes \<Rightarrow> BranchFileMapping" where
  "DeserializeBranchFileMapping data =
    (if length data < 8 then []
     else case decode_n DeserializeBranchFileRange (unat (DecodeFixed64 data)) (drop 8 data) of
       None \<Rightarrow> []
     | Some (mapping, _) \<Rightarrow> mapping)"

record BranchManifestMetadata =
  md_branch_name :: string
  md_term :: uint64
  md_file_ranges :: BranchFileMapping

definition SerializeBranchManifestMetadata :: "BranchManifestMetadata \<Rightarrow> bytes" where
  "SerializeBranchManifestMetadata metadata =
    EncodeFixed32 (of_nat (length (md_branch_name metadata))) @ string_bytes (md_branch_name metadata)
      @ EncodeFixed64 (md_term metadata) @ SerializeBranchFileMapping (md_file_ranges metadata)"

definition DeserializeBranchManifestMetadata :: "bytes \<Rightarrow> BranchManifestMetadata option" where
  "DeserializeBranchManifestMetadata data =
    (if length data < 4 then None
     else let name_len = unat (DecodeFixed32 data); data1 = drop 4 data in
       if length data1 < name_len + 8 then None
       else let data2 = drop name_len data1 in
         Some \<lparr>md_branch_name = bytes_string (take name_len data1), md_term = DecodeFixed64 data2,
               md_file_ranges = DeserializeBranchFileMapping (drop 8 data2)\<rparr>)"

section \<open>Table identifiers\<close>

record TableIdent =
  tbl_name :: string
  partition_id :: uint32

definition TableIdent_separator :: char where
  "TableIdent_separator = CHR ''.''"

definition TableIdent_empty :: TableIdent where
  "TableIdent_empty = \<lparr>tbl_name = [], partition_id = 0\<rparr>"

definition TableIdent_ToString :: "TableIdent \<Rightarrow> string" where
  "TableIdent_ToString t = tbl_name t @ [TableIdent_separator] @ to_string (unat (partition_id t))"

text \<open>\<open>std::stoul\<close> throws when nothing was converted or the value is out of range; the result is
  then narrowed to 32 bits.\<close>

definition TableIdent_FromString :: "string \<Rightarrow> TableIdent" where
  "TableIdent_FromString str =
    (case rfind_char TableIdent_separator str of
       None \<Rightarrow> TableIdent_empty
     | Some p \<Rightarrow>
         let (id, consumed, err) = strtoull (drop (p + 1) str) in
         if consumed = 0 \<or> err then TableIdent_empty
         else \<lparr>tbl_name = take p str, partition_id = ucast id\<rparr>)"

definition StorePathIndex :: "TableIdent \<Rightarrow> nat \<Rightarrow> uint32 list \<Rightarrow> nat option" where
  "StorePathIndex t num_paths store_path_lut =
    (if num_paths = 0 \<or> store_path_lut = [] then None
     else let store_path_idx = unat (store_path_lut ! (unat (partition_id t) mod length store_path_lut)) in
       if store_path_idx < num_paths then Some store_path_idx else None)"

definition ShardIndex :: "TableIdent \<Rightarrow> uint16 \<Rightarrow> uint16 option" where
  "ShardIndex t num_shards =
    (if num_shards = 0 then None else Some (of_nat (unat (partition_id t) mod unat num_shards)))"

definition TableIdent_IsValid :: "TableIdent \<Rightarrow> bool" where
  "TableIdent_IsValid t \<longleftrightarrow> tbl_name t \<noteq> []"

section \<open>The mappings of all tables\<close>

type_synonym branch_state = "TableIdent \<rightharpoonup> BranchFileMapping"

definition IouringMgr_GetBranchNameAndTerm ::
  "branch_state \<Rightarrow> TableIdent \<Rightarrow> TypedFileId \<Rightarrow> (string \<times> uint64) option" where
  "IouringMgr_GetBranchNameAndTerm st tbl_id file_id =
    (case st tbl_id of None \<Rightarrow> None | Some mapping \<Rightarrow> GetBranchNameAndTerm mapping file_id)"

definition IouringMgr_SetBranchFileIdTerm ::
  "branch_state \<Rightarrow> TableIdent \<Rightarrow> TypedFileId \<Rightarrow> string \<Rightarrow> uint64 \<Rightarrow> branch_state option" where
  "IouringMgr_SetBranchFileIdTerm st tbl_id file_id name term =
    map_option (\<lambda>mapping. st(tbl_id \<mapsto> mapping))
      (SetBranchFileIdTerm (case st tbl_id of None \<Rightarrow> [] | Some mapping \<Rightarrow> mapping) file_id name term)"

definition SetBranchFileMapping ::
  "branch_state \<Rightarrow> TableIdent \<Rightarrow> BranchFileMapping \<Rightarrow> branch_state" where
  "SetBranchFileMapping st tbl_id mapping = st(tbl_id \<mapsto> mapping)"

definition GetBranchFileMapping :: "branch_state \<Rightarrow> TableIdent \<Rightarrow> BranchFileMapping" where
  "GetBranchFileMapping st tbl_id = (case st tbl_id of None \<Rightarrow> [] | Some mapping \<Rightarrow> mapping)"

section \<open>Typed ids: the two classes do not collide\<close>

lemma FileKey_bounds:
  assumes "fid < (2 :: uint64) ^ 63 - 1"
  shows "unat (push_bit 1 fid) = 2 * unat fid" "2 * unat fid + 1 < 2 ^ 64 - 2"
proof -
  have "unat fid < 2 ^ 63 - 1" using assms by (simp add: word_less_nat_alt)
  then show "2 * unat fid + 1 < 2 ^ 64 - 2" "unat (push_bit 1 fid) = 2 * unat fid"
    by (simp_all add: push_bit_eq_mult unat_mult_lem [THEN iffD1] unat_word_ariths)
qed

lemma unat_kMinReserved: "unat kMinReserved = 2 ^ 64 - 2"
  by (simp add: kMinReserved_def MaxFileId_def)

lemma DataFileKey_class:
  assumes "fid < 2 ^ 63 - 1"
  shows "IsDataFile (DataFileKey fid)" "\<not> IsSegmentFile (DataFileKey fid)" "ToFileId (DataFileKey fid) = fid"
proof -
  have lt: "DataFileKey fid < kMinReserved"
    using FileKey_bounds [OF assms] by (simp add: word_less_nat_alt DataFileKey_def unat_kMinReserved)
  have z: "DataFileKey fid AND 1 = 0"
    by (rule bit_word_eqI)
      (simp only: DataFileKey_def bit_and_iff bit_push_bit_iff bit_1_iff bit_0_eq bot_apply, auto)
  show "IsDataFile (DataFileKey fid)" "\<not> IsSegmentFile (DataFileKey fid)"
    using lt z by (simp_all add: IsDataFile_def IsSegmentFile_def)
  have "fid < 2 ^ 63" using assms by (simp add: word_less_nat_alt)
  then show "ToFileId (DataFileKey fid) = fid"
    using FileKey_bounds [OF assms]
    by (simp add: ToFileId_def DataFileKey_def word_unat_eq_iff unat_div drop_bit_eq_div)
qed

lemma SegmentFileKey_class:
  assumes "fid < 2 ^ 63 - 1"
  shows "IsSegmentFile (SegmentFileKey fid)" "\<not> IsDataFile (SegmentFileKey fid)"
    "ToFileId (SegmentFileKey fid) = fid"
proof -
  have plus: "SegmentFileKey fid = push_bit 1 fid + 1"
    unfolding SegmentFileKey_def
    by (rule disjunctive_add [symmetric]) (simp only: bit_push_bit_iff bit_1_iff, auto)
  have u: "unat (SegmentFileKey fid) = 2 * unat fid + 1"
    using FileKey_bounds [OF assms] unfolding plus by (simp add: unat_word_ariths)
  have lt: "SegmentFileKey fid < kMinReserved"
    using FileKey_bounds [OF assms] u by (simp add: word_less_nat_alt unat_kMinReserved)
  have "bit (SegmentFileKey fid AND 1) 0" by (simp add: SegmentFileKey_def bit_simps)
  then have z: "SegmentFileKey fid AND 1 \<noteq> 0" by (metis bit_0_eq bot_apply bot_bool_def)
  show "IsSegmentFile (SegmentFileKey fid)" "\<not> IsDataFile (SegmentFileKey fid)"
    using lt z by (simp_all add: IsDataFile_def IsSegmentFile_def)
  show "ToFileId (SegmentFileKey fid) = fid"
    using u by (simp add: ToFileId_def word_unat_eq_iff unat_div drop_bit_eq_div)
qed

section \<open>Binary search\<close>

text \<open>On elements partitioned by the predicate, the search stops at the first for which it fails.\<close>

lemma std_lower_bound_partitioned:
  "(\<And>i j. i \<le> j \<Longrightarrow> j < length xs \<Longrightarrow> P (xs ! j) \<Longrightarrow> P (xs ! i)) \<Longrightarrow> first + len \<le> length xs
    \<Longrightarrow> (\<And>i. i < first \<Longrightarrow> P (xs ! i)) \<Longrightarrow> (\<And>i. first + len \<le> i \<Longrightarrow> i < length xs \<Longrightarrow> \<not> P (xs ! i))
    \<Longrightarrow> std_lower_bound P xs first len = length (takeWhile P xs)"
proof (induction P xs first len rule: std_lower_bound.induct)
  case (1 P xs first len)
  note mono = 1(3) and len = 1(4) and below = 1(5) and above = 1(6)
  show ?case
  proof (cases "len = 0")
    case True
    have "takeWhile P xs = take first xs"
      by (rule takeWhile_eq_take_P_nth) (use True len below above in auto)
    then show ?thesis using True len by (simp add: std_lower_bound.simps)
  next
    case False
    define half where "half = len div 2"
    have h: "half < len" using False by (simp add: half_def)
    show ?thesis
    proof (cases "P (xs ! (first + half))")
      case True
      have b: "P (xs ! i)" if "i < first + half + 1" for i
        using mono [of i "first + half"] True that h len by simp
      have a: "\<not> P (xs ! i)" if "first + half + 1 + (len - half - 1) \<le> i" "i < length xs" for i
        using above [of i] that h by simp
      have "std_lower_bound P xs (first + half + 1) (len - half - 1) = length (takeWhile P xs)"
        by (rule 1(1) [OF False half_def refl True mono _ b a]) (use h len in auto)
      then show ?thesis using False True
        by (subst std_lower_bound.simps) (simp add: half_def Let_def)
    next
      case nP: False
      have a: "\<not> P (xs ! i)" if "first + half \<le> i" "i < length xs" for i
        using mono [of "first + half" i] nP that by blast
      have "std_lower_bound P xs first half = length (takeWhile P xs)"
        by (rule 1(2) [OF False half_def refl nP mono _ below a]) (use h len in auto)
      then show ?thesis using False nP
        by (subst std_lower_bound.simps) (simp add: half_def Let_def)
    qed
  qed
qed

definition class_max :: "TypedFileId \<Rightarrow> BranchFileRange \<Rightarrow> FileId" where
  "class_max fid r = (if IsSegmentFile fid then max_segment_file_id r else max_file_id r)"

definition range_le :: "BranchFileRange \<Rightarrow> BranchFileRange \<Rightarrow> bool" where
  "range_le r s \<longleftrightarrow> max_file_id r \<le> max_file_id s \<and> max_segment_file_id r \<le> max_segment_file_id s"

definition branch_sorted :: "BranchFileMapping \<Rightarrow> bool" where
  "branch_sorted m = sorted_wrt range_le m"

lemma range_less_class_max: "range_less fid r \<longleftrightarrow> class_max fid r < ToFileId fid"
  by (simp add: range_less_def class_max_def)

lemma range_le_class_max: "range_le r s \<Longrightarrow> class_max fid r \<le> class_max fid s"
  by (simp add: range_le_def class_max_def)

lemma range_le_refl [simp]: "range_le r r"
  by (simp add: range_le_def)

lemma range_le_trans: "range_le r s \<Longrightarrow> range_le s t \<Longrightarrow> range_le r t"
  by (auto simp: range_le_def)

lemma FindBranchRange_sorted:
  assumes "branch_sorted m"
  shows "FindBranchRange m fid = length (takeWhile (range_less fid) m)"
  unfolding FindBranchRange_def
proof (rule std_lower_bound_partitioned)
  fix i j assume "i \<le> j" "j < length m" "range_less fid (m ! j)"
  moreover have "range_le (m ! i) (m ! j)"
    using assms \<open>i \<le> j\<close> \<open>j < length m\<close> sorted_wrt_nth_less [of range_le m i j]
    by (cases "i = j") (auto simp: branch_sorted_def)
  ultimately show "range_less fid (m ! i)"
    using range_le_class_max [of "m ! i" "m ! j" fid] by (simp add: range_less_class_max)
qed auto

lemma find_takeWhile:
  "find (\<lambda>x. \<not> P x) xs =
    (if length (takeWhile P xs) = length xs then None else Some (xs ! length (takeWhile P xs)))"
  by (induction xs) auto

lemma find_append:
  "find P (xs @ ys) = (case find P xs of None \<Rightarrow> find P ys | Some x \<Rightarrow> Some x)"
  by (induction xs) auto

lemma GetBranchNameAndTerm_sorted:
  assumes "branch_sorted m"
  shows "GetBranchNameAndTerm m fid =
    map_option (\<lambda>r. (branch_name r, branch_term r)) (find (\<lambda>r. \<not> range_less fid r) m)"
  by (simp add: GetBranchNameAndTerm_def FindBranchRange_sorted [OF assms] find_takeWhile Let_def)

lemma branch_sorted_snoc:
  "branch_sorted (m @ [r]) \<longleftrightarrow> branch_sorted m \<and> (m \<noteq> [] \<longrightarrow> range_le (last m) r)"
proof (induction m rule: rev_induct)
  case (snoc x xs)
  then show ?case
    by (auto simp: branch_sorted_def sorted_wrt_append intro: range_le_trans)
qed (simp add: branch_sorted_def)

lemma GetBranchNameAndTerm_extend:
  assumes "branch_sorted (ms @ [x])" "branch_sorted (ms @ [r])" "class_max k x \<le> class_max k r"
    and "branch_name x = branch_name r" "branch_term x = branch_term r"
    and "GetBranchNameAndTerm (ms @ [x]) k = Some g"
  shows "GetBranchNameAndTerm (ms @ [r]) k = Some g"
  using assms(3-)
  unfolding GetBranchNameAndTerm_sorted [OF assms(1)] GetBranchNameAndTerm_sorted [OF assms(2)]
  by (auto simp: find_append range_less_class_max split: option.splits if_splits)

text \<open>Recording a file id above the maxima so far keeps the order, makes the generation the answer
  for that id, and changes no earlier answer.\<close>

lemma SetBranchFileIdTerm_shape:
  assumes "m \<noteq> [] \<longrightarrow> class_max fid (last m) \<le> ToFileId fid"
  obtains r where "branch_name r = b" "branch_term r = t" "class_max fid r = ToFileId fid"
    "m \<noteq> [] \<longrightarrow> range_le (last m) r"
    "SetBranchFileIdTerm m fid b t = Some (m @ [r]) \<or>
     m \<noteq> [] \<and> branch_name (last m) = b \<and> branch_term (last m) = t \<and>
       SetBranchFileIdTerm m fid b t = Some (butlast m @ [r])"
proof (cases "m \<noteq> [] \<and> branch_name (last m) = b \<and> branch_term (last m) = t")
  case True
  then show ?thesis using assms
    that [of "if IsSegmentFile fid then (last m)\<lparr>max_segment_file_id := ToFileId fid\<rparr>
              else (last m)\<lparr>max_file_id := ToFileId fid\<rparr>"]
    by (simp add: SetBranchFileIdTerm_def class_max_def range_le_def split: if_splits)
next
  case False
  define r0 where "r0 = (if m = []
             then \<lparr>branch_name = b, branch_term = t, max_file_id = 0, max_segment_file_id = 0\<rparr>
             else \<lparr>branch_name = b, branch_term = t, max_file_id = max_file_id (last m),
                   max_segment_file_id = max_segment_file_id (last m)\<rparr>)"
  define r where "r = (if IsSegmentFile fid then r0\<lparr>max_segment_file_id := ToFileId fid\<rparr>
              else r0\<lparr>max_file_id := ToFileId fid\<rparr>)"
  have "SetBranchFileIdTerm m fid b t = Some (m @ [r])"
    using False unfolding SetBranchFileIdTerm_def Let_def r_def r0_def by auto
  then show ?thesis using assms
    by (intro that [of r]) (auto simp: r_def r0_def class_max_def range_le_def)
qed

lemma SetBranchFileIdTerm_sorted:
  assumes "branch_sorted m" "m \<noteq> [] \<longrightarrow> class_max fid (last m) \<le> ToFileId fid"
  shows "\<exists>m'. SetBranchFileIdTerm m fid b t = Some m' \<and> branch_sorted m'
    \<and> m' \<noteq> [] \<and> class_max fid (last m') = ToFileId fid
    \<and> (\<forall>k g. GetBranchNameAndTerm m k = Some g \<longrightarrow> GetBranchNameAndTerm m' k = Some g)"
proof -
  obtain r where r: "branch_name r = b" "branch_term r = t" "class_max fid r = ToFileId fid"
    "m \<noteq> [] \<longrightarrow> range_le (last m) r"
    and set: "SetBranchFileIdTerm m fid b t = Some (m @ [r]) \<or>
     m \<noteq> [] \<and> branch_name (last m) = b \<and> branch_term (last m) = t \<and>
       SetBranchFileIdTerm m fid b t = Some (butlast m @ [r])"
    by (rule SetBranchFileIdTerm_shape [OF assms(2)])
  from set show ?thesis
  proof
    assume s: "SetBranchFileIdTerm m fid b t = Some (m @ [r])"
    have so: "branch_sorted (m @ [r])" using assms(1) r(4) by (simp add: branch_sorted_snoc)
    have "GetBranchNameAndTerm (m @ [r]) k = Some g" if "GetBranchNameAndTerm m k = Some g" for k g
      using that unfolding GetBranchNameAndTerm_sorted [OF assms(1)] GetBranchNameAndTerm_sorted [OF so]
      by (auto simp: find_append)
    then show ?thesis using s so r(3) by simp
  next
    assume s: "m \<noteq> [] \<and> branch_name (last m) = b \<and> branch_term (last m) = t \<and>
       SetBranchFileIdTerm m fid b t = Some (butlast m @ [r])"
    then have m: "m = butlast m @ [last m]" by simp
    have so0: "branch_sorted (butlast m @ [last m])" using assms(1) m by simp
    have so: "branch_sorted (butlast m @ [r])"
      using r(4) s so0 [unfolded branch_sorted_snoc] range_le_trans [of _ "last m" r]
      unfolding branch_sorted_snoc by blast
    have "GetBranchNameAndTerm (butlast m @ [r]) k = Some g" if g: "GetBranchNameAndTerm m k = Some g" for k g
    proof -
      have mono: "class_max k (last m) \<le> class_max k r" using r(4) s range_le_class_max by blast
      have "GetBranchNameAndTerm (butlast m @ [last m]) k = Some g" using g m by simp
      from GetBranchNameAndTerm_extend [OF so0 so mono _ _ this] show ?thesis using r(1,2) s by simp
    qed
    then show ?thesis using s so r(3) by simp
  qed
qed

lemma GetBranchNameAndTerm_last:
  assumes "branch_sorted (m @ [r])" "\<And>s. s \<in> set m \<Longrightarrow> range_less fid s" "\<not> range_less fid r"
  shows "GetBranchNameAndTerm (m @ [r]) fid = Some (branch_name r, branch_term r)"
  using assms(2,3) by (auto simp: GetBranchNameAndTerm_sorted [OF assms(1)] find_append find_Some_iff
      split: option.splits)

lemma SetBranchFileIdTerm_lookup:
  assumes "branch_sorted m" "m \<noteq> [] \<longrightarrow> class_max fid (last m) < ToFileId fid"
    and "SetBranchFileIdTerm m fid b t = Some m'"
  shows "GetBranchNameAndTerm m' fid = Some (b, t)"
proof -
  have le: "m \<noteq> [] \<longrightarrow> class_max fid (last m) \<le> ToFileId fid" using assms(2) by auto
  have so: "branch_sorted m'" using SetBranchFileIdTerm_sorted [OF assms(1) le, of b t] assms(3) by auto
  have below: "range_less fid s" if "s \<in> set m" for s
  proof -
    from that have ne: "m \<noteq> []" by auto
    then have "branch_sorted (butlast m @ [last m])" "s \<in> set (butlast m @ [last m])" using assms(1) that by auto
    then have "range_le s (last m)" by (auto simp: branch_sorted_def sorted_wrt_append)
    then show ?thesis using range_le_class_max [of s "last m" fid] assms(2) ne
      by (auto simp: range_less_class_max)
  qed
  obtain r where r: "branch_name r = b" "branch_term r = t" "class_max fid r = ToFileId fid"
    and set: "SetBranchFileIdTerm m fid b t = Some (m @ [r]) \<or>
     m \<noteq> [] \<and> branch_name (last m) = b \<and> branch_term (last m) = t \<and>
       SetBranchFileIdTerm m fid b t = Some (butlast m @ [r])"
    by (rule SetBranchFileIdTerm_shape [OF le])
  then obtain ms where m': "m' = ms @ [r]" "set ms \<subseteq> set m"
    using assms(3) by (auto dest: in_set_butlastD)
  show ?thesis using GetBranchNameAndTerm_last [of ms r fid] so m' below r
    by (auto simp: range_less_class_max)
qed

section \<open>Serialization round trips\<close>

lemma bytes_string_bytes [simp]: "bytes_string (string_bytes s) = s"
proof -
  have "char_of (unat (of_nat (of_char c) :: byte)) = c" for c
  proof -
    have "of_char c < (256 :: nat)" by (rule nat_of_char_less_256)
    then have "unat (of_nat (of_char c) :: byte) = of_char c"
      by (simp add: unat_of_nat take_bit_nat_eq_self)
    then show ?thesis by simp
  qed
  then show ?thesis by (induction s) (simp_all add: bytes_string_def string_bytes_def)
qed

lemma length_string_bytes [simp, size_simps]: "length (string_bytes s) = length s"
  by (simp add: string_bytes_def)

definition name_fits :: "string \<Rightarrow> bool" where
  "name_fits s \<longleftrightarrow> length s < 2 ^ 32"

lemma unat_name_length: "name_fits s \<Longrightarrow> unat (of_nat (length s) :: uint32) = length s"
  by (simp add: name_fits_def unat_of_nat take_bit_nat_eq_self)

definition range_fits :: "BranchFileRange \<Rightarrow> bool" where
  "range_fits r = name_fits (branch_name r)"

interpretation range_codec: codec SerializeBranchFileRange DeserializeBranchFileRange range_fits
  by unfold_locales
    (simp add: SerializeBranchFileRange_def DeserializeBranchFileRange_def range_fits_def
      unat_name_length Let_def size_simps)

lemma DeserializeBranchFileMapping_Serialize:
  assumes "list_all range_fits m" "length m < 2 ^ 64"
  shows "DeserializeBranchFileMapping (SerializeBranchFileMapping m @ rest) = m"
proof -
  have "unat (of_nat (length m) :: uint64) = length m"
    using assms(2) by (simp add: unat_of_nat take_bit_nat_eq_self)
  then show ?thesis
    by (simp add: DeserializeBranchFileMapping_def SerializeBranchFileMapping_def
        range_codec.decode_n_concat [OF assms(1)])
qed

lemma DeserializeBranchManifestMetadata_Serialize:
  assumes "name_fits (md_branch_name md)" "list_all range_fits (md_file_ranges md)"
    "length (md_file_ranges md) < 2 ^ 64"
  shows "DeserializeBranchManifestMetadata (SerializeBranchManifestMetadata md @ rest) = Some md"
  using DeserializeBranchFileMapping_Serialize [OF assms(2,3), of rest]
  by (simp add: DeserializeBranchManifestMetadata_def SerializeBranchManifestMetadata_def
      unat_name_length [OF assms(1)] Let_def size_simps)

section \<open>Table identifiers\<close>

lemma TableIdent_roundtrip: "TableIdent_FromString (TableIdent_ToString t) = t"
proof -
  let ?n = "unat (partition_id t)"
  have lt: "?n < 2 ^ 32" using unsigned_less [of "partition_id t", where ?'a = nat] by simp
  have "TableIdent_separator \<notin> set (to_string ?n)"
    using to_string_digits [of ?n] by (auto simp: list_all_iff TableIdent_separator_def is_digit_def)
  then have r: "rfind_char TableIdent_separator (TableIdent_ToString t) = Some (length (tbl_name t))"
    by (simp add: TableIdent_ToString_def rfind_char_append)
  have "decimal (to_string ?n) < 2 ^ 64" using lt unfolding decimal_to_string by simp
  then have s: "strtoull (to_string ?n) = (of_nat ?n, length (to_string ?n), False)"
    using strtoull_digits [of "to_string ?n"] by (simp add: to_string_digits)
  have "ucast (of_nat ?n :: uint64) = partition_id t"
    using lt by (simp add: word_unat_eq_iff unsigned_ucast_eq take_bit_word_eq_self
        unsigned_of_nat take_bit_nat_eq_self)
  then show ?thesis using s r by (simp add: TableIdent_FromString_def TableIdent_ToString_def)
qed

end
