(* ===== verification/Manifest.thy ===== *)
theory Manifest
  imports Io_Buffer Mapping_Table_Correct Branch_Files
begin

text \<open>
  Building manifest records (\<open>ManifestBuilder\<close> in \<open>src/storage/root_meta.cpp\<close>).  A manifest file is
  a snapshot record followed by log records.  Every record is a header (checksum, root, TTL root,
  payload length), the payload, and padding up to the alignment.

  The hash \<open>XXH3_64bits\<close> is the parameter \<open>hash\<close>; a failed CHECK is None.  The aggregate checksum
  yields between batches, which has no effect on the content.
\<close>

record ManifestBuilder =
  buff :: DirectIoBuffer
  resized_for_mapping_bytes_len :: bool

definition header_bytes :: nat where
  "header_bytes = checksum_bytes + 4 * 3"

definition offset_root :: nat where
  "offset_root = checksum_bytes"

definition offset_ttl_root :: nat where
  "offset_ttl_root = offset_root + 4"

definition offset_len :: nat where
  "offset_len = offset_ttl_root + 4"

section \<open>Checksum\<close>

definition kCheckSumBatchSize :: nat where
  "kCheckSumBatchSize = 1024 * 1024"

definition kChecksumMixer :: uint64 where
  "kChecksumMixer = 0x9e3779b97f4a7c15"

function CalcChecksum_loop :: "(bytes \<Rightarrow> uint64) \<Rightarrow> uint64 \<Rightarrow> bytes \<Rightarrow> uint64" where
  "CalcChecksum_loop hash agg_checksum content =
    (if content = [] then agg_checksum
     else
       let checksum = hash (take kCheckSumBatchSize content)
       in CalcChecksum_loop hash ((word_rotl 1 agg_checksum XOR checksum) * kChecksumMixer)
            (drop kCheckSumBatchSize content))"
  by pat_completeness auto
termination
  by (relation "measure (\<lambda>(_, _, content). length content)") (auto simp: kCheckSumBatchSize_def)

declare CalcChecksum_loop.simps [simp del]

definition CalcChecksum :: "(bytes \<Rightarrow> uint64) \<Rightarrow> bytes \<Rightarrow> uint64" where
  "CalcChecksum hash content = (if content = [] then 0 else CalcChecksum_loop hash 0 content)"

definition Record_ValidateChecksum :: "(bytes \<Rightarrow> uint64) \<Rightarrow> bytes \<Rightarrow> bool" where
  "Record_ValidateChecksum hash rec =
    (if length rec < header_bytes then False
     else DecodeFixed64 rec = CalcChecksum hash (drop checksum_bytes rec))"

section \<open>The builder\<close>

definition mb_Reset :: "nat \<Rightarrow> ManifestBuilder \<Rightarrow> ManifestBuilder" where
  "mb_Reset al b = b\<lparr>buff := dio_resize al (buff b) header_bytes, resized_for_mapping_bytes_len := False\<rparr>"

definition ManifestBuilder_new :: "nat \<Rightarrow> ManifestBuilder" where
  "ManifestBuilder_new al =
    mb_Reset al \<lparr>buff = DirectIoBuffer_new, resized_for_mapping_bytes_len = False\<rparr>"

text \<open>The first change of a log record makes room for the length of the mapping section.\<close>

definition mb_make_room :: "nat \<Rightarrow> ManifestBuilder \<Rightarrow> ManifestBuilder option" where
  "mb_make_room al b =
    (if resized_for_mapping_bytes_len b then Some b
     else if dio_size (buff b) = header_bytes
     then Some (b\<lparr>buff := dio_resize al (buff b) (dio_size (buff b) + 4),
                  resized_for_mapping_bytes_len := True\<rparr>)
     else None)"

definition mb_UpdateMapping :: "nat \<Rightarrow> ManifestBuilder \<Rightarrow> PageId \<Rightarrow> FilePageId \<Rightarrow> ManifestBuilder option" where
  "mb_UpdateMapping al b page_id file_page_id =
    map_option (\<lambda>b1. b1\<lparr>buff := AppendVarint64 al (AppendVarint32 al (buff b1) page_id)
                                (EncodeFilePageId file_page_id)\<rparr>)
      (mb_make_room al b)"

definition mb_DeleteMapping :: "nat \<Rightarrow> ManifestBuilder \<Rightarrow> PageId \<Rightarrow> ManifestBuilder option" where
  "mb_DeleteMapping al b page_id =
    map_option (\<lambda>b1. b1\<lparr>buff := AppendVarint64 al (AppendVarint32 al (buff b1) page_id) InvalidValue\<rparr>)
      (mb_make_room al b)"

text \<open>A section with its length in front: room for the length, the bytes, then the length.\<close>

definition append_section :: "nat \<Rightarrow> DirectIoBuffer \<Rightarrow> bytes \<Rightarrow> DirectIoBuffer" where
  "append_section al b section_bytes =
    (let offset = dio_size b;
         b1 = dio_append al (dio_resize al b (dio_size b + 4)) section_bytes
     in dio_write offset (EncodeFixed32 (of_nat (dio_size b1 - offset - 4))) b1)"

definition mb_AppendBranchManifestMetadata :: "nat \<Rightarrow> ManifestBuilder \<Rightarrow> bytes \<Rightarrow> ManifestBuilder option" where
  "mb_AppendBranchManifestMetadata al b branch_metadata =
    map_option (\<lambda>b1.
        let mapping_len = of_nat (dio_size (buff b1) - header_bytes - 4);
            buf = dio_write header_bytes (EncodeFixed32 mapping_len) (buff b1)
        in b1\<lparr>buff := append_section al buf branch_metadata\<rparr>)
      (mb_make_room al b)"

definition mb_AppendSegmentMapping :: "nat \<Rightarrow> ManifestBuilder \<Rightarrow> bytes \<Rightarrow> ManifestBuilder" where
  "mb_AppendSegmentMapping al b segment_mapping = b\<lparr>buff := dio_append al (buff b) segment_mapping\<rparr>"

definition mb_Empty :: "ManifestBuilder \<Rightarrow> bool" where
  "mb_Empty b \<longleftrightarrow> dio_size (buff b) \<le> header_bytes"

definition mb_CurrentSize :: "ManifestBuilder \<Rightarrow> nat" where
  "mb_CurrentSize b = dio_size (buff b)"

definition mb_Finalize ::
  "nat \<Rightarrow> (bytes \<Rightarrow> uint64) \<Rightarrow> ManifestBuilder \<Rightarrow> PageId \<Rightarrow> PageId \<Rightarrow> bytes \<times> ManifestBuilder" where
  "mb_Finalize al hash b new_root ttl_root =
    (let b1 = dio_write offset_root (EncodeFixed32 new_root) (buff b);
         b2 = dio_write offset_ttl_root (EncodeFixed32 ttl_root) b1;
         payload_len = of_nat (dio_size b2 - header_bytes);
         b3 = dio_write offset_len (EncodeFixed32 payload_len) b2;
         content = drop checksum_bytes (dio_view b3);
         b4 = dio_write 0 (EncodeFixed64 (CalcChecksum hash content)) b3;
         b5 = AlignTo b4 al
     in (dio_view b5, b\<lparr>buff := b5\<rparr>))"

definition mb_Snapshot ::
  "nat \<Rightarrow> (bytes \<Rightarrow> uint64) \<Rightarrow> page_heap \<Rightarrow> ManifestBuilder \<Rightarrow> PageId \<Rightarrow> PageId \<Rightarrow> MappingTbl \<Rightarrow> FilePageId
    \<Rightarrow> bytes \<Rightarrow> BranchManifestMetadata \<Rightarrow> MappingTbl option \<Rightarrow> FilePageId
    \<Rightarrow> (bytes \<times> ManifestBuilder) option" where
  "mb_Snapshot al hash heap b root_id ttl_root mapping max_fp_id dict_bytes branch_metadata
      segment_mapping max_segment_fp_id =
    (let branch_metadata_str = SerializeBranchManifestMetadata branch_metadata;
         b0 = mb_Reset al b;
         b1 = dio_reserve al (buff b0) (4 + 8 * (logical_size mapping + 1) + 4 + length branch_metadata_str);
         b2 = AppendVarint64 al b1 max_fp_id;
         b3 = dio_append al (AppendVarint32 al b2 (of_nat (length dict_bytes))) dict_bytes
     in case tbl_Serialize heap mapping [] of
          None \<Rightarrow> None
        | Some mapping_bytes \<Rightarrow>
            let b4 = append_section al (append_section al b3 mapping_bytes) branch_metadata_str
            in case segment_mapping of
                 None \<Rightarrow> Some (mb_Finalize al hash (b0\<lparr>buff := b4\<rparr>) root_id ttl_root)
               | Some seg_mapping \<Rightarrow>
                   (case tbl_Serialize heap seg_mapping [] of
                      None \<Rightarrow> None
                    | Some seg_bytes \<Rightarrow>
                        Some (mb_Finalize al hash
                          (b0\<lparr>buff := append_section al (AppendVarint64 al b4 max_segment_fp_id) seg_bytes\<rparr>)
                          root_id ttl_root)))"

section \<open>The bytes of a record\<close>

definition sized :: "bytes \<Rightarrow> bytes" where
  "sized bs = EncodeFixed32 (of_nat (length bs)) @ bs"

definition record_content :: "PageId \<Rightarrow> PageId \<Rightarrow> bytes \<Rightarrow> bytes" where
  "record_content root ttl payload =
    EncodeFixed32 root @ EncodeFixed32 ttl @ EncodeFixed32 (of_nat (length payload)) @ payload"

definition record_bytes :: "(bytes \<Rightarrow> uint64) \<Rightarrow> PageId \<Rightarrow> PageId \<Rightarrow> bytes \<Rightarrow> bytes" where
  "record_bytes hash root ttl payload =
    EncodeFixed64 (CalcChecksum hash (record_content root ttl payload)) @ record_content root ttl payload"

lemma header_sizes [simp, size_simps]:
  "checksum_bytes = 8" "header_bytes = 20" "offset_root = 8" "offset_ttl_root = 12" "offset_len = 16"
  by (simp_all add: checksum_bytes_def header_bytes_def offset_root_def offset_ttl_root_def offset_len_def)

lemma length_record_content [simp, size_simps]: "length (record_content root ttl payload) = 12 + length payload"
  by (simp add: record_content_def)

lemma length_record_bytes [simp, size_simps]: "length (record_bytes hash root ttl payload) = 20 + length payload"
  by (simp add: record_bytes_def)

lemma Record_ValidateChecksum_record: "Record_ValidateChecksum hash (record_bytes hash root ttl payload)"
  by (simp add: Record_ValidateChecksum_def record_bytes_def)

lemma append_section_ok:
  assumes "dio_inv al b"
  shows "dio_inv al (append_section al b bs)" "dio_view (append_section al b bs) = dio_view b @ sized bs"
proof -
  let ?r = "dio_resize al b (dio_size b + 4)"
  let ?a = "dio_append al ?r bs"
  note r = dio_resize_ok [OF assms, of "dio_size b + 4"]
  note a = dio_append_ok [OF r(1), of bs]
  have sz: "dio_size ?a = dio_size b + 4 + length bs"
    using length_dio_view [OF a(1)] r(2) a(2) by simp
  obtain x where x: "dio_view ?r = dio_view b @ x" "length x = 4"
    using r(2,4) length_dio_view [OF assms] append_take_drop_id [of "dio_size b" "dio_view ?r"]
    by (metis add_diff_cancel_left' le_add1 length_drop)
  have w: "append_section al b bs = dio_write (dio_size b) (EncodeFixed32 (of_nat (length bs))) ?a"
    by (simp add: append_section_def Let_def sz)
  have le: "dio_size b + length (EncodeFixed32 (of_nat (length bs))) \<le> dio_size ?a" by (simp add: sz)
  show "dio_inv al (append_section al b bs)" unfolding w by (rule dio_write_ok [OF a(1) le])
  show "dio_view (append_section al b bs) = dio_view b @ sized bs"
    unfolding w dio_write_ok(2) [OF a(1) le] a(2) x(1)
    using length_dio_view [OF assms] x(2) by (simp add: write_at_def sized_def)
qed

lemma mb_Finalize_view:
  assumes inv: "dio_inv al (buff b)" and v: "dio_view (buff b) = h @ payload" "length h = 20"
  shows "\<exists>pad. fst (mb_Finalize al hash b root ttl) = record_bytes hash root ttl payload @ pad
    \<and> length (record_bytes hash root ttl payload @ pad) = AlignSize al (20 + length payload)"
    and "dio_inv al (buff (snd (mb_Finalize al hash b root ttl)))"
proof -
  let ?b1 = "dio_write 8 (EncodeFixed32 root) (buff b)"
  let ?b2 = "dio_write 12 (EncodeFixed32 ttl) ?b1"
  let ?b3 = "dio_write 16 (EncodeFixed32 (of_nat (length payload))) ?b2"
  let ?b4 = "dio_write 0 (EncodeFixed64 (CalcChecksum hash (record_content root ttl payload))) ?b3"
  have sz: "dio_size (buff b) = 20 + length payload" using length_dio_view [OF inv] v by simp
  have s: "dio_size (dio_write off x c) = dio_size c" for off x c by (simp add: dio_write_def)
  obtain c0 c1 c2 c3 where h: "h = c0 @ c1 @ c2 @ c3" "length c0 = 8" "length c1 = 4" "length c2 = 4" "length c3 = 4"
    using v(2) append_take_drop_id [of 8 h] append_take_drop_id [of 4 "drop 8 h"]
      append_take_drop_id [of 4 "drop 12 h"]
    by (intro that [of "take 8 h" "take 4 (drop 8 h)" "take 4 (drop 12 h)" "drop 16 h"]) simp_all
  note w1 = dio_write_ok [OF inv, of 8 "EncodeFixed32 root"]
  have i1: "dio_inv al ?b1" "dio_view ?b1 = c0 @ EncodeFixed32 root @ c2 @ c3 @ payload"
    using w1 v h sz by (simp_all add: write_at_def)
  note w2 = dio_write_ok [OF i1(1), of 12 "EncodeFixed32 ttl"]
  have i2: "dio_inv al ?b2" "dio_view ?b2 = c0 @ EncodeFixed32 root @ EncodeFixed32 ttl @ c3 @ payload"
    using w2 i1 h sz by (simp_all add: write_at_def s)
  note w3 = dio_write_ok [OF i2(1), of 16 "EncodeFixed32 (of_nat (length payload))"]
  have i3: "dio_inv al ?b3" "dio_view ?b3 = c0 @ record_content root ttl payload"
    using w3 i2 h sz by (simp_all add: write_at_def s record_content_def)
  note w4 = dio_write_ok [OF i3(1), of 0 "EncodeFixed64 (CalcChecksum hash (record_content root ttl payload))"]
  have i4: "dio_inv al ?b4" "dio_view ?b4 = record_bytes hash root ttl payload"
    using w4 i3 h sz by (simp_all add: write_at_def s record_bytes_def)
  note al = AlignTo_ok [OF i4(1)]
  have f: "mb_Finalize al hash b root ttl = (dio_view (AlignTo ?b4 al), b\<lparr>buff := AlignTo ?b4 al\<rparr>)"
    using i3(2) h(2) sz by (simp add: mb_Finalize_def Let_def s)
  have sz4: "dio_size ?b4 = 20 + length payload" using sz by (simp add: s)
  show "dio_inv al (buff (snd (mb_Finalize al hash b root ttl)))" using f al(1) by simp
  show "\<exists>pad. fst (mb_Finalize al hash b root ttl) = record_bytes hash root ttl payload @ pad
    \<and> length (record_bytes hash root ttl payload @ pad) = AlignSize al (20 + length payload)"
    using al(2,3) i4(2) append_take_drop_id [of "20 + length payload" "dio_view (AlignTo ?b4 al)"]
    unfolding f sz4 by (intro exI [of _ "drop (20 + length payload) (dio_view (AlignTo ?b4 al))"]) simp
qed

end
