(* ===== verification/Page_Mapper.thy ===== *)
theory Page_Mapper
  imports Mapping_Table_Correct Page_Layout
begin

text \<open>
  Page ids and file page ids (\<open>PageMapper\<close>, \<open>AppendAllocator\<close> and \<open>PooledFilePages\<close> in
  \<open>src/storage/page_mapper.cpp\<close>). Free page ids form a list threaded through the mapping table
  itself; file page ids come from a counter, which the pooled allocator complements with a stack
  of ids that were given back.
\<close>

section \<open>File page allocators\<close>

record AppendAllocator =
  a_shift :: nat
  a_max_fp_id :: FilePageId
  a_min_file_id :: FileId
  a_empty_file_cnt :: uint32

record PooledFilePages =
  p_shift :: nat
  p_max_fp_id :: FilePageId
  p_free_ids :: "uint32 list"

datatype FilePageAllocator =
  AppendMode AppendAllocator
| PooledMode PooledFilePages

definition FilePageAllocator_Instance :: "bool \<Rightarrow> KvOptions \<Rightarrow> FilePageAllocator" where
  "FilePageAllocator_Instance data_append_mode opts =
    (if data_append_mode
     then AppendMode \<lparr> a_shift = pages_per_file_shift opts, a_max_fp_id = 0, a_min_file_id = 0,
                       a_empty_file_cnt = 0 \<rparr>
     else PooledMode \<lparr> p_shift = pages_per_file_shift opts, p_max_fp_id = 0, p_free_ids = [] \<rparr>)"

fun fpa_MaxFilePageId :: "FilePageAllocator \<Rightarrow> FilePageId" where
  "fpa_MaxFilePageId (AppendMode a) = a_max_fp_id a"
| "fpa_MaxFilePageId (PooledMode a) = p_max_fp_id a"

fun fpa_shift :: "FilePageAllocator \<Rightarrow> nat" where
  "fpa_shift (AppendMode a) = a_shift a"
| "fpa_shift (PooledMode a) = p_shift a"

definition PagesPerFile :: "FilePageAllocator \<Rightarrow> uint32" where
  "PagesPerFile a = push_bit (fpa_shift a) 1"

definition CurrentFileId :: "FilePageAllocator \<Rightarrow> FileId" where
  "CurrentFileId a = drop_bit (fpa_shift a) (fpa_MaxFilePageId a)"

definition Append_Allocate :: "AppendAllocator \<Rightarrow> FilePageId \<times> AppendAllocator" where
  "Append_Allocate a = (a_max_fp_id a, a\<lparr> a_max_fp_id := a_max_fp_id a + 1 \<rparr>)"

definition Pooled_Allocate :: "PooledFilePages \<Rightarrow> FilePageId \<times> PooledFilePages" where
  "Pooled_Allocate a =
    (if p_free_ids a \<noteq> []
     then (ucast (last (p_free_ids a)), a\<lparr> p_free_ids := butlast (p_free_ids a) \<rparr>)
     else (p_max_fp_id a, a\<lparr> p_max_fp_id := p_max_fp_id a + 1 \<rparr>))"

text \<open>Ids are narrowed to 32 bits when they are put back.\<close>

definition Pooled_Free :: "PooledFilePages \<Rightarrow> FilePageId list \<Rightarrow> PooledFilePages" where
  "Pooled_Free a fp_ids = a\<lparr> p_free_ids := p_free_ids a @ map ucast fp_ids \<rparr>"

fun fpa_Allocate :: "FilePageAllocator \<Rightarrow> FilePageId \<times> FilePageAllocator" where
  "fpa_Allocate (AppendMode a) = map_prod id AppendMode (Append_Allocate a)"
| "fpa_Allocate (PooledMode a) = map_prod id PooledMode (Pooled_Allocate a)"

definition UpdateStat :: "AppendAllocator \<Rightarrow> FileId \<Rightarrow> uint32 \<Rightarrow> AppendAllocator" where
  "UpdateStat a min_file_id hole_cnt =
    (let new_min_fp_id = push_bit (a_shift a) min_file_id;
         a = (if new_min_fp_id > a_max_fp_id a then a\<lparr> a_max_fp_id := new_min_fp_id \<rparr> else a)
     in a\<lparr> a_min_file_id := min_file_id, a_empty_file_cnt := hole_cnt \<rparr>)"

text \<open>The count of empty files is shifted as a 32-bit value.\<close>

definition SpaceSize :: "AppendAllocator \<Rightarrow> uint64" where
  "SpaceSize a =
    (let min_fp_id = push_bit (a_shift a) (a_min_file_id a) in
     (a_max_fp_id a - min_fp_id) - ucast (push_bit (a_shift a) (a_empty_file_cnt a)))"

section \<open>The page mapper\<close>

record PageMapper =
  mapping :: MappingTbl
  free_page_head :: PageId
  free_page_cnt :: nat
  file_page_allocator :: FilePageAllocator

definition PageMapper_new :: "Chunk list option \<Rightarrow> bool \<Rightarrow> KvOptions \<Rightarrow> PageMapper" where
  "PageMapper_new arena data_append_mode opts =
    \<lparr> mapping = MappingTbl_new arena, free_page_head = MaxPageId, free_page_cnt = 0,
      file_page_allocator = FilePageAllocator_Instance data_append_mode opts \<rparr>"

text \<open>The copy constructor; it also ends with a changed source mapper. The copy takes its chunks
  from the pool that the source uses too.\<close>

definition PageMapper_copy ::
  "(nat \<Rightarrow> (PageId \<times> uint64) list) \<Rightarrow> (nat \<Rightarrow> page_heap) \<Rightarrow> PageMapper
    \<Rightarrow> (PageMapper \<times> PageMapper) option" where
  "PageMapper_copy env heap rhs =
    Option.bind (CopyFrom env heap (StartCopying (mapping rhs)) (MappingTbl_new (chunk_arena (mapping rhs))))
      (\<lambda>(src, dst). Option.bind (ApplyPendingTo src dst)
        (\<lambda>dst. Option.bind (FinishCopying (src\<lparr> chunk_arena := chunk_arena dst \<rparr>))
          (\<lambda>src. Some (rhs\<lparr> mapping := src \<rparr>,
             \<lparr> mapping = dst\<lparr> chunk_arena := chunk_arena src \<rparr>,
               free_page_head = free_page_head rhs, free_page_cnt = free_page_cnt rhs,
               file_page_allocator = file_page_allocator rhs \<rparr>))))"

definition GetPage :: "PageMapper \<Rightarrow> (PageId \<times> PageMapper) option" where
  "GetPage m =
    (if free_page_head m = MaxPageId
     then map_option (\<lambda>(p, t). (p, m\<lparr> mapping := t \<rparr>)) (tbl_PushBack (mapping m) InvalidValue)
     else
       let free_page = free_page_head m in
       Option.bind (GetNextFree (mapping m) free_page) (\<lambda>head.
         Option.bind (tbl_Set (mapping m) free_page InvalidValue) (\<lambda>t.
           Some (free_page, m\<lparr> mapping := t, free_page_head := head,
                               free_page_cnt := free_page_cnt m - 1 \<rparr>))))"

definition FreePage :: "PageMapper \<Rightarrow> PageId \<Rightarrow> PageMapper option" where
  "FreePage m page_id =
    (let val = (if free_page_head m = MaxPageId then InvalidValue
                else EncodePageId (free_page_head m))
     in map_option (\<lambda>t. m\<lparr> mapping := t, free_page_head := page_id,
                           free_page_cnt := free_page_cnt m + 1 \<rparr>)
          (tbl_Set (mapping m) page_id val))"

definition MappingCount :: "PageMapper \<Rightarrow> nat" where
  "MappingCount m = logical_size (mapping m) - free_page_cnt m"

definition UpdateMapping :: "PageMapper \<Rightarrow> PageId \<Rightarrow> FilePageId \<Rightarrow> PageMapper option" where
  "UpdateMapping m page_id file_page_id =
    map_option (\<lambda>t. m\<lparr> mapping := t \<rparr>)
      (tbl_Set (mapping m) page_id (EncodeFilePageId file_page_id))"

section \<open>The list of free pages\<close>

text \<open>The pages reached from the head of the free list through the links stored in the table.\<close>

fun free_chain :: "(PageId \<Rightarrow> uint64 option) \<Rightarrow> PageId \<Rightarrow> PageId list \<Rightarrow> bool" where
  "free_chain get h [] \<longleftrightarrow> h = MaxPageId"
| "free_chain get h (f # fs) \<longleftrightarrow>
    h = f \<and> f \<noteq> MaxPageId
    \<and> (case get f of
          None \<Rightarrow> False
        | Some v \<Rightarrow> (v = InvalidValue \<or> GetValType v = VPageId) \<and> free_chain get (next_free v) fs)"

fun walk_free :: "nat \<Rightarrow> (PageId \<Rightarrow> uint64 option) \<Rightarrow> PageId \<Rightarrow> PageId list" where
  "walk_free 0 get h = []"
| "walk_free (Suc n) get h =
    h # (case get h of None \<Rightarrow> [] | Some v \<Rightarrow> walk_free n get (next_free v))"

lemma walk_free_chain: "free_chain get h fs \<Longrightarrow> walk_free (length fs) get h = fs"
  by (induction fs arbitrary: h) (auto split: option.splits)

lemma free_chain_cong:
  "(\<And>f. f \<in> set fs \<Longrightarrow> get f = get' f) \<Longrightarrow> free_chain get h fs = free_chain get' h fs"
  by (induction fs arbitrary: h) (auto split: option.splits)

definition free_list :: "PageMapper \<Rightarrow> PageId list" where
  "free_list m = walk_free (free_page_cnt m) (tbl_Get (mapping m)) (free_page_head m)"

definition live_pages :: "PageMapper \<Rightarrow> PageId set" where
  "live_pages m = {p. unat p < logical_size (mapping m)} - set (free_list m)"

definition page_room :: "PageMapper \<Rightarrow> nat" where
  "page_room m = 2 ^ 29 - logical_size (mapping m) + free_page_cnt m"

definition mapper_inv :: "PageMapper \<Rightarrow> bool" where
  "mapper_inv m \<longleftrightarrow> tbl_inv (mapping m) \<and> logical_size (mapping m) \<le> 2 ^ 29
    \<and> free_chain (tbl_Get (mapping m)) (free_page_head m) (free_list m)
    \<and> distinct (free_list m) \<and> length (free_list m) = free_page_cnt m
    \<and> (\<forall>f\<in>set (free_list m). unat f < logical_size (mapping m))"

lemma mapper_invI:
  assumes "tbl_inv (mapping m)" "logical_size (mapping m) \<le> 2 ^ 29"
    "free_chain (tbl_Get (mapping m)) (free_page_head m) fs" "distinct fs" "length fs = free_page_cnt m"
    "\<And>f. f \<in> set fs \<Longrightarrow> unat f < logical_size (mapping m)"
  shows "mapper_inv m" "free_list m = fs"
proof -
  show "free_list m = fs" using walk_free_chain [OF assms(3)] assms(5) by (simp add: free_list_def)
  then show "mapper_inv m" using assms by (simp add: mapper_inv_def)
qed

lemma next_free_EncodePageId: "unat p < 2 ^ 29 \<Longrightarrow> next_free (EncodePageId p) = p"
  using DecodeId_EncodePageId [of p] EncodePageId_ne_Invalid [of p] by (simp add: next_free_def)

lemma next_free_Invalid: "next_free InvalidValue = MaxPageId"
  by (simp add: next_free_def)

lemma unat_MaxPageId: "unat MaxPageId = 2 ^ 32 - 1"
  by (simp add: MaxPageId_def unsigned_minus_1_eq_mask mask_eq_exp_minus_1)

lemma mapper_inv_new: "tbl_inv (MappingTbl_new arena) \<Longrightarrow> mapper_inv (PageMapper_new arena mode opts)"
  by (intro mapper_invI [where fs = "[]"]) (simp_all add: PageMapper_new_def, simp add: MappingTbl_new_def)

lemma GetPage_fresh:
  assumes inv: "mapper_inv m" and room: "0 < page_room m"
  shows "\<exists>p m'. GetPage m = Some (p, m') \<and> mapper_inv m' \<and> p \<notin> live_pages m
    \<and> live_pages m' = insert p (live_pages m) \<and> page_room m = Suc (page_room m')"
proof -
  let ?t = "mapping m" and ?fs = "free_list m"
  have i: "tbl_inv ?t" "logical_size ?t \<le> 2 ^ 29"
    "free_chain (tbl_Get ?t) (free_page_head m) ?fs" "distinct ?fs" "length ?fs = free_page_cnt m"
    "\<And>f. f \<in> set ?fs \<Longrightarrow> unat f < logical_size ?t"
    using inv by (simp_all add: mapper_inv_def)
  show ?thesis
  proof (cases ?fs)
    case Nil
    then have h: "free_page_head m = MaxPageId" "free_page_cnt m = 0" using i(3,5) by simp_all
    then have size: "logical_size ?t < 2 ^ 32 - 1" "logical_size ?t < 2 ^ 29"
      using room i(2) by (simp_all add: page_room_def)
    obtain t' where t': "tbl_PushBack ?t InvalidValue = Some (of_nat (logical_size ?t), t')" "tbl_inv t'"
      "logical_size t' = logical_size ?t + 1"
      by (rule tbl_PushBack_ok [OF i(1) size(1), of InvalidValue])
    let ?m = "m\<lparr> mapping := t' \<rparr>" and ?p = "of_nat (logical_size ?t) :: PageId"
    have u: "unat ?p = logical_size ?t" using size by (simp add: unsigned_of_nat take_bit_nat_eq_self)
    have m': "mapper_inv ?m" "free_list ?m = []"
      by (rule mapper_invI [where fs = "[]"]; use h t' size in simp)+
    have "unat q < Suc (unat ?p) \<longleftrightarrow> unat q < unat ?p \<or> q = ?p" for q by (rule unat_less_Suc)
    then have "live_pages ?m = insert ?p (live_pages m)" "?p \<notin> live_pages m"
      using t'(3) by (auto simp: live_pages_def m' Nil u)
    moreover have "GetPage m = Some (?p, ?m)" using h t' by (simp add: GetPage_def)
    moreover have "page_room m = Suc (page_room ?m)" using h t'(3) size by (simp add: page_room_def)
    ultimately show ?thesis using m' by blast
  next
    case (Cons f fs)
    obtain v where v: "free_page_head m = f" "f \<noteq> MaxPageId" "tbl_Get ?t f = Some v"
      "free_chain (tbl_Get ?t) (next_free v) fs"
      using i(3) Cons by (auto split: option.splits)
    have f: "unat f < logical_size ?t" "f \<notin> set fs" "distinct fs" "free_page_cnt m = Suc (length fs)"
      using i Cons by auto
    obtain t' where t': "tbl_Set ?t f InvalidValue = Some t'" "tbl_inv t'" "logical_size t' = logical_size ?t"
      "\<forall>q. tbl_Get t' q = (if q = f then Some InvalidValue else tbl_Get ?t q)"
      using tbl_Set_in [OF i(1) f(1)] by blast
    have ch: "free_chain (tbl_Get t') (next_free v) fs"
      using v(4) f(2) t'(4) by (subst free_chain_cong [of _ _ "tbl_Get ?t"]) auto
    define m1 where
      "m1 = m\<lparr> mapping := t', free_page_head := next_free v, free_page_cnt := free_page_cnt m - 1 \<rparr>"
    have m': "mapper_inv m1" "free_list m1 = fs"
      by (rule mapper_invI [where fs = fs]; use ch f t' i Cons in \<open>simp add: m1_def\<close>)+
    have "live_pages m1 = insert f (live_pages m)" "f \<notin> live_pages m"
      using t'(3) f(1,2) by (auto simp: live_pages_def m' Cons) (simp_all add: m1_def)
    moreover have "GetPage m = Some (f, m1)"
      using v t' by (simp add: GetPage_def GetNextFree_def m1_def)
    moreover have "page_room m = Suc (page_room m1)" using f(4) t'(3) by (simp add: page_room_def m1_def)
    ultimately show ?thesis using m' by blast
  qed
qed

lemma FreePage_live:
  assumes inv: "mapper_inv m" and p: "p \<in> live_pages m"
  shows "\<exists>m'. FreePage m p = Some m' \<and> mapper_inv m' \<and> live_pages m' = live_pages m - {p}
    \<and> page_room m' = Suc (page_room m)"
proof -
  let ?t = "mapping m" and ?fs = "free_list m"
  have i: "tbl_inv ?t" "logical_size ?t \<le> 2 ^ 29"
    "free_chain (tbl_Get ?t) (free_page_head m) ?fs" "distinct ?fs" "length ?fs = free_page_cnt m"
    "\<And>f. f \<in> set ?fs \<Longrightarrow> unat f < logical_size ?t"
    using inv by (simp_all add: mapper_inv_def)
  have p': "unat p < logical_size ?t" "p \<notin> set ?fs" "p \<noteq> MaxPageId"
    using p i(2) unat_MaxPageId by (auto simp: live_pages_def)
  define val where "val = (if free_page_head m = MaxPageId then InvalidValue else EncodePageId (free_page_head m))"
  have tag: "val = InvalidValue \<or> GetValType val = VPageId" by (simp add: val_def EncodePageId_tag)
  have val: "next_free val = free_page_head m"
  proof (cases ?fs)
    case Nil
    then show ?thesis using i(3) by (simp add: val_def next_free_def)
  next
    case (Cons f fs)
    then have "free_page_head m = f" "f \<noteq> MaxPageId" "unat f < 2 ^ 29"
      using i(2,3) i(6) [of f] by (auto split: option.splits)
    then show ?thesis by (simp add: val_def next_free_EncodePageId)
  qed
  obtain t' where t': "tbl_Set ?t p val = Some t'" "tbl_inv t'" "logical_size t' = logical_size ?t"
      "\<forall>q. tbl_Get t' q = (if q = p then Some val else tbl_Get ?t q)"
    using tbl_Set_in [OF i(1) p'(1)] by blast
  define m1 where "m1 = m\<lparr> mapping := t', free_page_head := p, free_page_cnt := free_page_cnt m + 1 \<rparr>"
  have "free_chain (tbl_Get t') (free_page_head m) ?fs"
    using i(3) p'(2) t'(4) by (subst free_chain_cong [of _ _ "tbl_Get ?t"]) auto
  then have ch: "free_chain (tbl_Get t') p (p # ?fs)" using t'(4) p' val tag by simp
  have m': "mapper_inv m1" "free_list m1 = p # ?fs"
    by (rule mapper_invI [where fs = "p # ?fs"]; use ch p' t' i in \<open>auto simp: m1_def\<close>)+
  moreover have "live_pages m1 = live_pages m - {p}"
    using t'(3) by (auto simp: live_pages_def m') (simp_all add: m1_def)
  moreover have "FreePage m p = Some m1" using t'(1) by (simp add: FreePage_def val_def m1_def)
  moreover have "page_room m1 = Suc (page_room m)" using t'(3) by (simp add: page_room_def m1_def)
  ultimately show ?thesis by blast
qed

interpretation mapper_pages: id_allocator mapper_inv live_pages page_room GetPage FreePage
  by unfold_locales (simp_all add: GetPage_fresh FreePage_live)

lemma UpdateMapping_live:
  assumes inv: "mapper_inv m" and p: "p \<in> live_pages m"
  shows "\<exists>m'. UpdateMapping m p fp = Some m' \<and> mapper_inv m' \<and> live_pages m' = live_pages m
    \<and> page_room m' = page_room m \<and> file_page_allocator m' = file_page_allocator m
    \<and> (\<forall>q. tbl_Get (mapping m') q = (if q = p then Some (EncodeFilePageId fp) else tbl_Get (mapping m) q))"
proof -
  let ?t = "mapping m" and ?fs = "free_list m"
  have i: "tbl_inv ?t" "logical_size ?t \<le> 2 ^ 29"
    "free_chain (tbl_Get ?t) (free_page_head m) ?fs" "distinct ?fs" "length ?fs = free_page_cnt m"
    "\<And>f. f \<in> set ?fs \<Longrightarrow> unat f < logical_size ?t"
    using inv by (simp_all add: mapper_inv_def)
  have p': "unat p < logical_size ?t" "p \<notin> set ?fs" using p by (auto simp: live_pages_def)
  obtain t' where t': "tbl_Set ?t p (EncodeFilePageId fp) = Some t'" "tbl_inv t'" "logical_size t' = logical_size ?t"
      "\<forall>q. tbl_Get t' q = (if q = p then Some (EncodeFilePageId fp) else tbl_Get ?t q)"
    using tbl_Set_in [OF i(1) p'(1)] by blast
  define m1 where "m1 = m\<lparr> mapping := t' \<rparr>"
  have ch: "free_chain (tbl_Get t') (free_page_head m) ?fs"
    using i(3) p'(2) t'(4) by (subst free_chain_cong [of _ _ "tbl_Get ?t"]) auto
  have m': "mapper_inv m1" "free_list m1 = ?fs"
    by (rule mapper_invI [where fs = ?fs]; use ch t' i in \<open>simp add: m1_def\<close>)+
  moreover have "live_pages m1 = live_pages m" "page_room m1 = page_room m"
    using t'(3) by (simp_all add: live_pages_def m' page_room_def) (simp_all add: m1_def)
  moreover have "UpdateMapping m p fp = Some m1" using t'(1) by (simp add: UpdateMapping_def m1_def)
  ultimately show ?thesis using t'(4) by (simp add: m1_def)
qed

lemma unat_image_below: "n \<le> 2 ^ 32 \<Longrightarrow> bij_betw unat {p :: PageId. unat p < n} {..<n}"
  by (rule bij_betw_byWitness [where f' = of_nat])
    (auto simp: unsigned_of_nat take_bit_nat_eq_self)

lemma MappingCount_live:
  assumes "mapper_inv m"
  shows "MappingCount m = card (live_pages m)"
proof -
  let ?n = "logical_size (mapping m)"
  have n: "?n \<le> 2 ^ 32" using assms by (simp add: mapper_inv_def)
  have "card {p :: PageId. unat p < ?n} = ?n"
    using bij_betw_same_card [OF unat_image_below [OF n]] by simp
  moreover have "card (set (free_list m)) = free_page_cnt m" "set (free_list m) \<subseteq> {p. unat p < ?n}"
    using assms distinct_card [of "free_list m"] by (auto simp: mapper_inv_def)
  ultimately show ?thesis unfolding MappingCount_def live_pages_def by (subst card_Diff_subset) auto
qed

section \<open>File page ids that are given back\<close>

definition pooled_inv :: "PooledFilePages \<Rightarrow> bool" where
  "pooled_inv a \<longleftrightarrow> unat (p_max_fp_id a) \<le> 2 ^ 32 \<and> distinct (p_free_ids a)
    \<and> (\<forall>i\<in>set (p_free_ids a). unat i < unat (p_max_fp_id a))"

definition pooled_live :: "PooledFilePages \<Rightarrow> FilePageId set" where
  "pooled_live a = {f. f < p_max_fp_id a} - ucast ` set (p_free_ids a)"

definition pooled_room :: "PooledFilePages \<Rightarrow> nat" where
  "pooled_room a = 2 ^ 32 - unat (p_max_fp_id a) + length (p_free_ids a)"

lemma unat_ucast_page_id: "unat (ucast (i :: uint32) :: uint64) = unat i"
  using unsigned_less [of i, where ?'a = nat]
  by (simp add: unsigned_ucast_eq take_bit_nat_eq_self)

lemma ucast_64_32: "unat f < 2 ^ 32 \<Longrightarrow> ucast (ucast f :: uint32) = (f :: uint64)"
  by (rule unsigned_word_eqI [where ?'a = nat])
    (simp add: unat_ucast_page_id unsigned_ucast_eq unsigned_take_bit_eq take_bit_nat_eq_self)

lemma inj_ucast_32_64: "inj (ucast :: uint32 \<Rightarrow> uint64)"
  by (rule injI) (metis unat_ucast_page_id unsigned_word_eqI)

lemma Pooled_Allocate_fresh:
  assumes inv: "pooled_inv a" and room: "0 < pooled_room a"
  shows "\<exists>f a'. Pooled_Allocate a = (f, a') \<and> pooled_inv a' \<and> f \<notin> pooled_live a
    \<and> pooled_live a' = insert f (pooled_live a) \<and> pooled_room a = Suc (pooled_room a')"
proof (cases "p_free_ids a" rule: rev_cases)
  case Nil
  let ?n = "p_max_fp_id a"
  have n: "unat ?n < 2 ^ 32" using room inv by (simp add: pooled_room_def pooled_inv_def Nil)
  have u: "unat (?n + 1) = Suc (unat ?n)" using n by (simp add: unat_word_ariths)
  have "f < ?n + 1 \<longleftrightarrow> f = ?n \<or> f < ?n" for f
    unfolding word_less_nat_alt u word_unat_eq_iff by linarith
  then have "pooled_live (a\<lparr> p_max_fp_id := ?n + 1 \<rparr>) = insert ?n (pooled_live a)" "?n \<notin> pooled_live a"
    by (auto simp: pooled_live_def Nil)
  then show ?thesis
    using n u by (simp add: Pooled_Allocate_def Nil pooled_inv_def pooled_room_def)
next
  case (snoc ids i)
  let ?a = "a\<lparr> p_free_ids := ids \<rparr>" and ?f = "ucast i :: uint64"
  have i: "?f < p_max_fp_id a" "i \<notin> set ids"
    using inv by (auto simp: pooled_inv_def snoc word_less_nat_alt unat_ucast_page_id)
  then have "?f \<notin> ucast ` set ids" by (simp add: inj_image_mem_iff [OF inj_ucast_32_64])
  then have "pooled_live ?a = insert ?f (pooled_live a)" "?f \<notin> pooled_live a"
    using i(1) by (auto simp: pooled_live_def snoc)
  then show ?thesis
    using inv by (simp add: Pooled_Allocate_def snoc pooled_inv_def pooled_room_def)
qed

lemma Pooled_Free_live:
  assumes inv: "pooled_inv a" and f: "f \<in> pooled_live a"
  shows "pooled_inv (Pooled_Free a [f])" "pooled_live (Pooled_Free a [f]) = pooled_live a - {f}"
    "pooled_room (Pooled_Free a [f]) = Suc (pooled_room a)"
proof -
  have f': "f < p_max_fp_id a" "f \<notin> ucast ` set (p_free_ids a)" using f by (auto simp: pooled_live_def)
  have "unat f < 2 ^ 32" using f'(1) inv by (simp add: pooled_inv_def word_less_nat_alt)
  then have u: "ucast (ucast f :: uint32) = f" "unat (ucast f :: uint32) = unat f"
    by (rule ucast_64_32) (simp add: \<open>unat f < 2 ^ 32\<close> [simplified] unsigned_ucast_eq take_bit_nat_eq_self)
  have "(ucast f :: uint32) \<notin> set (p_free_ids a)" using f'(2) u(1) by (metis image_eqI)
  then show "pooled_inv (Pooled_Free a [f])" "pooled_live (Pooled_Free a [f]) = pooled_live a - {f}"
    "pooled_room (Pooled_Free a [f]) = Suc (pooled_room a)"
    using inv f'(1) u by (auto simp: Pooled_Free_def pooled_inv_def pooled_live_def pooled_room_def word_less_nat_alt)
qed

interpretation pooled_files: id_allocator pooled_inv pooled_live pooled_room
  "\<lambda>a. Some (Pooled_Allocate a)" "\<lambda>a f. Some (Pooled_Free a [f])"
  by unfold_locales (simp_all add: Pooled_Allocate_fresh Pooled_Free_live)

end
