(* ===== verification/Replayer.thy ===== *)
theory Replayer
  imports Manifest Page_Mapper
begin

text \<open>
  Reading a manifest back (\<open>src/replayer.cpp\<close>): records are parsed and checked one after the other,
  the first is a snapshot, the following are log records applied on top of it.  The file is the
  in-memory manifest of \<open>MemStoreMgr\<close> (\<open>src/async_io_manager.cpp\<close>), that is the bytes not read
  yet.  A failed CHECK or assert, and a fatal log message, is None.
\<close>

section \<open>The manifest file\<close>

definition Manifest_Read :: "bytes \<Rightarrow> nat \<Rightarrow> KvError \<times> bytes \<times> bytes" where
  "Manifest_Read content n =
    (if length content < n then (EndOfFile, [], content) else (NoError, take n content, drop n content))"

definition Manifest_SkipPadding :: "bytes \<Rightarrow> nat \<Rightarrow> KvError \<times> bytes" where
  "Manifest_SkipPadding content n =
    (if length content < n then (EndOfFile, content) else (NoError, drop n content))"

section \<open>The replayer\<close>

record Replayer =
  corrupted_log_found :: bool
  root :: PageId
  ttl_root :: PageId
  mapping_tbl :: MappingTbl
  max_fp_id :: FilePageId
  segment_mapping_tbl :: MappingTbl
  max_segment_fp_id :: FilePageId
  file_size_before_corrupted_log :: nat
  file_size :: nat
  dict_bytes :: bytes
  branch_metadata :: BranchManifestMetadata
  payload :: bytes

definition BranchManifestMetadata_empty :: BranchManifestMetadata where
  "BranchManifestMetadata_empty = \<lparr>md_branch_name = [], md_term = 0, md_file_ranges = []\<rparr>"

definition Replayer_new :: Replayer where
  "Replayer_new =
    \<lparr>corrupted_log_found = False, root = 0, ttl_root = 0, mapping_tbl = MappingTbl_new None,
     max_fp_id = 0, segment_mapping_tbl = MappingTbl_new None, max_segment_fp_id = 0,
     file_size_before_corrupted_log = 0, file_size = 0, dict_bytes = [],
     branch_metadata = BranchManifestMetadata_empty, payload = []\<rparr>"

text \<open>The parse of one record gives the error, the bytes that remain and the new state.\<close>

definition ParseNextRecord ::
  "nat \<Rightarrow> (bytes \<Rightarrow> uint64) \<Rightarrow> bytes \<Rightarrow> Replayer \<Rightarrow> KvError \<times> bytes \<times> Replayer" where
  "ParseNextRecord al hash file r =
    (case Manifest_Read file header_bytes of
       (err, header, file1) \<Rightarrow>
         if err \<noteq> NoError then (err, file1, r)
         else
           let payload_len = unat (DecodeFixed32 (drop offset_len header)) in
           (case Manifest_Read file1 payload_len of
              (err, body, file2) \<Rightarrow>
                if err \<noteq> NoError then (err, file2, r)
                else
                  let content = header @ body;
                      record_size = header_bytes + payload_len;
                      remainder = record_size mod al;
                      padding = al - remainder
                  in if \<not> Record_ValidateChecksum hash content
                     then
                       let r1 = (if corrupted_log_found r then r
                                 else r\<lparr>file_size_before_corrupted_log := file_size r\<rparr>);
                           r2 = r1\<lparr>corrupted_log_found := True, file_size := file_size r1 + record_size\<rparr>
                       in if remainder > 0
                          then (Corrupted, snd (Manifest_SkipPadding file2 padding),
                                r2\<lparr>file_size := file_size r2 + padding\<rparr>)
                          else (Corrupted, file2, r2)
                     else
                       let content = drop checksum_bytes content;
                           done_record = (\<lambda>r. r\<lparr>root := DecodeFixed32 content,
                                         ttl_root := DecodeFixed32 (drop 4 content),
                                         payload := take payload_len (drop 4 (drop 4 (drop 4 content)))\<rparr>)
                       in if remainder > 0
                          then (case Manifest_SkipPadding file2 padding of
                                  (err, file3) \<Rightarrow>
                                    if err \<noteq> NoError
                                    then (EndOfFile, file3, r\<lparr>file_size := file_size r + (record_size + padding)\<rparr>)
                                    else (NoError, file3,
                                          done_record (r\<lparr>file_size := file_size r + (record_size + padding)\<rparr>)))
                          else (NoError, file2, done_record (r\<lparr>file_size := file_size r + record_size\<rparr>))))"

fun push_values :: "MappingTbl \<Rightarrow> uint64 list \<Rightarrow> MappingTbl option" where
  "push_values t [] = Some t"
| "push_values t (v # vs) =
    (case tbl_PushBack t v of None \<Rightarrow> None | Some (_, t') \<Rightarrow> push_values t' vs)"

text \<open>The section with the branch metadata; the second component is what follows it.\<close>

definition read_branch_section ::
  "bytes \<Rightarrow> BranchManifestMetadata \<Rightarrow> (bytes \<times> BranchManifestMetadata) option" where
  "read_branch_section remaining md =
    (if length remaining < 4 then Some (remaining, md)
     else
       let branch_meta_len = unat (DecodeFixed32 remaining); rest = drop 4 remaining in
       if 0 < branch_meta_len \<and> branch_meta_len \<le> length rest
       then map_option (\<lambda>md. (drop branch_meta_len rest, md))
              (DeserializeBranchManifestMetadata (take branch_meta_len rest))
       else Some (rest, md))"

definition DeserializeSnapshot :: "bytes \<Rightarrow> Replayer \<Rightarrow> Replayer option" where
  "DeserializeSnapshot snapshot r =
    (case GetVarint64 snapshot of None \<Rightarrow> None | Some (max_id, snapshot) \<Rightarrow>
     (case GetVarint32 snapshot of None \<Rightarrow> None | Some (dict_len, snapshot) \<Rightarrow>
      (let dict_len = unat dict_len in
       if length snapshot < dict_len then None
       else
         let dict = take dict_len snapshot; snapshot = drop dict_len snapshot in
         if length snapshot < 4 then None
         else
           let mapping_len = unat (DecodeFixed32 snapshot) in
           if \<not> mapping_len < length snapshot - 4 then None
           else
             (case decode_all GetVarint64 (take mapping_len (drop 4 snapshot)) of None \<Rightarrow> None | Some values \<Rightarrow>
              (case push_values (mapping_tbl r) values of None \<Rightarrow> None | Some tbl \<Rightarrow>
               (case read_branch_section (drop (4 + mapping_len) snapshot) (branch_metadata r) of
                  None \<Rightarrow> None
                | Some (remaining, md) \<Rightarrow>
                  let r1 = r\<lparr>max_fp_id := max_id, dict_bytes := dict, mapping_tbl := tbl, branch_metadata := md\<rparr> in
                  if length remaining < 4 then Some r1
                  else
                    (case GetVarint64 remaining of None \<Rightarrow> None | Some (max_seg, remaining) \<Rightarrow>
                     if length remaining < 4 then None
                     else
                       let seg_mapping_len = unat (DecodeFixed32 remaining) in
                       (case decode_all GetVarint64 (take seg_mapping_len (drop 4 remaining)) of
                          None \<Rightarrow> None
                        | Some values \<Rightarrow>
                            map_option (\<lambda>tbl. r1\<lparr>max_segment_fp_id := max_seg, segment_mapping_tbl := tbl\<rparr>)
                              (push_values (tbl_clear (segment_mapping_tbl r)) values)))))))))"

text \<open>One change of a log record: a page id and the value it gets.  The table grows with invalid
  values up to the page id; a file page id raises the next id of the allocator.\<close>

definition GetDelta :: "bytes \<Rightarrow> ((PageId \<times> uint64) \<times> bytes) option" where
  "GetDelta view =
    (case GetVarint32 view of None \<Rightarrow> None | Some (page_id, view) \<Rightarrow>
       map_option (\<lambda>(value, view). ((page_id, value), view)) (GetVarint64 view))"

definition replay_delta :: "MappingTbl \<times> FilePageId \<Rightarrow> PageId \<times> uint64 \<Rightarrow> (MappingTbl \<times> FilePageId) option" where
  "replay_delta s d =
    (case (s, d) of ((tbl, max_id), (page_id, value)) \<Rightarrow>
       Option.bind (push_values tbl (replicate (unat page_id + 1 - logical_size tbl) InvalidValue)) (\<lambda>tbl1.
       Option.bind (tbl_Set tbl1 page_id value) (\<lambda>tbl2.
         Some (tbl2, if IsFilePageId value then max max_id (DecodeId value + 1) else max_id))))"

fun replay_deltas :: "MappingTbl \<times> FilePageId \<Rightarrow> (PageId \<times> uint64) list \<Rightarrow> (MappingTbl \<times> FilePageId) option" where
  "replay_deltas s [] = Some s"
| "replay_deltas s (d # ds) = Option.bind (replay_delta s d) (\<lambda>s'. replay_deltas s' ds)"

definition ReplayLog :: "Replayer \<Rightarrow> Replayer option" where
  "ReplayLog r =
    (if length (payload r) \<le> 4 then None
     else
       let mapping_len = unat (DecodeFixed32 (payload r)) in
       (case decode_all GetDelta (take mapping_len (drop 4 (payload r))) of None \<Rightarrow> None | Some deltas \<Rightarrow>
        (case replay_deltas (mapping_tbl r, max_fp_id r) deltas of None \<Rightarrow> None | Some (tbl, max_id) \<Rightarrow>
         if length (payload r) < 4 + mapping_len then None
         else
           (case read_branch_section (drop (4 + mapping_len) (payload r)) (branch_metadata r) of
              None \<Rightarrow> None
            | Some (remaining, md) \<Rightarrow>
                let r1 = r\<lparr>mapping_tbl := tbl, max_fp_id := max_id, branch_metadata := md\<rparr> in
                if length remaining < 4 then Some r1
                else
                  let seg_delta_len = unat (DecodeFixed32 remaining) in
                  (case decode_all GetDelta (take seg_delta_len (drop 4 remaining)) of None \<Rightarrow> None
                   | Some deltas \<Rightarrow>
                       map_option (\<lambda>(tbl, max_id). r1\<lparr>segment_mapping_tbl := tbl, max_segment_fp_id := max_id\<rparr>)
                         (replay_deltas (segment_mapping_tbl r1, max_segment_fp_id r1) deltas))))))"

text \<open>The record parser consumes at least a header when it returns without reaching the end of the
  file, so the replay loop ends.\<close>

lemma ParseNextRecord_consumes:
  assumes "ParseNextRecord al hash file r = (err, file', r')" "err = NoError \<or> err = Corrupted"
  shows "length file' < length file"
proof -
  obtain e1 h f1 where r1: "Manifest_Read file header_bytes = (e1, h, f1)" by (metis surj_pair)
  define n where "n = unat (DecodeFixed32 (drop offset_len h))"
  obtain e2 b f2 where r2: "Manifest_Read f1 n = (e2, b, f2)" by (metis surj_pair)
  define p where "p = al - (header_bytes + n) mod al"
  obtain e3 f3 where r3: "Manifest_SkipPadding f2 p = (e3, f3)" by (metis surj_pair)
  have l1: "e1 = NoError \<Longrightarrow> length f1 < length file" "e1 \<noteq> NoError \<Longrightarrow> e1 = EndOfFile"
    using r1 by (auto simp: Manifest_Read_def header_bytes_def split: if_splits)
  have l2: "length f2 \<le> length f1" "e2 \<noteq> NoError \<Longrightarrow> e2 = EndOfFile"
    using r2 by (auto simp: Manifest_Read_def split: if_splits)
  have l3: "length f3 \<le> length f2" using r3 by (auto simp: Manifest_SkipPadding_def split: if_splits)
  have "file' = f2 \<or> file' = f3" if "e1 = NoError" "e2 = NoError"
    using assms that
    unfolding ParseNextRecord_def r1 n_def [symmetric] r2 p_def [symmetric] r3 Let_def prod.case
    by (auto simp: r2 r3 split: if_splits)
  moreover have "e1 = NoError \<and> e2 = NoError"
    using assms l1(2) l2(2) unfolding ParseNextRecord_def r1 n_def [symmetric] Let_def prod.case
    by (auto simp: r2 split: if_splits)
  ultimately show ?thesis using l1(1) l2(1) l3 by auto
qed

function Replay_loop ::
  "nat \<Rightarrow> (bytes \<Rightarrow> uint64) \<Rightarrow> bool \<Rightarrow> bytes \<Rightarrow> Replayer \<Rightarrow> (KvError \<times> Replayer) option" where
  "Replay_loop al hash corrupted file r =
    (case ParseNextRecord al hash file r of
       (err, file', r') \<Rightarrow>
         if err = EndOfFile then Some (NoError, r')
         else if err = Corrupted then Replay_loop al hash True file' r'
         else if err \<noteq> NoError then Some (err, r')
         else if corrupted then Some (Corrupted, r')
         else (case ReplayLog r' of None \<Rightarrow> None | Some r'' \<Rightarrow> Replay_loop al hash False file' r''))"
  by pat_completeness auto
termination
  by (relation "measure (\<lambda>(_, _, _, file, _). length file)")
    (auto simp: ParseNextRecord_consumes dest!: sym [of _ "ParseNextRecord _ _ _ _"])

declare Replay_loop.simps [simp del]

definition Replay :: "nat \<Rightarrow> (bytes \<Rightarrow> uint64) \<Rightarrow> bytes \<Rightarrow> Replayer \<Rightarrow> (KvError \<times> Replayer) option" where
  "Replay al hash file r =
    (let r0 = r\<lparr>root := MaxPageId, ttl_root := MaxPageId, mapping_tbl := tbl_clear (mapping_tbl r),
               segment_mapping_tbl := tbl_clear (segment_mapping_tbl r), file_size := 0,
               max_fp_id := MaxFilePageId, max_segment_fp_id := 0, dict_bytes := []\<rparr>
     in case ParseNextRecord al hash file r0 of
          (err, file', r1) \<Rightarrow>
            if err \<noteq> NoError then Some (err, r1)
            else if payload r1 = [] then None
            else
              (case DeserializeSnapshot (payload r1) r1 of None \<Rightarrow> None | Some r2 \<Rightarrow>
               (case Replay_loop al hash False file' r2 of None \<Rightarrow> None | Some (err, r3) \<Rightarrow>
                  if err \<noteq> NoError then Some (err, r3)
                  else Some (NoError, if corrupted_log_found r3
                                      then r3\<lparr>file_size := file_size_before_corrupted_log r3\<rparr> else r3))))"

end
