(* ===== verification/Replayer_Correct.thy ===== *)
theory Replayer_Correct
  imports Replayer
begin

text \<open>
  Replay restores what the builder wrote.  The abstract state of a manifest has the two mapping
  tables as lists; a log record is a list of changes to each.  The lemmas show that the bytes of
  the builder are the records of this abstract log, and that the replayer computes its effect.
\<close>

section \<open>Mapping tables as lists\<close>

definition tbl_list :: "MappingTbl \<Rightarrow> uint64 list" where
  "tbl_list t = map (\<lambda>i. the (tbl_Get t (of_nat i))) [0..<logical_size t]"

definition table_is :: "MappingTbl \<Rightarrow> uint64 list \<Rightarrow> bool" where
  "table_is t vs \<longleftrightarrow> tbl_inv t \<and> \<not> under_copying t \<and> tbl_list t = vs"

lemma length_tbl_list [simp]: "length (tbl_list t) = logical_size t"
  by (simp add: tbl_list_def)

lemma unat_of_nat_page: "n < 2 ^ 32 \<Longrightarrow> unat (of_nat n :: PageId) = n"
  by (simp add: unat_of_nat take_bit_nat_eq_self)

lemma tbl_Get_list:
  assumes "table_is t vs"
  shows "tbl_Get t p = (if unat p < length vs then Some (vs ! unat p) else None)"
proof -
  have inv: "tbl_inv t" and vs: "vs = tbl_list t" using assms by (auto simp: table_is_def)
  show ?thesis
  proof (cases "unat p < logical_size t")
    case True
    then obtain v where "tbl_Get t p = Some v" by (simp add: tbl_Get_inv [OF inv])
    then show ?thesis using True vs by (simp add: tbl_list_def)
  next
    case False
    then show ?thesis using vs tbl_Get_None [OF inv, of p] by simp
  qed
qed

lemma table_isI:
  assumes "tbl_inv t" "\<not> under_copying t" "logical_size t = length vs"
    "\<And>p. unat p < length vs \<Longrightarrow> tbl_Get t p = Some (vs ! unat p)"
  shows "table_is t vs"
proof -
  have "logical_size t < 2 ^ 32" using assms(1) by (simp add: tbl_inv_def)
  then have "tbl_list t = vs"
    using assms(3,4) by (intro nth_equalityI) (simp_all add: tbl_list_def unat_of_nat_page)
  then show ?thesis using assms by (simp add: table_is_def)
qed

lemma table_is_new: "table_is (MappingTbl_new None) []"
proof (rule table_isI)
  show "tbl_inv (MappingTbl_new None)" by (rule tbl_inv_new) simp
qed (simp_all add: MappingTbl_new_def)

lemma table_is_PushBack:
  assumes t: "table_is t vs" and len: "length vs < 2 ^ 32 - 1"
  shows "\<exists>p t'. tbl_PushBack t v = Some (p, t') \<and> table_is t' (vs @ [v])"
proof -
  have inv: "tbl_inv t" "\<not> under_copying t" "logical_size t = length vs"
    using t by (auto simp: table_is_def)
  obtain t' where t': "tbl_PushBack t v = Some (of_nat (logical_size t), t')" "tbl_inv t'"
    "logical_size t' = logical_size t + 1" "under_copying t' = under_copying t"
    "\<And>q. tbl_Get t' q = (if unat q = logical_size t then Some v else tbl_Get t q)"
    by (rule tbl_PushBack_ok [of t v]) (use inv len in auto)
  have "table_is t' (vs @ [v])"
  proof (rule table_isI)
    fix p :: PageId assume "unat p < length (vs @ [v])"
    then show "tbl_Get t' p = Some ((vs @ [v]) ! unat p)"
      using t'(5) [of p] tbl_Get_list [OF t, of p] inv(3) by (auto simp: nth_append)
  qed (use t' inv in auto)
  then show ?thesis using t'(1) by blast
qed

lemma table_is_Set:
  assumes t: "table_is t vs" and p: "unat p < length vs"
  shows "\<exists>t'. tbl_Set t p v = Some t' \<and> table_is t' (vs[unat p := v])"
proof -
  have inv: "tbl_inv t" "\<not> under_copying t" "logical_size t = length vs"
    using t by (auto simp: table_is_def)
  then obtain t' where t': "tbl_Set t p v = Some t'" "tbl_inv t'" "logical_size t' = logical_size t"
    "under_copying t' = under_copying t" "\<And>q. tbl_Get t' q = (if q = p then Some v else tbl_Get t q)"
    using tbl_Set_in [OF inv(1), of p v] p by auto
  have "table_is t' (vs[unat p := v])"
  proof (rule table_isI)
    fix q :: PageId assume "unat q < length (vs[unat p := v])"
    then show "tbl_Get t' q = Some (vs[unat p := v] ! unat q)"
      using t'(5) [of q] tbl_Get_list [OF t, of q] p
      by (cases "q = p") (auto simp: nth_list_update dest: unsigned_word_eqI)
  qed (use t' inv in auto)
  then show ?thesis using t'(1) by blast
qed

lemma push_values_ok:
  "table_is t vs \<Longrightarrow> length vs + length ws < 2 ^ 32 \<Longrightarrow> \<exists>t'. push_values t ws = Some t' \<and> table_is t' (vs @ ws)"
proof (induction ws arbitrary: t vs)
  case (Cons w ws)
  have "length vs < 2 ^ 32 - 1" using Cons.prems(2) by simp
  then obtain p t1 where t1: "tbl_PushBack t w = Some (p, t1)" "table_is t1 (vs @ [w])"
    using table_is_PushBack [OF Cons.prems(1)] by blast
  have "length (vs @ [w]) + length ws < 2 ^ 32" using Cons.prems(2) by simp
  from Cons.IH [OF t1(2) this] show ?case using t1 by simp
qed simp

section \<open>The abstract log\<close>

definition delta_spec :: "uint64 list \<times> FilePageId \<Rightarrow> PageId \<times> uint64 \<Rightarrow> uint64 list \<times> FilePageId" where
  "delta_spec s d =
    (case (s, d) of ((vs, max_id), (p, v)) \<Rightarrow>
      ((vs @ replicate (unat p + 1 - length vs) InvalidValue)[unat p := v],
       if IsFilePageId v then max max_id (DecodeId v + 1) else max_id))"

definition deltas_ok :: "(PageId \<times> uint64) list \<Rightarrow> bool" where
  "deltas_ok ds \<longleftrightarrow> (\<forall>(p, v) \<in> set ds. unat p < 2 ^ 32 - 1)"

lemma length_delta_spec: "length (fst (delta_spec (vs, m) (p, v))) = max (length vs) (unat p + 1)"
  by (simp add: delta_spec_def)

lemma replay_delta_ok:
  assumes t: "table_is t vs" and len: "length vs < 2 ^ 32" and p: "unat p < 2 ^ 32 - 1"
  shows "\<exists>t'. replay_delta (t, m) (p, v) = Some (t', snd (delta_spec (vs, m) (p, v)))
    \<and> table_is t' (fst (delta_spec (vs, m) (p, v)))"
proof -
  let ?ws = "replicate (unat p + 1 - length vs) InvalidValue"
  have sz: "logical_size t = length vs" using t by (auto simp: table_is_def)
  have "length vs + length ?ws < 2 ^ 32" using len p by simp
  from push_values_ok [OF t this]
  obtain t1 where t1: "push_values t ?ws = Some t1" "table_is t1 (vs @ ?ws)" by blast
  have "unat p < length (vs @ ?ws)" by simp
  from table_is_Set [OF t1(2) this, of v]
  obtain t2 where "tbl_Set t1 p v = Some t2" "table_is t2 ((vs @ ?ws)[unat p := v])" by blast
  then show ?thesis using t1(1) sz by (simp add: replay_delta_def delta_spec_def)
qed

lemma length_foldl_delta_spec:
  "deltas_ok ds \<Longrightarrow> length (fst s) < 2 ^ 32 \<Longrightarrow> length (fst (foldl delta_spec s ds)) < 2 ^ 32"
proof (induction ds arbitrary: s)
  case (Cons d ds)
  obtain vs m p v where s: "s = (vs, m)" "d = (p, v)" by (metis surj_pair)
  have "length (fst (delta_spec s d)) < 2 ^ 32"
    using Cons.prems s length_delta_spec [of vs m p v] by (simp add: deltas_ok_def)
  then show ?case using Cons by (simp add: deltas_ok_def)
qed simp

lemma replay_deltas_ok:
  "table_is t vs \<Longrightarrow> length vs < 2 ^ 32 \<Longrightarrow> deltas_ok ds \<Longrightarrow>
    \<exists>t'. replay_deltas (t, m) ds = Some (t', snd (foldl delta_spec (vs, m) ds))
      \<and> table_is t' (fst (foldl delta_spec (vs, m) ds))"
proof (induction ds arbitrary: t vs m)
  case (Cons d ds)
  obtain p v where d: "d = (p, v)" by (cases d)
  have p: "unat p < 2 ^ 32 - 1" "deltas_ok ds" using Cons.prems(3) d by (auto simp: deltas_ok_def)
  obtain vs1 m1 where s1: "delta_spec (vs, m) d = (vs1, m1)" by (metis surj_pair)
  obtain t1 where t1: "replay_delta (t, m) d = Some (t1, m1)" "table_is t1 vs1"
    using replay_delta_ok [OF Cons.prems(1,2) p(1), of m v] s1 d by auto
  have "length vs1 < 2 ^ 32"
    using length_delta_spec [of vs m p v] s1 d Cons.prems(2) p(1) by simp
  from Cons.IH [OF t1(2) this p(2), of m1] show ?case using t1(1) s1 by simp
qed simp

definition enc_delta :: "PageId \<times> uint64 \<Rightarrow> bytes" where
  "enc_delta d = EncodeVarint32 (fst d) @ EncodeVarint64 (snd d)"

interpretation delta_codec: nonempty_codec enc_delta GetDelta "\<lambda>_. True"
  by unfold_locales (auto simp: enc_delta_def GetDelta_def)

section \<open>Sections and payloads\<close>

definition section_fits :: "bytes \<Rightarrow> bool" where
  "section_fits bs \<longleftrightarrow> length bs < 2 ^ 32"

lemma sized_simps [simp]:
  "length (sized bs) = 4 + length bs" "drop 4 (sized bs @ rest) = bs @ rest"
  "DecodeFixed32 (sized bs @ rest) = of_nat (length bs)" "drop 4 (sized bs) = bs"
  "DecodeFixed32 (sized bs) = of_nat (length bs)"
  using DecodeFixed32_Encode [of "of_nat (length bs)" bs] by (simp_all add: sized_def)

lemma unat_section: "section_fits bs \<Longrightarrow> unat (of_nat (length bs) :: uint32) = length bs"
  by (simp add: section_fits_def unat_of_nat take_bit_nat_eq_self)

definition md_fits :: "BranchManifestMetadata \<Rightarrow> bool" where
  "md_fits md \<longleftrightarrow> name_fits (md_branch_name md) \<and> list_all range_fits (md_file_ranges md)
    \<and> length (md_file_ranges md) < 2 ^ 64 \<and> section_fits (SerializeBranchManifestMetadata md)"

lemma read_branch_section_ok:
  assumes "md_fits md"
  shows "read_branch_section (sized (SerializeBranchManifestMetadata md) @ rest) md0 = Some (rest, md)"
proof -
  let ?s = "SerializeBranchManifestMetadata md"
  have f: "section_fits ?s" using assms by (simp add: md_fits_def)
  have ne: "0 < length ?s" by (simp add: SerializeBranchManifestMetadata_def)
  have "DeserializeBranchManifestMetadata ?s = Some md"
    using DeserializeBranchManifestMetadata_Serialize [of md "[]"] assms by (simp add: md_fits_def)
  then show ?thesis using ne by (simp add: read_branch_section_def Let_def unat_section [OF f])
qed

definition snapshot_payload ::
  "FilePageId \<Rightarrow> bytes \<Rightarrow> uint64 list \<Rightarrow> BranchManifestMetadata \<Rightarrow> (uint64 list \<times> FilePageId) option \<Rightarrow> bytes" where
  "snapshot_payload max_id dict vs md seg =
    EncodeVarint64 max_id @ EncodeVarint32 (of_nat (length dict)) @ dict
      @ sized (concat (map EncodeVarint64 vs)) @ sized (SerializeBranchManifestMetadata md)
      @ (case seg of None \<Rightarrow> []
         | Some (svs, max_seg) \<Rightarrow> EncodeVarint64 max_seg @ sized (concat (map EncodeVarint64 svs)))"

definition log_payload ::
  "(PageId \<times> uint64) list \<Rightarrow> BranchManifestMetadata \<Rightarrow> (PageId \<times> uint64) list \<Rightarrow> bytes" where
  "log_payload ds md sds =
    sized (concat (map enc_delta ds)) @ sized (SerializeBranchManifestMetadata md)
      @ sized (concat (map enc_delta sds))"

lemma varint64_list: "decode_all GetVarint64 (concat (map EncodeVarint64 vs)) = Some vs"
  by (rule varint64.decode_all_concat) (simp add: list_all_iff)

lemma delta_list: "decode_all GetDelta (concat (map enc_delta ds)) = Some ds"
  by (rule delta_codec.decode_all_concat) (simp add: list_all_iff)

section \<open>One record\<close>

lemma AlignSize_mod:
  assumes "0 < al"
  shows "AlignSize al n = (if n mod al = 0 then n else n + (al - n mod al))"
proof -
  have b: "n \<le> AlignSize al n" "AlignSize al n < n + al" "al dvd AlignSize al n"
    using AlignSize_bounds [OF assms] by auto
  let ?m = "if n mod al = 0 then n else n + (al - n mod al)"
  have m: "n \<le> ?m" "?m < n + al" "al dvd ?m"
  proof -
    define k where "k = n mod al"
    have "k < al" using assms by (simp add: k_def)
    then show "n \<le> ?m" "?m < n + al" using assms unfolding k_def [symmetric] by auto
    show "al dvd ?m"
    proof (cases "n mod al = 0")
      case False
      have "n mod al \<le> al" using assms by (simp add: less_imp_le)
      then have "n + (al - n mod al) = n div al * al + al"
        using div_mult_mod_eq [of n al] by linarith
      then show ?thesis using False by simp
    qed auto
  qed
  obtain i j where "AlignSize al n = al * i" "?m = al * j" using b(3) m(3) by (metis dvdE)
  moreover have "i = j"
  proof -
    have "al * i < al * (j + 1)" "al * j < al * (i + 1)"
      using b m calculation by (simp_all add: algebra_simps)
    then have "i < j + 1" "j < i + 1" by (simp_all only: mult_less_cancel1)
    then show ?thesis by simp
  qed
  ultimately show ?thesis by simp
qed

definition is_record :: "nat \<Rightarrow> (bytes \<Rightarrow> uint64) \<Rightarrow> PageId \<Rightarrow> PageId \<Rightarrow> bytes \<Rightarrow> bytes \<Rightarrow> bool" where
  "is_record al hash rt ttl pl bs \<longleftrightarrow> section_fits pl
    \<and> (\<exists>pad. bs = record_bytes hash rt ttl pl @ pad) \<and> length bs = AlignSize al (20 + length pl)"

lemma record_fields:
  "DecodeFixed32 (drop 16 (record_bytes hash rt ttl pl @ rest)) = of_nat (length pl)"
  "DecodeFixed32 (drop 8 (record_bytes hash rt ttl pl)) = rt"
  "DecodeFixed32 (drop 12 (record_bytes hash rt ttl pl)) = ttl"
  "drop 20 (record_bytes hash rt ttl pl) = pl"
  by (simp_all add: record_bytes_def record_content_def)

lemma ParseNextRecord_ok:
  assumes "0 < al" "is_record al hash rt ttl pl bs"
  shows "ParseNextRecord al hash (bs @ rest) r =
    (NoError, rest, r\<lparr>file_size := file_size r + length bs, root := rt, ttl_root := ttl, payload := pl\<rparr>)"
proof -
  obtain pad where bs: "bs = record_bytes hash rt ttl pl @ pad" "section_fits pl"
    "length bs = AlignSize al (20 + length pl)" using assms(2) by (auto simp: is_record_def)
  let ?rec = "record_bytes hash rt ttl pl"
  have pl: "unat (DecodeFixed32 (drop 16 (take 20 ?rec))) = length pl"
    using record_fields(1) [of hash rt ttl pl "[]"] unat_section [OF bs(2)]
    by (simp add: drop_take DecodeFixed_take)
  have split: "take 20 ?rec @ pl = ?rec"
    using append_take_drop_id [of 20 ?rec] record_fields(4) [of hash rt ttl pl] by simp
  have pad: "length pad = (if (20 + length pl) mod al = 0 then 0 else al - (20 + length pl) mod al)"
    using bs(1,3) AlignSize_mod [OF assms(1), of "20 + length pl"] by (auto split: if_splits)
  have nil: "pad = []" if "(20 + length pl) mod al = 0" using pad that by simp
  have d: "drop 20 (bs @ rest) = pl @ pad @ rest" "take 20 (bs @ rest) = take 20 ?rec"
    using bs(1) record_fields(4) [of hash rt ttl pl] by simp_all
  show ?thesis
    using record_fields(2-4) [of hash rt ttl pl] pad bs(1)
    by (simp add: ParseNextRecord_def Manifest_Read_def Manifest_SkipPadding_def Let_def d pl split nil
        Record_ValidateChecksum_record)
qed

section \<open>The state of a manifest\<close>

record mstate =
  ms_root :: PageId
  ms_ttl :: PageId
  ms_values :: "uint64 list"
  ms_max_fp :: FilePageId
  ms_seg_values :: "uint64 list"
  ms_max_seg :: FilePageId
  ms_dict :: bytes
  ms_md :: BranchManifestMetadata

record log_record =
  lr_root :: PageId
  lr_ttl :: PageId
  lr_deltas :: "(PageId \<times> uint64) list"
  lr_md :: BranchManifestMetadata
  lr_seg_deltas :: "(PageId \<times> uint64) list"

definition apply_log :: "mstate \<Rightarrow> log_record \<Rightarrow> mstate" where
  "apply_log s l =
    (case (foldl delta_spec (ms_values s, ms_max_fp s) (lr_deltas l),
           foldl delta_spec (ms_seg_values s, ms_max_seg s) (lr_seg_deltas l)) of
       ((vs, m), (svs, sm)) \<Rightarrow>
         s\<lparr>ms_root := lr_root l, ms_ttl := lr_ttl l, ms_values := vs, ms_max_fp := m,
           ms_seg_values := svs, ms_max_seg := sm, ms_md := lr_md l\<rparr>)"

definition represents :: "Replayer \<Rightarrow> mstate \<Rightarrow> bool" where
  "represents r s \<longleftrightarrow> root r = ms_root s \<and> ttl_root r = ms_ttl s \<and> table_is (mapping_tbl r) (ms_values s)
    \<and> max_fp_id r = ms_max_fp s \<and> table_is (segment_mapping_tbl r) (ms_seg_values s)
    \<and> max_segment_fp_id r = ms_max_seg s \<and> dict_bytes r = ms_dict s \<and> branch_metadata r = ms_md s"

definition log_fits :: "log_record \<Rightarrow> bool" where
  "log_fits l \<longleftrightarrow> deltas_ok (lr_deltas l) \<and> deltas_ok (lr_seg_deltas l) \<and> md_fits (lr_md l)
    \<and> section_fits (concat (map enc_delta (lr_deltas l)))
    \<and> section_fits (concat (map enc_delta (lr_seg_deltas l)))"

definition log_payload_of :: "log_record \<Rightarrow> bytes" where
  "log_payload_of l = log_payload (lr_deltas l) (lr_md l) (lr_seg_deltas l)"

lemma tables_small: "table_is t vs \<Longrightarrow> length vs < 2 ^ 32"
  by (auto simp: table_is_def tbl_inv_def)

lemma ReplayLog_ok:
  assumes rep: "represents r (s\<lparr>ms_root := rt, ms_ttl := ttl\<rparr>)" and fits: "log_fits l"
    and pl: "payload r = log_payload_of l" and rt: "rt = lr_root l" "ttl = lr_ttl l"
  shows "\<exists>r'. ReplayLog r = Some r' \<and> represents r' (apply_log s l)
    \<and> file_size r' = file_size r \<and> corrupted_log_found r' = corrupted_log_found r"
proof -
  let ?d = "concat (map enc_delta (lr_deltas l))" and ?sd = "concat (map enc_delta (lr_seg_deltas l))"
  have f: "section_fits ?d" "section_fits ?sd" "md_fits (lr_md l)" "deltas_ok (lr_deltas l)"
    "deltas_ok (lr_seg_deltas l)" using fits by (auto simp: log_fits_def)
  have t: "table_is (mapping_tbl r) (ms_values s)" "table_is (segment_mapping_tbl r) (ms_seg_values s)"
    "max_fp_id r = ms_max_fp s" "max_segment_fp_id r = ms_max_seg s" using rep by (auto simp: represents_def)
  obtain vs m where a: "foldl delta_spec (ms_values s, ms_max_fp s) (lr_deltas l) = (vs, m)" by (metis surj_pair)
  obtain svs sm where b: "foldl delta_spec (ms_seg_values s, ms_max_seg s) (lr_seg_deltas l) = (svs, sm)" by (metis surj_pair)
  obtain t1 where t1: "replay_deltas (mapping_tbl r, max_fp_id r) (lr_deltas l) = Some (t1, m)" "table_is t1 vs"
    using replay_deltas_ok [OF t(1) tables_small [OF t(1)] f(4), of "max_fp_id r"] a t(3) by auto
  obtain t2 where t2: "replay_deltas (segment_mapping_tbl r, max_segment_fp_id r) (lr_seg_deltas l) = Some (t2, sm)"
    "table_is t2 svs"
    using replay_deltas_ok [OF t(2) tables_small [OF t(2)] f(5), of "max_segment_fp_id r"] b t(4) by auto
  let ?m = "sized (SerializeBranchManifestMetadata (lr_md l))"
  have "ReplayLog r = Some (r\<lparr>mapping_tbl := t1, max_fp_id := m, branch_metadata := lr_md l,
      segment_mapping_tbl := t2, max_segment_fp_id := sm\<rparr>)"
    using t1(1) t2(1) read_branch_section_ok [OF f(3)]
    by (simp add: ReplayLog_def pl log_payload_of_def log_payload_def Let_def unat_section f delta_list
        add.commute [of 4] flip: drop_drop)
  then show ?thesis using t1(2) t2(2) rep rt
    by (simp add: represents_def apply_log_def a b)
qed

section \<open>Snapshot and log\<close>

definition snapshot_fits :: "mstate \<Rightarrow> bool" where
  "snapshot_fits s \<longleftrightarrow> section_fits (ms_dict s) \<and> md_fits (ms_md s)
    \<and> length (ms_values s) < 2 ^ 32 \<and> length (ms_seg_values s) < 2 ^ 32
    \<and> section_fits (concat (map EncodeVarint64 (ms_values s)))
    \<and> section_fits (concat (map EncodeVarint64 (ms_seg_values s)))"

text \<open>A partition without segments has no segment section.\<close>

definition snapshot_payload_of :: "bool \<Rightarrow> mstate \<Rightarrow> bytes" where
  "snapshot_payload_of has_seg s =
    snapshot_payload (ms_max_fp s) (ms_dict s) (ms_values s) (ms_md s)
      (if has_seg then Some (ms_seg_values s, ms_max_seg s) else None)"

lemma DeserializeSnapshot_ok:
  assumes fits: "snapshot_fits s" and seg: "\<not> has_seg \<longrightarrow> ms_seg_values s = [] \<and> ms_max_seg s = 0"
    and r: "table_is (mapping_tbl r) []" "table_is (segment_mapping_tbl r) []"
      "table_is (tbl_clear (segment_mapping_tbl r)) []" "max_segment_fp_id r = 0"
      "root r = ms_root s" "ttl_root r = ms_ttl s"
  shows "\<exists>r'. DeserializeSnapshot (snapshot_payload_of has_seg s) r = Some r' \<and> represents r' s
    \<and> file_size r' = file_size r \<and> corrupted_log_found r' = corrupted_log_found r"
proof -
  have f: "section_fits (ms_dict s)" "md_fits (ms_md s)" "section_fits (concat (map EncodeVarint64 (ms_values s)))"
    "section_fits (concat (map EncodeVarint64 (ms_seg_values s)))" using fits by (auto simp: snapshot_fits_def)
  obtain t where t: "push_values (mapping_tbl r) (ms_values s) = Some t" "table_is t (ms_values s)"
    using push_values_ok [OF r(1), of "ms_values s"] fits by (auto simp: snapshot_fits_def)
  obtain ts where ts: "push_values (tbl_clear (segment_mapping_tbl r)) (ms_seg_values s) = Some ts"
    "table_is ts (ms_seg_values s)"
    using push_values_ok [OF r(3), of "ms_seg_values s"] fits by (auto simp: snapshot_fits_def)
  let ?r = "r\<lparr>max_fp_id := ms_max_fp s, dict_bytes := ms_dict s, mapping_tbl := t, branch_metadata := ms_md s\<rparr>"
  let ?rs = "?r\<lparr>max_segment_fp_id := ms_max_seg s, segment_mapping_tbl := ts\<rparr>"
  have "DeserializeSnapshot (snapshot_payload_of has_seg s) r = Some (if has_seg then ?rs else ?r)"
    using t(1) ts(1) read_branch_section_ok [OF f(2)] read_branch_section_ok [OF f(2), of "[]"]
    by (simp add: DeserializeSnapshot_def snapshot_payload_of_def snapshot_payload_def Let_def
        unat_section f varint64_list add.commute [of 4] flip: drop_drop)
  then show ?thesis using t(2) ts(2) r seg
    by (intro exI [of _ "if has_seg then ?rs else ?r"]) (auto simp: represents_def)
qed

text \<open>The records of a log file, one after the other.\<close>

fun is_log :: "nat \<Rightarrow> (bytes \<Rightarrow> uint64) \<Rightarrow> log_record list \<Rightarrow> bytes \<Rightarrow> bool" where
  "is_log al hash [] bs \<longleftrightarrow> bs = []"
| "is_log al hash (l # ls) bs \<longleftrightarrow> log_fits l
    \<and> (\<exists>b rest. bs = b @ rest \<and> is_record al hash (lr_root l) (lr_ttl l) (log_payload_of l) b
         \<and> is_log al hash ls rest)"

lemma represents_frame [simp]:
  "represents (r\<lparr>file_size := n\<rparr>) s = represents r s"
  "represents (r\<lparr>payload := p\<rparr>) s = represents r s"
  "represents (r\<lparr>corrupted_log_found := c\<rparr>) s = represents r s"
  "represents (r\<lparr>file_size_before_corrupted_log := n\<rparr>) s = represents r s"
  by (simp_all add: represents_def)

lemma Replay_loop_log:
  assumes "0 < al" "is_log al hash ls bs" "represents r s"
  shows "\<exists>r'. Replay_loop al hash False (bs @ rest) r = Replay_loop al hash False rest r'
    \<and> represents r' (foldl apply_log s ls) \<and> file_size r' = file_size r + length bs
    \<and> corrupted_log_found r' = corrupted_log_found r"
  using assms(2,3)
proof (induction ls arbitrary: bs r s)
  case Nil
  then show ?case by auto
next
  case (Cons l ls)
  obtain b bs' where bs: "bs = b @ bs'" "log_fits l" "is_log al hash ls bs'"
    "is_record al hash (lr_root l) (lr_ttl l) (log_payload_of l) b" using Cons.prems(1) by auto
  let ?r = "r\<lparr>file_size := file_size r + length b, root := lr_root l, ttl_root := lr_ttl l,
    payload := log_payload_of l\<rparr>"
  have p: "ParseNextRecord al hash (bs @ rest) r = (NoError, bs' @ rest, ?r)"
    using ParseNextRecord_ok [OF assms(1) bs(4), of "bs' @ rest" r] bs(1) by simp
  have "represents ?r (s\<lparr>ms_root := lr_root l, ms_ttl := lr_ttl l\<rparr>)"
    using Cons.prems(2) by (simp add: represents_def)
  from ReplayLog_ok [OF this bs(2)] obtain r1 where r1: "ReplayLog ?r = Some r1"
    "represents r1 (apply_log s l)" "file_size r1 = file_size r + length b"
    "corrupted_log_found r1 = corrupted_log_found r" by auto
  from Cons.IH [OF bs(3) r1(2)] obtain r' where r': "Replay_loop al hash False (bs' @ rest) r1 = Replay_loop al hash False rest r'"
    "represents r' (foldl apply_log (apply_log s l) ls)" "file_size r' = file_size r1 + length bs'"
    "corrupted_log_found r' = corrupted_log_found r1" by blast
  have "Replay_loop al hash False (bs @ rest) r = Replay_loop al hash False (bs' @ rest) r1"
    using p r1(1) by (subst Replay_loop.simps) simp
  then show ?case using r' r1 bs(1) by (intro exI [of _ r']) simp
qed

text \<open>A manifest: a snapshot record and a log.\<close>

definition is_manifest :: "nat \<Rightarrow> (bytes \<Rightarrow> uint64) \<Rightarrow> bool \<Rightarrow> mstate \<Rightarrow> log_record list \<Rightarrow> bytes \<Rightarrow> bool" where
  "is_manifest al hash has_seg s ls bs \<longleftrightarrow> 0 < al \<and> snapshot_fits s
    \<and> (\<not> has_seg \<longrightarrow> ms_seg_values s = [] \<and> ms_max_seg s = 0)
    \<and> (\<exists>b rest. bs = b @ rest \<and> is_record al hash (ms_root s) (ms_ttl s) (snapshot_payload_of has_seg s) b
         \<and> is_log al hash ls rest)"

lemma snapshot_payload_of_nonempty: "snapshot_payload_of has_seg s \<noteq> []"
  by (simp add: snapshot_payload_of_def snapshot_payload_def)

text \<open>Replaying a manifest and anything that follows it: the records are applied, then the loop
  continues with the rest.\<close>

lemma Replay_manifest:
  assumes m: "is_manifest al hash has_seg s ls bs"
  shows "\<exists>r. represents r (foldl apply_log s ls) \<and> file_size r = length bs \<and> \<not> corrupted_log_found r
    \<and> Replay al hash (bs @ rest) Replayer_new =
      (case Replay_loop al hash False rest r of None \<Rightarrow> None | Some (err, r3) \<Rightarrow>
         if err \<noteq> NoError then Some (err, r3)
         else Some (NoError, if corrupted_log_found r3
                             then r3\<lparr>file_size := file_size_before_corrupted_log r3\<rparr> else r3))"
proof -
  obtain b bs' where bs: "bs = b @ bs'" "is_record al hash (ms_root s) (ms_ttl s) (snapshot_payload_of has_seg s) b"
    "is_log al hash ls bs'" and al: "0 < al" "snapshot_fits s"
    "\<not> has_seg \<longrightarrow> ms_seg_values s = [] \<and> ms_max_seg s = 0" using m by (auto simp: is_manifest_def)
  have c: "tbl_clear (MappingTbl_new None) = MappingTbl_new None"
    by (simp add: tbl_clear_def MappingTbl_new_def)
  let ?r0 = "Replayer_new\<lparr>root := MaxPageId, ttl_root := MaxPageId, mapping_tbl := MappingTbl_new None,
    segment_mapping_tbl := MappingTbl_new None, file_size := 0, max_fp_id := MaxFilePageId,
    max_segment_fp_id := 0, dict_bytes := []\<rparr>"
  let ?r1 = "?r0\<lparr>file_size := length b, root := ms_root s, ttl_root := ms_ttl s,
    payload := snapshot_payload_of has_seg s\<rparr>"
  have p: "ParseNextRecord al hash (bs @ rest) ?r0 = (NoError, bs' @ rest, ?r1)"
    using ParseNextRecord_ok [OF al(1) bs(2), of "bs' @ rest" ?r0] bs(1) by simp
  obtain r2 where r2: "DeserializeSnapshot (snapshot_payload_of has_seg s) ?r1 = Some r2" "represents r2 s"
    "file_size r2 = length b" "\<not> corrupted_log_found r2"
    using DeserializeSnapshot_ok [OF al(2,3), of ?r1] table_is_new by (auto simp: c Replayer_new_def)
  from Replay_loop_log [OF al(1) bs(3) r2(2), of rest] obtain r
    where r: "Replay_loop al hash False (bs' @ rest) r2 = Replay_loop al hash False rest r"
    "represents r (foldl apply_log s ls)" "file_size r = length bs" "\<not> corrupted_log_found r"
    using r2(3,4) bs(1) by auto
  have n: "mapping_tbl Replayer_new = MappingTbl_new None" "segment_mapping_tbl Replayer_new = MappingTbl_new None"
    by (simp_all add: Replayer_new_def)
  have "Replay al hash (bs @ rest) Replayer_new =
      (case Replay_loop al hash False (bs' @ rest) r2 of None \<Rightarrow> None | Some (err, r3) \<Rightarrow>
         if err \<noteq> NoError then Some (err, r3)
         else Some (NoError, if corrupted_log_found r3
                             then r3\<lparr>file_size := file_size_before_corrupted_log r3\<rparr> else r3))"
    unfolding Replay_def Let_def n c p using r2(1) by (simp add: snapshot_payload_of_nonempty)
  then show ?thesis using r by (intro exI [of _ r]) simp
qed

end
