(* ===== verification/Manifest_Correct.thy ===== *)
theory Manifest_Correct
  imports Replayer_Correct
begin

text \<open>
  The builder writes the records that the replayer expects: the invariant of a log under
  construction, and the bytes of finished log and snapshot records.
\<close>

section \<open>A log under construction\<close>

definition builder_ok :: "nat \<Rightarrow> ManifestBuilder \<Rightarrow> (PageId \<times> uint64) list \<Rightarrow> bool" where
  "builder_ok al b ds \<longleftrightarrow> dio_inv al (buff b)
    \<and> (if resized_for_mapping_bytes_len b
       then \<exists>h x. dio_view (buff b) = h @ x @ concat (map enc_delta ds) \<and> length h = 20 \<and> length x = 4
       else ds = [] \<and> dio_size (buff b) = 20)"

lemma builder_ok_Reset: "dio_inv al (buff b) \<Longrightarrow> builder_ok al (mb_Reset al b) []"
  by (simp add: builder_ok_def mb_Reset_def dio_resize_ok) (simp add: dio_resize_def)

lemma dio_inv_new: "0 < al \<Longrightarrow> dio_inv al DirectIoBuffer_new"
  by (simp add: dio_inv_def DirectIoBuffer_new_def)

lemma builder_ok_new: "0 < al \<Longrightarrow> builder_ok al (ManifestBuilder_new al) []"
  by (simp add: ManifestBuilder_new_def builder_ok_Reset dio_inv_new)

lemma mb_make_room_ok:
  assumes "builder_ok al b ds"
  shows "\<exists>b1 h x. mb_make_room al b = Some b1 \<and> resized_for_mapping_bytes_len b1 \<and> dio_inv al (buff b1)
    \<and> dio_view (buff b1) = h @ x @ concat (map enc_delta ds) \<and> length h = 20 \<and> length x = 4"
proof (cases "resized_for_mapping_bytes_len b")
  case True
  then show ?thesis using assms by (simp add: builder_ok_def mb_make_room_def)
next
  case False
  then have b: "ds = []" "dio_size (buff b) = 20" "dio_inv al (buff b)"
    using assms by (auto simp: builder_ok_def)
  let ?v = "dio_view (dio_resize al (buff b) 24)"
  have "length ?v = 24" using dio_resize_ok(2) [OF b(3)] by simp
  then show ?thesis using False b dio_resize_ok(1) [OF b(3), of 24] append_take_drop_id [of 20 ?v]
    by (intro exI [of _ "b\<lparr>buff := dio_resize al (buff b) 24, resized_for_mapping_bytes_len := True\<rparr>"]
        exI [of _ "take 20 ?v"] exI [of _ "drop 20 ?v"]) (simp add: mb_make_room_def)
qed

lemma mb_change_ok:
  assumes "builder_ok al b ds"
  shows "\<exists>b'. map_option (\<lambda>b1. b1\<lparr>buff := AppendVarint64 al (AppendVarint32 al (buff b1) p) v\<rparr>) (mb_make_room al b)
    = Some b' \<and> builder_ok al b' (ds @ [(p, v)])"
proof -
  obtain b1 h x where b1: "mb_make_room al b = Some b1" "resized_for_mapping_bytes_len b1" "dio_inv al (buff b1)"
    "dio_view (buff b1) = h @ x @ concat (map enc_delta ds)" "length h = 20" "length x = 4"
    using mb_make_room_ok [OF assms] by blast
  note a = dio_append_ok [OF b1(3), of "EncodeVarint32 p"]
  note a' = dio_append_ok [OF a(1), of "EncodeVarint64 v"]
  show ?thesis using b1 a a'
    by (auto simp: builder_ok_def AppendVarint32_def AppendVarint64_def enc_delta_def)
qed

lemma mb_UpdateMapping_ok:
  "builder_ok al b ds \<Longrightarrow> \<exists>b'. mb_UpdateMapping al b p fp = Some b' \<and> builder_ok al b' (ds @ [(p, EncodeFilePageId fp)])"
  unfolding mb_UpdateMapping_def by (rule mb_change_ok)

lemma mb_DeleteMapping_ok:
  "builder_ok al b ds \<Longrightarrow> \<exists>b'. mb_DeleteMapping al b p = Some b' \<and> builder_ok al b' (ds @ [(p, InvalidValue)])"
  unfolding mb_DeleteMapping_def by (rule mb_change_ok)

section \<open>Finished records\<close>

lemma mb_Finalize_record:
  assumes "dio_inv al (buff b)" "dio_view (buff b) = h @ pl" "length h = 20" "section_fits pl"
  shows "is_record al hash rt ttl pl (fst (mb_Finalize al hash b rt ttl))"
    and "dio_inv al (buff (snd (mb_Finalize al hash b rt ttl)))"
  using mb_Finalize_view [OF assms(1-3), of hash rt ttl] assms(4) by (auto simp: is_record_def)

text \<open>The end of a log record: branch metadata, the segment changes with their length, the header.\<close>

definition finish_log ::
  "nat \<Rightarrow> (bytes \<Rightarrow> uint64) \<Rightarrow> ManifestBuilder \<Rightarrow> BranchManifestMetadata \<Rightarrow> bytes \<Rightarrow> PageId \<Rightarrow> PageId
    \<Rightarrow> (bytes \<times> ManifestBuilder) option" where
  "finish_log al hash b md seg rt ttl =
    map_option (\<lambda>b1.
        mb_Finalize al hash (mb_AppendSegmentMapping al
          (mb_AppendSegmentMapping al b1 (EncodeFixed32 (of_nat (length seg)))) seg) rt ttl)
      (mb_AppendBranchManifestMetadata al b (SerializeBranchManifestMetadata md))"

lemma finish_log_ok:
  assumes b: "builder_ok al b ds" and fits: "section_fits (log_payload ds md sds)"
  shows "\<exists>blob b'. finish_log al hash b md (concat (map enc_delta sds)) rt ttl = Some (blob, b')
    \<and> is_record al hash rt ttl (log_payload ds md sds) blob \<and> dio_inv al (buff b')"
proof -
  obtain b1 h x where b1: "mb_make_room al b = Some b1" "dio_inv al (buff b1)"
    "dio_view (buff b1) = h @ x @ concat (map enc_delta ds)" "length h = 20" "length x = 4"
    using mb_make_room_ok [OF b] by blast
  let ?d = "concat (map enc_delta ds)" and ?m = "SerializeBranchManifestMetadata md"
    and ?s = "concat (map enc_delta sds)"
  have sz: "dio_size (buff b1) = 24 + length ?d" using length_dio_view [OF b1(2)] b1(3-5) by simp
  let ?w = "dio_write 20 (EncodeFixed32 (of_nat (length ?d))) (buff b1)"
  have w: "dio_inv al ?w" "dio_view ?w = h @ sized ?d"
    using dio_write_ok [OF b1(2), of 20 "EncodeFixed32 (of_nat (length ?d))"] sz b1(3-5)
    by (simp_all add: write_at_def sized_def)
  note s1 = append_section_ok [OF w(1), of ?m]
  note s2 = dio_append_ok [OF s1(1), of "EncodeFixed32 (of_nat (length ?s))"]
  note s3 = dio_append_ok [OF s2(1), of ?s]
  define bb where "bb = mb_AppendSegmentMapping al (mb_AppendSegmentMapping al
      (b1\<lparr>buff := append_section al ?w ?m\<rparr>) (EncodeFixed32 (of_nat (length ?s)))) ?s"
  have i: "dio_inv al (buff bb)" "dio_view (buff bb) = h @ log_payload ds md sds"
    using s3 s2(2) s1(2) w(2) by (simp_all add: bb_def mb_AppendSegmentMapping_def log_payload_def sized_def)
  have "finish_log al hash b md ?s rt ttl = Some (mb_Finalize al hash bb rt ttl)"
    using b1(1) sz by (simp add: finish_log_def mb_AppendBranchManifestMetadata_def Let_def bb_def)
  then show ?thesis using mb_Finalize_record [OF i b1(4) fits, of hash rt ttl]
    by (metis prod.collapse)
qed

lemma tbl_Serialize_list:
  assumes "table_is t vs"
  shows "tbl_Serialize heap t [] = Some (concat (map EncodeVarint64 (map (serialized_value heap) vs)))"
proof -
  have "logical_size t = length vs" and small: "length vs < 2 ^ 32"
    using assms tables_small [OF assms] by (auto simp: table_is_def)
  moreover have "tbl_Serialize_loop heap t is dst =
      Some (dst @ concat (map (\<lambda>i. EncodeVarint64 (serialized_value heap (vs ! i))) is))"
    if "\<forall>i\<in>set is. i < length vs" for "is" dst
    using that
  proof (induction "is" arbitrary: dst)
    case (Cons i "is")
    then have "tbl_Get t (of_nat i) = Some (vs ! i)"
      using tbl_Get_list [OF assms, of "of_nat i"] small by (simp add: unat_of_nat_page)
    then show ?case using Cons by (simp add: PutVarint64_def)
  qed simp
  from this [of "[0..<length vs]" "[]"]
  have "tbl_Serialize_loop heap t [0..<length vs] [] =
      Some (concat (map (\<lambda>i. EncodeVarint64 (serialized_value heap (vs ! i))) [0..<length vs]))" by simp
  moreover have "map (\<lambda>i. EncodeVarint64 (serialized_value heap (vs ! i))) [0..<length vs]
      = map EncodeVarint64 (map (serialized_value heap) vs)"
    by (rule nth_equalityI) simp_all
  ultimately show ?thesis by (simp add: tbl_Serialize_def)
qed

lemma mb_Snapshot_ok:
  assumes b: "dio_inv al (buff b)"
    and t: "table_is mt vs" "case seg of None \<Rightarrow> svs = [] \<and> max_seg = 0 | Some st \<Rightarrow> table_is st svs"
    and s: "s = \<lparr>ms_root = rt, ms_ttl = ttl, ms_values = map (serialized_value heap) vs, ms_max_fp = max_id,
        ms_seg_values = map (serialized_value heap) svs, ms_max_seg = max_seg, ms_dict = dict, ms_md = md\<rparr>"
    and fits: "section_fits (snapshot_payload_of (seg \<noteq> None) s)"
  shows "\<exists>blob b'. mb_Snapshot al hash heap b rt ttl mt max_id dict md seg max_seg = Some (blob, b')
    \<and> is_record al hash rt ttl (snapshot_payload_of (seg \<noteq> None) s) blob \<and> dio_inv al (buff b')"
proof -
  let ?m = "SerializeBranchManifestMetadata md"
  let ?b0 = "dio_resize al (buff b) 20"
  note r0 = dio_resize_ok [OF b, of 20]
  let ?b1 = "dio_reserve al ?b0 (4 + 8 * (logical_size mt + 1) + 4 + length ?m)"
  have r1: "dio_inv al ?b1" "dio_view ?b1 = dio_view ?b0"
    using EnsureCapacity_ok [OF r0(1), of "4 + 8 * (logical_size mt + 1) + 4 + length ?m"]
    by (simp_all add: dio_reserve_def) (simp add: dio_view_def)
  note a1 = dio_append_ok [OF r1(1), of "EncodeVarint64 max_id"]
  note a2 = dio_append_ok [OF a1(1), of "EncodeVarint32 (of_nat (length dict))"]
  note a3 = dio_append_ok [OF a2(1), of dict]
  let ?vs = "concat (map EncodeVarint64 (map (serialized_value heap) vs))"
  note a4 = append_section_ok [OF a3(1), of ?vs]
  note a5 = append_section_ok [OF a4(1), of ?m]
  note a6 = dio_append_ok [OF a5(1), of "EncodeVarint64 max_seg"]
  note a7 = append_section_ok [OF a6(1), of "concat (map EncodeVarint64 (map (serialized_value heap) svs))"]
  define bb where "bb = (case seg of
      None \<Rightarrow> append_section al (append_section al (dio_append al (dio_append al
        (dio_append al ?b1 (EncodeVarint64 max_id)) (EncodeVarint32 (of_nat (length dict)))) dict) ?vs) ?m
    | Some st \<Rightarrow> append_section al (dio_append al (append_section al (append_section al (dio_append al (dio_append al
        (dio_append al ?b1 (EncodeVarint64 max_id)) (EncodeVarint32 (of_nat (length dict)))) dict) ?vs) ?m)
        (EncodeVarint64 max_seg)) (concat (map EncodeVarint64 (map (serialized_value heap) svs))))"
  have i: "dio_inv al bb" "dio_view bb = dio_view ?b0 @ snapshot_payload_of (seg \<noteq> None) s"
    using a7 a6(2) a5 a4(2) a3(2) a2(2) a1(2) r1(2)
    by (auto simp: bb_def snapshot_payload_of_def snapshot_payload_def s split: option.splits)
  have "mb_Snapshot al hash heap b rt ttl mt max_id dict md seg max_seg =
      Some (mb_Finalize al hash ((mb_Reset al b)\<lparr>buff := bb\<rparr>) rt ttl)"
    using tbl_Serialize_list [OF t(1), of heap] t(2) tbl_Serialize_list [of _ svs heap]
    by (auto simp: mb_Snapshot_def Let_def bb_def AppendVarint64_def AppendVarint32_def mb_Reset_def
        split: option.splits)
  then show ?thesis
    using mb_Finalize_record [of al "(mb_Reset al b)\<lparr>buff := bb\<rparr>", OF _ _ r0(2) fits, of hash rt ttl] i
    by (metis prod.collapse ManifestBuilder.select_convs(1) ManifestBuilder.surjective ManifestBuilder.update_convs(1))
qed

end
