(* ===== verification/Replayer_Props.thy ===== *)
theory Replayer_Props
  imports Manifest_Correct
begin

text \<open>
  The durability of the manifest: a complete manifest replays to the state it was written from, an
  incomplete or damaged tail is dropped, damage before a valid record is reported.
\<close>

section \<open>Tails\<close>

lemma Replay_loop_end:
  "ParseNextRecord al hash rest r = (EndOfFile, rest', r') \<Longrightarrow> Replay_loop al hash c rest r = Some (NoError, r')"
  by (subst Replay_loop.simps) simp

lemma ParseNextRecord_torn:
  assumes "is_record al hash rt ttl pl b" "n < 20 + length pl"
  shows "\<exists>rest. ParseNextRecord al hash (take n b) r = (EndOfFile, rest, r)"
proof (cases "n < 20")
  case True
  then have "Manifest_Read (take n b) 20 = (EndOfFile, [], take n b)" by (simp add: Manifest_Read_def)
  then show ?thesis by (simp add: ParseNextRecord_def)
next
  case False
  obtain pad where b: "b = record_bytes hash rt ttl pl @ pad" "section_fits pl"
    using assms(1) by (auto simp: is_record_def)
  let ?rec = "record_bytes hash rt ttl pl"
  have t: "take n b = take n ?rec" using b(1) assms(2) by simp
  have "unat (DecodeFixed32 (drop 16 (take 20 ?rec))) = length pl"
    using record_fields(1) [of hash rt ttl pl "[]"] unat_section [OF b(2)]
    by (simp add: drop_take DecodeFixed_take)
  moreover have "Manifest_Read (take n b) 20 = (NoError, take 20 ?rec, drop 20 (take n ?rec))"
    using False t assms(2) by (simp add: Manifest_Read_def min_def)
  moreover have "Manifest_Read (drop 20 (take n ?rec)) (length pl)
      = (EndOfFile, [], drop 20 (take n ?rec))"
    using False assms(2) by (simp add: Manifest_Read_def min_def)
  ultimately show ?thesis by (simp add: ParseNextRecord_def Let_def)
qed

text \<open>A record whose bytes are all there but whose checksum does not match.\<close>

definition bad_record :: "nat \<Rightarrow> (bytes \<Rightarrow> uint64) \<Rightarrow> bytes \<Rightarrow> bool" where
  "bad_record al hash c \<longleftrightarrow>
    (let n = 20 + unat (DecodeFixed32 (drop 16 c)) in
     length c = AlignSize al n \<and> \<not> Record_ValidateChecksum hash (take n c))"

lemma ParseNextRecord_bad:
  assumes "0 < al" "bad_record al hash c"
  shows "ParseNextRecord al hash (c @ rest) r =
    (Corrupted, rest, (if corrupted_log_found r then r else r\<lparr>file_size_before_corrupted_log := file_size r\<rparr>)
      \<lparr>corrupted_log_found := True, file_size := file_size r + length c\<rparr>)"
proof -
  define len where "len = unat (DecodeFixed32 (drop 16 c))"
  have c: "length c = AlignSize al (20 + len)" "\<not> Record_ValidateChecksum hash (take (20 + len) c)"
    using assms(2) by (auto simp: bad_record_def len_def Let_def)
  have ge: "20 + len \<le> length c" using c(1) AlignSize_bounds(1) [OF assms(1)] by simp
  have l: "unat (DecodeFixed32 (drop 16 (take 20 c))) = len"
    by (simp add: len_def drop_take DecodeFixed_take)
  have split: "take 20 c @ take len (drop 20 c) = take (20 + len) c" by (simp add: take_add)
  have pad: "length c = (if (20 + len) mod al = 0 then 20 + len else 20 + len + (al - (20 + len) mod al))"
    using c(1) AlignSize_mod [OF assms(1)] by simp
  have r1: "Manifest_Read (c @ rest) 20 = (NoError, take 20 c, drop 20 c @ rest)"
    using ge by (simp add: Manifest_Read_def)
  have r2: "Manifest_Read (drop 20 c @ rest) len = (NoError, take len (drop 20 c), drop (20 + len) c @ rest)"
    using ge by (simp add: Manifest_Read_def add.commute)
  have skip: "Manifest_SkipPadding (drop (20 + len) c @ rest) (al - (20 + len) mod al) = (NoError, rest)"
    if "0 < (20 + len) mod al" using that pad by (simp add: Manifest_SkipPadding_def)
  have none: "drop (20 + len) c = []" if "(20 + len) mod al = 0" using that pad by simp
  show ?thesis
    using c(2) pad skip none by (simp add: ParseNextRecord_def r1 r2 l split Let_def)
qed

lemma Replay_loop_bad:
  assumes "0 < al"
  shows "\<forall>c\<in>set cs. bad_record al hash c \<Longrightarrow> corrupted_log_found r \<longrightarrow> f \<Longrightarrow>
    \<exists>r'. Replay_loop al hash f (concat cs @ rest) r = Replay_loop al hash (f \<or> cs \<noteq> []) rest r'
      \<and> (represents r s \<longrightarrow> represents r' s)
      \<and> corrupted_log_found r' = (corrupted_log_found r \<or> cs \<noteq> [])
      \<and> (file_size_before_corrupted_log r' =
          (if corrupted_log_found r \<or> cs = [] then file_size_before_corrupted_log r else file_size r))
      \<and> (cs = [] \<longrightarrow> r' = r)"
proof (induction cs arbitrary: r f)
  case (Cons c cs)
  define r1 where "r1 = (if corrupted_log_found r then r else r\<lparr>file_size_before_corrupted_log := file_size r\<rparr>)
      \<lparr>corrupted_log_found := True, file_size := file_size r + length c\<rparr>"
  have r1: "corrupted_log_found r1" "represents r s \<longrightarrow> represents r1 s"
    "file_size_before_corrupted_log r1 =
      (if corrupted_log_found r then file_size_before_corrupted_log r else file_size r)"
    by (simp_all add: r1_def)
  have p: "ParseNextRecord al hash (concat (c # cs) @ rest) r = (Corrupted, concat cs @ rest, r1)"
    using ParseNextRecord_bad [OF assms, of hash c "concat cs @ rest" r] Cons.prems(1) by (simp add: r1_def)
  have step: "Replay_loop al hash f (concat (c # cs) @ rest) r = Replay_loop al hash True (concat cs @ rest) r1"
    by (subst Replay_loop.simps) (simp only: p, simp)
  have "\<forall>c\<in>set cs. bad_record al hash c" "corrupted_log_found r1 \<longrightarrow> True" using Cons.prems(1) by auto
  from Cons.IH [OF this] obtain r' where
    "Replay_loop al hash True (concat cs @ rest) r1 = Replay_loop al hash True rest r'"
    "represents r1 s \<longrightarrow> represents r' s" "corrupted_log_found r'"
    "file_size_before_corrupted_log r' = file_size_before_corrupted_log r1"
    using r1(1) by auto
  then show ?case unfolding step using r1 by (intro exI [of _ r']) simp
qed auto

section \<open>An example manifest\<close>

definition ex_hash :: "bytes \<Rightarrow> uint64" where
  "ex_hash bs = foldl (\<lambda>h b. 31 * h + ucast b) 7 bs"

definition pad_record :: "nat \<Rightarrow> bytes \<Rightarrow> bytes" where
  "pad_record al rec = rec @ replicate (AlignSize al (length rec) - length rec) 0"

lemma is_record_pad:
  assumes "0 < al" "section_fits pl"
  shows "is_record al hash rt ttl pl (pad_record al (record_bytes hash rt ttl pl))"
  using assms AlignSize_bounds(1) [OF assms(1), of "20 + length pl"]
  by (simp add: is_record_def pad_record_def)

definition ex_md :: BranchManifestMetadata where
  "ex_md = \<lparr>md_branch_name = ''main'', md_term = 3, md_file_ranges = []\<rparr>"

definition ex_state :: mstate where
  "ex_state = \<lparr>ms_root = 1, ms_ttl = MaxPageId, ms_values = [EncodeFilePageId 4, EncodeFilePageId 7, InvalidValue],
    ms_max_fp = 8, ms_seg_values = [], ms_max_seg = 0, ms_dict = [], ms_md = ex_md\<rparr>"

definition ex_log :: log_record where
  "ex_log = \<lparr>lr_root = 5, lr_ttl = MaxPageId, lr_deltas = [(5, EncodeFilePageId 9), (0, InvalidValue)],
    lr_md = ex_md, lr_seg_deltas = []\<rparr>"

definition ex_snapshot_bytes :: bytes where
  "ex_snapshot_bytes = pad_record 8 (record_bytes ex_hash 1 MaxPageId (snapshot_payload_of False ex_state))"

definition ex_log_bytes :: bytes where
  "ex_log_bytes = pad_record 8 (record_bytes ex_hash 5 MaxPageId (log_payload_of ex_log))"

lemma section_fits_small: "length bs = n \<Longrightarrow> n < 2 ^ 32 \<Longrightarrow> section_fits bs"
  by (simp add: section_fits_def)

lemma ex_lengths:
  "length (SerializeBranchManifestMetadata ex_md) = 24"
  "length (snapshot_payload_of False ex_state) = 37"
  "length (log_payload_of ex_log) = 40"
  "length (concat (map EncodeVarint64 (ms_values ex_state))) = 3"
  "length (concat (map enc_delta (lr_deltas ex_log))) = 4"
  by code_simp+

lemma ex_md_fits: "md_fits ex_md"
  using ex_lengths(1) by (simp add: md_fits_def section_fits_def) (simp add: ex_md_def name_fits_def)

lemma ex_snapshot_fits: "snapshot_fits ex_state"
  using ex_lengths(4) ex_md_fits
  by (simp add: snapshot_fits_def section_fits_def) (simp add: ex_state_def)

lemma ex_log_fits: "log_fits ex_log"
  using ex_lengths(5) ex_md_fits
  by (simp add: log_fits_def section_fits_def) (simp add: ex_log_def deltas_ok_def)

lemma ex_records:
  "is_record 8 ex_hash (ms_root ex_state) (ms_ttl ex_state) (snapshot_payload_of False ex_state) ex_snapshot_bytes"
  "is_record 8 ex_hash (lr_root ex_log) (lr_ttl ex_log) (log_payload_of ex_log) ex_log_bytes"
  using is_record_pad [OF _ section_fits_small [OF ex_lengths(2)], of 8 ex_hash 1 MaxPageId]
    is_record_pad [OF _ section_fits_small [OF ex_lengths(3)], of 8 ex_hash 5 MaxPageId]
  by (simp_all add: ex_snapshot_bytes_def ex_log_bytes_def) (simp_all add: ex_state_def ex_log_def)

lemma ex_manifest:
  "is_manifest 8 ex_hash False ex_state [] ex_snapshot_bytes"
  "is_manifest 8 ex_hash False ex_state [ex_log] (ex_snapshot_bytes @ ex_log_bytes)"
  using ex_records ex_snapshot_fits ex_log_fits
  by (auto simp: is_manifest_def) (simp_all add: ex_state_def)

definition ex_bad :: bytes where
  "ex_bad = replicate 24 0"

lemma CalcChecksum_single:
  assumes "content \<noteq> []" "length content \<le> kCheckSumBatchSize"
  shows "CalcChecksum hash content = (word_rotl 1 0 XOR hash content) * kChecksumMixer"
proof -
  have "CalcChecksum_loop hash a [] = a" for a by (subst CalcChecksum_loop.simps) simp
  then show ?thesis using assms unfolding CalcChecksum_def by (subst CalcChecksum_loop.simps) simp
qed

lemma ex_bad_record: "bad_record 8 ex_hash ex_bad"
proof -
  have f: "unat (DecodeFixed32 (drop 16 ex_bad)) = 0" "take 20 ex_bad = replicate 20 0"
    "length ex_bad = AlignSize 8 20" by code_simp+
  have "CalcChecksum ex_hash (replicate 12 0) = (word_rotl 1 0 XOR ex_hash (replicate 12 0)) * kChecksumMixer"
    by (rule CalcChecksum_single) (simp_all add: kCheckSumBatchSize_def)
  moreover have "(word_rotl 1 0 XOR ex_hash (replicate 12 0)) * kChecksumMixer \<noteq> 0" by code_simp
  moreover have "DecodeFixed64 (replicate 20 0) = 0" by code_simp
  ultimately show ?thesis using f by (simp add: bad_record_def Record_ValidateChecksum_def)
qed

lemma is_log_single:
  "log_fits l \<Longrightarrow> is_record al hash (lr_root l) (lr_ttl l) (log_payload_of l) b \<Longrightarrow> is_log al hash [l] b"
  by simp

lemma is_log_append:
  "is_log al hash ls x \<Longrightarrow> is_log al hash ls' y \<Longrightarrow> is_log al hash (ls @ ls') (x @ y)"
proof (induction ls arbitrary: x)
  case (Cons l ls)
  then obtain b rest where "x = b @ rest" "is_record al hash (lr_root l) (lr_ttl l) (log_payload_of l) b"
    "is_log al hash (ls @ ls') (rest @ y)" "log_fits l" by auto
  then show ?case by auto
qed simp

lemma Replay_complete:
  assumes "is_manifest al hash has_seg s ls bs"
  shows "\<exists>r. Replay al hash bs Replayer_new = Some (NoError, r)
    \<and> represents r (foldl apply_log s ls) \<and> file_size r = length bs"
proof -
  obtain r where r: "represents r (foldl apply_log s ls)" "file_size r = length bs" "\<not> corrupted_log_found r"
    "Replay al hash bs Replayer_new =
      (case Replay_loop al hash False [] r of None \<Rightarrow> None | Some (err, r3) \<Rightarrow>
         if err \<noteq> NoError then Some (err, r3)
         else Some (NoError, if corrupted_log_found r3
                             then r3\<lparr>file_size := file_size_before_corrupted_log r3\<rparr> else r3))"
    using Replay_manifest [OF assms, of "[]"] by auto
  have "ParseNextRecord al hash [] r = (EndOfFile, [], r)"
    by (simp add: ParseNextRecord_def Manifest_Read_def)
  then have "Replay_loop al hash False [] r = Some (NoError, r)" by (rule Replay_loop_end)
  then show ?thesis using r by (intro exI [of _ r]) simp
qed

section \<open>Properties\<close>

text \<open>C11: Replaying a manifest, a snapshot record followed by any number of log records, succeeds
  and gives the state of the snapshot with the logs applied in order, and the file size where the
  next record is to be appended. Bytes of a last record that was not completely written are
  ignored.\<close>

theorem replay_manifest:
  assumes "is_manifest al hash has_seg s ls bs"
    and "is_record al hash rt ttl pl b" "n < 20 + length pl"
  shows "\<exists>r. Replay al hash (bs @ take n b) Replayer_new = Some (NoError, r)
    \<and> represents r (foldl apply_log s ls) \<and> file_size r = length bs"
proof -
  obtain r where r: "represents r (foldl apply_log s ls)" "file_size r = length bs" "\<not> corrupted_log_found r"
    "Replay al hash (bs @ take n b) Replayer_new =
      (case Replay_loop al hash False (take n b) r of None \<Rightarrow> None | Some (err, r3) \<Rightarrow>
         if err \<noteq> NoError then Some (err, r3)
         else Some (NoError, if corrupted_log_found r3
                             then r3\<lparr>file_size := file_size_before_corrupted_log r3\<rparr> else r3))"
    using Replay_manifest [OF assms(1), of "take n b"] by blast
  obtain rest where "ParseNextRecord al hash (take n b) r = (EndOfFile, rest, r)"
    using ParseNextRecord_torn [OF assms(2,3)] by blast
  then have "Replay_loop al hash False (take n b) r = Some (NoError, r)" by (rule Replay_loop_end)
  then show ?thesis using r by (intro exI [of _ r]) simp
qed

theorem replay_manifest_witness:
  "\<exists>r. Replay 8 ex_hash ((ex_snapshot_bytes @ ex_log_bytes) @ take 30 ex_log_bytes) Replayer_new = Some (NoError, r)
    \<and> represents r (apply_log ex_state ex_log)"
proof -
  have "30 < 20 + length (log_payload_of ex_log)" by (simp add: ex_lengths)
  from replay_manifest [OF ex_manifest(2) ex_records(2) this] show ?thesis by auto
qed

text \<open>C35: Records at the end of a manifest whose checksum does not match are dropped: the state is
  that of the records before them, and the next record will be written in place of the first of
  them.\<close>

theorem replay_drops_bad_tail:
  assumes "is_manifest al hash has_seg s ls bs" "list_all (bad_record al hash) cs"
  shows "\<exists>r. Replay al hash (bs @ concat cs) Replayer_new = Some (NoError, r)
    \<and> represents r (foldl apply_log s ls) \<and> file_size r = length bs"
proof -
  have al: "0 < al" using assms(1) by (simp add: is_manifest_def)
  obtain r where r: "represents r (foldl apply_log s ls)" "file_size r = length bs" "\<not> corrupted_log_found r"
    "Replay al hash (bs @ concat cs) Replayer_new =
      (case Replay_loop al hash False (concat cs) r of None \<Rightarrow> None | Some (err, r3) \<Rightarrow>
         if err \<noteq> NoError then Some (err, r3)
         else Some (NoError, if corrupted_log_found r3
                             then r3\<lparr>file_size := file_size_before_corrupted_log r3\<rparr> else r3))"
    using Replay_manifest [OF assms(1), of "concat cs"] by blast
  have cs: "\<forall>c\<in>set cs. bad_record al hash c" using assms(2) by (simp add: list_all_iff)
  have "corrupted_log_found r \<longrightarrow> False" using r(3) by simp
  from Replay_loop_bad [OF al cs this, of "[]" "foldl apply_log s ls"] obtain r'
    where r': "Replay_loop al hash False (concat cs) r = Replay_loop al hash (cs \<noteq> []) [] r'"
      "represents r' (foldl apply_log s ls)" "corrupted_log_found r' = (cs \<noteq> [])"
      "cs \<noteq> [] \<longrightarrow> file_size_before_corrupted_log r' = length bs" "cs = [] \<longrightarrow> r' = r"
    using r by auto
  have "ParseNextRecord al hash [] r' = (EndOfFile, [], r')"
    by (simp add: ParseNextRecord_def Manifest_Read_def)
  then have "Replay_loop al hash (cs \<noteq> []) [] r' = Some (NoError, r')" by (rule Replay_loop_end)
  then show ?thesis using r' r by (cases "cs = []") auto
qed

theorem replay_drops_bad_tail_witness:
  "\<exists>r. Replay 8 ex_hash (ex_snapshot_bytes @ concat [ex_bad]) Replayer_new = Some (NoError, r)
    \<and> represents r ex_state \<and> file_size r = length ex_snapshot_bytes"
  using replay_drops_bad_tail [OF ex_manifest(1), of "[ex_bad]"] ex_bad_record by simp

text \<open>C36: Damage in front of a valid record is not dropped: the replay reports corruption.\<close>

theorem replay_reports_corruption:
  assumes "is_manifest al hash has_seg s ls bs" "list_all (bad_record al hash) cs" "cs \<noteq> []"
    and "is_record al hash rt ttl pl b"
  shows "map_option fst (Replay al hash (bs @ concat cs @ b @ rest) Replayer_new) = Some Corrupted"
proof -
  have al: "0 < al" using assms(1) by (simp add: is_manifest_def)
  obtain r where r: "\<not> corrupted_log_found r"
    "Replay al hash (bs @ concat cs @ b @ rest) Replayer_new =
      (case Replay_loop al hash False (concat cs @ b @ rest) r of None \<Rightarrow> None | Some (err, r3) \<Rightarrow>
         if err \<noteq> NoError then Some (err, r3)
         else Some (NoError, if corrupted_log_found r3
                             then r3\<lparr>file_size := file_size_before_corrupted_log r3\<rparr> else r3))"
    using Replay_manifest [OF assms(1), of "concat cs @ b @ rest"] by blast
  have cs: "\<forall>c\<in>set cs. bad_record al hash c" using assms(2) by (simp add: list_all_iff)
  have "corrupted_log_found r \<longrightarrow> False" using r(1) by simp
  from Replay_loop_bad [OF al cs this, of "b @ rest"] obtain r'
    where "Replay_loop al hash False (concat cs @ b @ rest) r = Replay_loop al hash True (b @ rest) r'"
    using assms(3) by auto
  moreover have "map_option fst (Replay_loop al hash True (b @ rest) r') = Some Corrupted"
    using ParseNextRecord_ok [OF al assms(4), of rest r'] by (subst Replay_loop.simps) simp
  ultimately show ?thesis using r(2) by (auto split: option.splits prod.splits)
qed

theorem replay_reports_corruption_witness:
  "map_option fst (Replay 8 ex_hash (ex_snapshot_bytes @ concat [ex_bad] @ ex_log_bytes @ []) Replayer_new)
    = Some Corrupted"
  using replay_reports_corruption [OF ex_manifest(1) _ _ ex_records(2), of "[ex_bad]" "[]"] ex_bad_record by simp

text \<open>C37: A last record that lacks only (part of) its padding is discarded by the replay, but the
  file size counts it. The next record is written behind it, the gap reads as zero bytes, and a
  later replay applies the discarded record as well.\<close>

theorem discarded_record_returns:
  assumes m: "is_manifest al hash has_seg s ls bs" and l: "log_fits l" "section_fits (log_payload_of l)"
    and "rec = record_bytes hash (lr_root l) (lr_ttl l) (log_payload_of l)" "length rec mod al \<noteq> 0"
    and l': "log_fits l'" "is_record al hash (lr_root l') (lr_ttl l') (log_payload_of l') b'"
  shows "\<exists>r r'. Replay al hash (bs @ rec) Replayer_new = Some (NoError, r)
    \<and> represents r (foldl apply_log s ls) \<and> file_size r = length bs + AlignSize al (length rec)
    \<and> Replay al hash (bs @ rec @ replicate (file_size r - length (bs @ rec)) 0 @ b') Replayer_new = Some (NoError, r')
    \<and> represents r' (foldl apply_log s (ls @ [l, l']))"
proof -
  have al: "0 < al" using m by (simp add: is_manifest_def)
  let ?pl = "log_payload_of l"
  have rec: "length rec = 20 + length ?pl" using assms(4) by simp
  obtain r where r: "represents r (foldl apply_log s ls)" "file_size r = length bs" "\<not> corrupted_log_found r"
    "Replay al hash (bs @ rec) Replayer_new =
      (case Replay_loop al hash False rec r of None \<Rightarrow> None | Some (err, r3) \<Rightarrow>
         if err \<noteq> NoError then Some (err, r3)
         else Some (NoError, if corrupted_log_found r3
                             then r3\<lparr>file_size := file_size_before_corrupted_log r3\<rparr> else r3))"
    using Replay_manifest [OF m, of rec] by blast
  let ?r = "r\<lparr>file_size := file_size r + AlignSize al (length rec)\<rparr>"
  have p: "ParseNextRecord al hash rec r = (EndOfFile, [], ?r)"
  proof -
    have "Manifest_Read rec 20 = (NoError, take 20 rec, ?pl)" "Manifest_Read ?pl (length ?pl) = (NoError, ?pl, [])"
      using rec assms(4) record_fields(4) [of hash "lr_root l" "lr_ttl l" ?pl] by (simp_all add: Manifest_Read_def)
    moreover have "unat (DecodeFixed32 (drop 16 (take 20 rec))) = length ?pl"
      using record_fields(1) [of hash "lr_root l" "lr_ttl l" ?pl "[]"] unat_section [OF l(2)] assms(4)
      by (simp add: drop_take DecodeFixed_take)
    moreover have "take 20 rec @ ?pl = rec"
      using append_take_drop_id [of 20 rec] record_fields(4) [of hash "lr_root l" "lr_ttl l" ?pl] assms(4) by simp
    moreover have "al - (20 + length ?pl) mod al \<noteq> 0" using al by (simp add: not_le)
    ultimately show ?thesis
      using assms(4,5) rec AlignSize_mod [OF al, of "20 + length ?pl"]
      by (simp add: ParseNextRecord_def Let_def Record_ValidateChecksum_record Manifest_SkipPadding_def)
  qed
  have "Replay_loop al hash False rec r = Some (NoError, ?r)" using p by (rule Replay_loop_end)
  then have R: "Replay al hash (bs @ rec) Replayer_new = Some (NoError, ?r)" using r(3,4) by simp
  let ?pad = "replicate (file_size ?r - length (bs @ rec)) 0"
  have pad: "rec @ ?pad = pad_record al rec" using r(2) by (simp add: pad_record_def)
  have "is_record al hash (lr_root l) (lr_ttl l) ?pl (rec @ ?pad)"
    unfolding pad using is_record_pad [OF al l(2)] assms(4) by simp
  from is_log_append [OF is_log_single [OF l(1) this] is_log_single [OF l']]
  have "is_log al hash [l, l'] (rec @ ?pad @ b')" by (simp only: append_assoc append.simps)
  with m have m': "is_manifest al hash has_seg s (ls @ [l, l']) (bs @ rec @ ?pad @ b')"
    unfolding is_manifest_def by (metis append_assoc is_log_append)
  from Replay_complete [OF m'] obtain r'
    where "Replay al hash (bs @ rec @ ?pad @ b') Replayer_new = Some (NoError, r')"
      "represents r' (foldl apply_log s (ls @ [l, l']))" by blast
  with R r(1,2) show ?thesis by (intro exI [of _ ?r] exI [of _ r'] conjI) simp_all
qed

theorem discarded_record_returns_witness:
  "\<exists>r r'. Replay 8 ex_hash (ex_snapshot_bytes @ record_bytes ex_hash 5 MaxPageId (log_payload_of ex_log)) Replayer_new
      = Some (NoError, r) \<and> represents r ex_state
    \<and> Replay 8 ex_hash (ex_snapshot_bytes @ record_bytes ex_hash 5 MaxPageId (log_payload_of ex_log)
        @ replicate (file_size r - length (ex_snapshot_bytes @ record_bytes ex_hash 5 MaxPageId (log_payload_of ex_log))) 0
        @ ex_log_bytes) Replayer_new = Some (NoError, r')
    \<and> represents r' (apply_log (apply_log ex_state ex_log) ex_log)"
proof -
  have rt: "lr_root ex_log = 5" "lr_ttl ex_log = MaxPageId" by (simp_all add: ex_log_def)
  have f: "section_fits (log_payload_of ex_log)" by (rule section_fits_small [OF ex_lengths(3)]) simp
  have "length (record_bytes ex_hash 5 MaxPageId (log_payload_of ex_log)) mod 8 \<noteq> 0"
    by (simp add: ex_lengths)
  from discarded_record_returns [OF ex_manifest(1) ex_log_fits f _ this ex_log_fits ex_records(2)]
  show ?thesis unfolding rt by auto
qed

text \<open>The changes of a log, in the order they are made: a page gets a file page, or is freed.\<close>

fun log_changes :: "nat \<Rightarrow> ManifestBuilder \<Rightarrow> (PageId \<times> FilePageId option) list \<Rightarrow> ManifestBuilder option" where
  "log_changes al b [] = Some b"
| "log_changes al b ((p, Some fp) # cs) = Option.bind (mb_UpdateMapping al b p fp) (\<lambda>b'. log_changes al b' cs)"
| "log_changes al b ((p, None) # cs) = Option.bind (mb_DeleteMapping al b p) (\<lambda>b'. log_changes al b' cs)"

definition change_delta :: "PageId \<times> FilePageId option \<Rightarrow> PageId \<times> uint64" where
  "change_delta c = (fst c, case snd c of None \<Rightarrow> InvalidValue | Some fp \<Rightarrow> EncodeFilePageId fp)"

lemma log_changes_ok:
  "builder_ok al b ds \<Longrightarrow> \<exists>b'. log_changes al b cs = Some b' \<and> builder_ok al b' (ds @ map change_delta cs)"
proof (induction cs arbitrary: b ds)
  case (Cons c cs)
  obtain p fpo where c: "c = (p, fpo)" by (cases c)
  have "\<exists>b1. log_changes al b (c # cs) = log_changes al b1 cs \<and> builder_ok al b1 (ds @ [change_delta c])"
    using mb_UpdateMapping_ok [OF Cons.prems, of p] mb_DeleteMapping_ok [OF Cons.prems, of p] c
    by (cases fpo) (auto simp: change_delta_def, metis Option.bind.bind_lunit)
  then obtain b1 where b1: "log_changes al b (c # cs) = log_changes al b1 cs" "builder_ok al b1 (ds @ [change_delta c])"
    by blast
  from Cons.IH [OF b1(2)] show ?case using b1(1) by simp
qed simp

text \<open>C34: What the write path puts into the manifest is what a restart reads. A snapshot of the
  mapping tables followed by a log record with later changes replays to the tables of the snapshot,
  swizzled pages as the file pages they stand for, with the changes applied in order, and to the
  roots and the branch metadata of the log record.\<close>

theorem manifest_write_replay:
  assumes "0 < al" "dio_inv al (buff b)"
    and t: "table_is mt vs" "case seg of None \<Rightarrow> svs = [] \<and> max_seg = 0 | Some st \<Rightarrow> table_is st svs"
    and s: "s = \<lparr>ms_root = rt0, ms_ttl = ttl0, ms_values = map (serialized_value heap) vs, ms_max_fp = max_id,
        ms_seg_values = map (serialized_value heap) svs, ms_max_seg = max_seg, ms_dict = dict, ms_md = md0\<rparr>"
    and l: "l = \<lparr>lr_root = rt, lr_ttl = ttl, lr_deltas = map change_delta cs, lr_md = md, lr_seg_deltas = sds\<rparr>"
    and fits: "snapshot_fits s" "section_fits (snapshot_payload_of (seg \<noteq> None) s)"
      "log_fits l" "section_fits (log_payload_of l)"
  shows "\<exists>blob0 b0 b1 blob1 b2 r.
      mb_Snapshot al hash heap b rt0 ttl0 mt max_id dict md0 seg max_seg = Some (blob0, b0)
    \<and> log_changes al (mb_Reset al b0) cs = Some b1
    \<and> finish_log al hash b1 md (concat (map enc_delta sds)) rt ttl = Some (blob1, b2)
    \<and> Replay al hash (blob0 @ blob1) Replayer_new = Some (NoError, r)
    \<and> represents r (apply_log s l) \<and> file_size r = length (blob0 @ blob1)"
proof -
  obtain blob0 b0 where s0: "mb_Snapshot al hash heap b rt0 ttl0 mt max_id dict md0 seg max_seg = Some (blob0, b0)"
    "is_record al hash rt0 ttl0 (snapshot_payload_of (seg \<noteq> None) s) blob0" "dio_inv al (buff b0)"
    using mb_Snapshot_ok [OF assms(2) t s fits(2)] by blast
  obtain b1 where b1: "log_changes al (mb_Reset al b0) cs = Some b1" "builder_ok al b1 (map change_delta cs)"
    using log_changes_ok [OF builder_ok_Reset [OF s0(3)]] by auto
  have pl: "log_payload_of l = log_payload (map change_delta cs) md sds" by (simp add: l log_payload_of_def)
  obtain blob1 b2 where s1: "finish_log al hash b1 md (concat (map enc_delta sds)) rt ttl = Some (blob1, b2)"
    "is_record al hash rt ttl (log_payload_of l) blob1"
    using finish_log_ok [OF b1(2)] fits(4) unfolding pl by blast
  have seg0: "seg = None \<longrightarrow> ms_seg_values s = [] \<and> ms_max_seg s = 0" using t(2) s by auto
  have "is_manifest al hash (seg \<noteq> None) s [l] (blob0 @ blob1)"
    using assms(1) fits s0(2) s1(2) seg0 s l unfolding is_manifest_def by auto
  from Replay_complete [OF this] show ?thesis using s0(1) b1(1) s1(1) by auto
qed

definition ex_table :: MappingTbl where
  "ex_table = the (push_values (MappingTbl_new None) (ms_values ex_state))"

definition ex_heap :: page_heap where
  "ex_heap = (\<lambda>_. \<lparr>mp_page_id = 0, mp_file_page_id = 0, mp_detached = False\<rparr>)"

lemma ex_table: "table_is ex_table (ms_values ex_state)"
proof -
  have "length [] + length (ms_values ex_state) < 2 ^ 32" by (simp add: ex_state_def)
  from push_values_ok [OF table_is_new this] show ?thesis unfolding ex_table_def by force
qed

theorem manifest_write_replay_witness:
  "\<exists>blob0 b0 b1 blob1 b2 r.
      mb_Snapshot 8 ex_hash ex_heap (ManifestBuilder_new 8) 1 MaxPageId ex_table 8 [] ex_md None 0 = Some (blob0, b0)
    \<and> log_changes 8 (mb_Reset 8 b0) [(5, Some 9), (0, None)] = Some b1
    \<and> finish_log 8 ex_hash b1 ex_md [] 5 MaxPageId = Some (blob1, b2)
    \<and> Replay 8 ex_hash (blob0 @ blob1) Replayer_new = Some (NoError, r)
    \<and> represents r (apply_log ex_state ex_log)"
proof -
  have b: "dio_inv 8 (buff (ManifestBuilder_new 8))" using builder_ok_new [of 8] by (simp add: builder_ok_def)
  have v: "map (serialized_value ex_heap) (ms_values ex_state) = ms_values ex_state" by code_simp
  have s: "ex_state = \<lparr>ms_root = 1, ms_ttl = MaxPageId, ms_values = map (serialized_value ex_heap) (ms_values ex_state),
      ms_max_fp = 8, ms_seg_values = map (serialized_value ex_heap) [], ms_max_seg = 0, ms_dict = [], ms_md = ex_md\<rparr>"
    unfolding v by (simp add: ex_state_def)
  have l: "ex_log = \<lparr>lr_root = 5, lr_ttl = MaxPageId, lr_deltas = map change_delta [(5, Some 9), (0, None)],
      lr_md = ex_md, lr_seg_deltas = []\<rparr>" by (simp add: ex_log_def change_delta_def)
  have f: "section_fits (snapshot_payload_of (None \<noteq> (None :: MappingTbl option)) ex_state)"
    "section_fits (log_payload_of ex_log)"
    using section_fits_small [OF ex_lengths(2)] section_fits_small [OF ex_lengths(3)] by simp_all
  show ?thesis
    using manifest_write_replay [OF _ b ex_table _ s l ex_snapshot_fits f(1) ex_log_fits f(2), of ex_hash] by auto
qed

end
