(* ===== verification/Manifest_Io.thy ===== *)
theory Manifest_Io
  imports Replayer_Props
begin

text \<open>
  Manifest files on disk (\<open>IouringMgr::AppendManifest\<close>, \<open>WriteSnapshot\<close>, \<open>SwitchManifest\<close> in
  \<open>src/async_io_manager.cpp\<close>).  The directory of a partition maps file names to contents.  The
  results of the system calls are given by an \<open>io_results\<close>; a kill between two calls leaves the
  directory that is left when the later call fails, so the statements below, which hold for all
  results, also cover a crash at each of the kill points of the code.
\<close>

section \<open>System calls\<close>

record io_results =
  io_close :: KvError
  io_open :: KvError
  io_create :: int
  io_write :: "nat \<Rightarrow> int"
  io_sync :: int
  io_rename :: int
  io_sync_dir :: int

type_synonym directory = "string \<Rightarrow> bytes option"

definition ToKvError :: "int \<Rightarrow> KvError" where
  "ToKvError err_no =
    (if err_no \<ge> 0 then NoError
     else if err_no = - 1 then NoPermission
     else if err_no = - 2 then NotFound
     else if err_no \<in> {- 4, - 11, - 105} then TryAgain
     else if err_no = - 12 then OutOfMem
     else if err_no = - 16 then Busy
     else if err_no = - 24 then OpenFileLimit
     else if err_no = - 28 then OutOfSpace
     else IoFail)"

text \<open>A write never transfers more bytes than it is given; the file grows as needed, a gap reads as
  zero bytes.\<close>

definition Write_result :: "int \<Rightarrow> nat \<Rightarrow> int" where
  "Write_result res n = min res (int n)"

definition pwrite :: "bytes \<Rightarrow> nat \<Rightarrow> bytes \<Rightarrow> bytes" where
  "pwrite content off src = write_at off src (content @ replicate (off - length content) 0)"

definition TmpSuffix :: string where
  "TmpSuffix = ''.tmp''"

section \<open>Writing in batches\<close>

text \<open>The loop shared by \<open>AppendManifest\<close> and \<open>WriteSnapshot\<close>: batches until everything is written.
  The result is that of the first write that failed or wrote nothing.\<close>

function write_loop ::
  "(nat \<Rightarrow> int) \<Rightarrow> nat \<Rightarrow> nat \<Rightarrow> bytes \<Rightarrow> nat \<Rightarrow> nat \<Rightarrow> nat \<Rightarrow> bytes \<Rightarrow> int option \<times> bytes" where
  "write_loop res batch_size i src offset written remaining content =
    (if remaining = 0 then (None, content)
     else
       let batch = min batch_size remaining;
           wres = Write_result (res i) batch
       in if wres \<le> 0 then (Some wres, content)
          else write_loop res batch_size (Suc i) src offset (written + nat wres)
                 (if remaining \<ge> nat wres then remaining - nat wres else 0)
                 (pwrite content (offset + written) (take (nat wres) (drop written src))))"
  by pat_completeness auto
termination
  by (relation "measure (\<lambda>(_, _, _, _, _, _, remaining, _). remaining)") auto

declare write_loop.simps [simp del]

definition AppendManifest ::
  "nat \<Rightarrow> io_results \<Rightarrow> bytes option \<Rightarrow> bytes \<Rightarrow> nat \<Rightarrow> KvError \<times> bytes option" where
  "AppendManifest al io manifest_file log offset =
    (if log = [] then (NoError, manifest_file)
     else if io_open io \<noteq> NoError then (io_open io, manifest_file)
     else case manifest_file of
       None \<Rightarrow> (NotFound, None)
     | Some content \<Rightarrow>
        (case write_loop (io_write io) al 0 log offset 0 (length log) content of
           (Some wres, content1) \<Rightarrow> (if wres < 0 then ToKvError wres else TryAgain, Some content1)
         | (None, content1) \<Rightarrow> (ToKvError (io_sync io), Some content1)))"

definition EIO :: int where
  "EIO = 5"

definition WriteSnapshot ::
  "nat \<Rightarrow> io_results \<Rightarrow> directory \<Rightarrow> string \<Rightarrow> bytes \<Rightarrow> int \<times> directory" where
  "WriteSnapshot batch_size io dir name content =
    (let tmpfile = name @ TmpSuffix; tmp_fd = io_create io in
     if tmp_fd < 0 then (tmp_fd, dir)
     else case write_loop (io_write io) batch_size 0 content 0 0 (length content) [] of
       (Some res, written) \<Rightarrow> (if res < 0 then res else - EIO, dir(tmpfile \<mapsto> written))
     | (None, written) \<Rightarrow>
        let dir = dir(tmpfile \<mapsto> written) in
        if io_sync io < 0 then (io_sync io, dir)
        else if io_rename io < 0 then (io_rename io, dir)
        else
          let dir = dir(name \<mapsto> written, tmpfile := None) in
          if io_sync_dir io < 0 then (io_sync_dir io, dir) else (tmp_fd, dir))"

text \<open>The manifest of the active branch and term is closed, then replaced.\<close>

definition SwitchManifest ::
  "nat \<Rightarrow> io_results \<Rightarrow> string \<Rightarrow> uint64 \<Rightarrow> directory \<Rightarrow> bytes \<Rightarrow> KvError \<times> directory" where
  "SwitchManifest batch_size io active_br manifest_term dir snapshot =
    (if io_close io \<noteq> NoError then (io_close io, dir)
     else if io_open io \<noteq> NoError then (io_open io, dir)
     else
       let manifest_name = BranchManifestFileName active_br manifest_term;
           (res, dir) = WriteSnapshot batch_size io dir manifest_name snapshot
       in (if res < 0 then ToKvError res else NoError, dir))"

section \<open>What the calls leave behind\<close>

lemma pwrite_Nil: "off \<le> length f \<Longrightarrow> pwrite f off [] = f"
  by (simp add: pwrite_def write_at_def)

lemma pwrite_pwrite:
  "off \<le> length f \<Longrightarrow> pwrite (pwrite f off a) (off + length a) b = pwrite f off (a @ b)"
  by (simp add: pwrite_def write_at_def min_def ac_simps)

lemma pwrite_end: "pwrite f (length f) a = f @ a"
  by (simp add: pwrite_def write_at_def)

lemma write_loop_prefix:
  "off \<le> length f \<Longrightarrow> written \<le> length src \<Longrightarrow> remaining = length src - written
    \<Longrightarrow> content = pwrite f off (take written src)
    \<Longrightarrow> \<exists>n \<le> length src. snd (write_loop res bsz i src off written remaining content) = pwrite f off (take n src)
      \<and> (fst (write_loop res bsz i src off written remaining content) = None \<longrightarrow> n = length src)"
proof (induction res bsz i src off written remaining content rule: write_loop.induct)
  case (1 res bsz i src off written remaining content)
  define w where "w = Write_result (res i) (min bsz remaining)"
  show ?case
  proof (cases "remaining = 0 \<or> w \<le> 0")
    case True
    then have "write_loop res bsz i src off written remaining content =
        (if remaining = 0 then None else Some w, content)"
      by (subst write_loop.simps) (auto simp: w_def [symmetric])
    then show ?thesis using 1(2-5) by (intro exI [of _ written]) auto
  next
    case False
    define n where "n = nat w"
    have n: "n \<le> remaining" "n \<noteq> 0" using False by (auto simp: n_def w_def Write_result_def)
    have step: "write_loop res bsz i src off written remaining content =
        write_loop res bsz (Suc i) src off (written + n) (remaining - n)
          (pwrite content (off + written) (take n (drop written src)))"
      using False n by (subst write_loop.simps) (simp add: w_def [symmetric] n_def [symmetric])
    have c: "pwrite content (off + written) (take n (drop written src)) = pwrite f off (take (written + n) src)"
      using pwrite_pwrite [OF 1(2), of "take written src"] 1(3,5) by (simp add: take_add min_absorb2)
    have r: "(if remaining \<ge> nat w then remaining - nat w else 0) = remaining - n" using n by (simp add: n_def)
    have pre: "remaining \<noteq> 0" "\<not> w \<le> 0" using False by auto
    note IH = 1(1) [OF pre(1) refl w_def pre(2), unfolded r, folded n_def]
    have "written + n \<le> length src" "remaining - n = length src - (written + n)" using n 1(3,4) by auto
    from IH [OF 1(2) this c] show ?thesis unfolding step .
  qed
qed

lemma AppendManifest_prefix:
  assumes "AppendManifest al io (Some f) log (length f) = (err, f')"
  shows "\<exists>n \<le> length log. f' = Some (f @ take n log) \<and> (err = NoError \<longrightarrow> n = length log)"
proof -
  let ?r = "write_loop (io_write io) al 0 log (length f) 0 (length log) f"
  obtain n where "n \<le> length log" "snd ?r = f @ take n log" "fst ?r = None \<longrightarrow> n = length log"
    using write_loop_prefix [of "length f" f 0 log "length log" f "io_write io" al 0]
    by (auto simp: pwrite_Nil pwrite_end)
  moreover have "ToKvError wres \<noteq> NoError" if "wres < 0" for wres using that by (simp add: ToKvError_def)
  ultimately show ?thesis using assms
    by (cases ?r) (auto simp: AppendManifest_def split: if_splits option.splits)
qed

lemma WriteSnapshot_manifest:
  assumes "WriteSnapshot bsz io dir name content = (res, dir')"
  shows "dir' name = dir name \<or> dir' name = Some content"
    and "res \<ge> 0 \<Longrightarrow> dir' name = Some content"
    and "n \<noteq> name \<Longrightarrow> n \<noteq> name @ TmpSuffix \<Longrightarrow> dir' n = dir n"
proof -
  let ?r = "write_loop (io_write io) bsz 0 content 0 0 (length content) []"
  have tmp: "name @ TmpSuffix \<noteq> name" by (simp add: TmpSuffix_def)
  have w: "snd ?r = content" if "fst ?r = None"
    using write_loop_prefix [of 0 "[]" 0 content "length content" "[]" "io_write io" bsz 0] that
    by (auto simp: pwrite_Nil pwrite_def write_at_def)
  show "dir' name = dir name \<or> dir' name = Some content"
    using assms w tmp by (cases ?r) (auto simp: WriteSnapshot_def Let_def split: if_splits option.splits)
  show "res \<ge> 0 \<Longrightarrow> dir' name = Some content"
    using assms w tmp by (cases ?r) (auto simp: WriteSnapshot_def Let_def EIO_def split: if_splits option.splits)
  show "n \<noteq> name \<Longrightarrow> n \<noteq> name @ TmpSuffix \<Longrightarrow> dir' n = dir n"
    using assms by (cases ?r) (auto simp: WriteSnapshot_def Let_def split: if_splits option.splits)
qed

lemma SwitchManifest_replaces:
  assumes "SwitchManifest bsz io br term dir snapshot = (err, dir')"
  shows "dir' (BranchManifestFileName br term) \<in> {dir (BranchManifestFileName br term), Some snapshot}"
    and "err = NoError \<Longrightarrow> dir' (BranchManifestFileName br term) = Some snapshot"
proof -
  obtain res d where w: "WriteSnapshot bsz io dir (BranchManifestFileName br term) snapshot = (res, d)"
    by (metis surj_pair)
  have "ToKvError res \<noteq> NoError" if "res < 0" using that by (simp add: ToKvError_def)
  then show "dir' (BranchManifestFileName br term) \<in> {dir (BranchManifestFileName br term), Some snapshot}"
    "err = NoError \<Longrightarrow> dir' (BranchManifestFileName br term) = Some snapshot"
    using assms WriteSnapshot_manifest(1,2) [OF w] w by (auto simp: SwitchManifest_def Let_def split: if_splits)
qed

section \<open>Reading a manifest with an unfinished record\<close>

text \<open>However much of its last record is there, a manifest replays; the record counts only when it
  is complete.\<close>

lemma ParseNextRecord_no_padding:
  assumes "0 < al" "is_record al hash rt ttl pl b" "20 + length pl \<le> n" "n < length b"
  shows "\<exists>rest k. ParseNextRecord al hash (take n b) r = (EndOfFile, rest, r\<lparr>file_size := k\<rparr>)"
proof -
  obtain pad where b: "b = record_bytes hash rt ttl pl @ pad" "section_fits pl"
    "length b = AlignSize al (20 + length pl)" using assms(2) by (auto simp: is_record_def)
  let ?rec = "record_bytes hash rt ttl pl"
  define m where "m = (20 + length pl) mod al"
  have m: "0 < m" "length pad = al - m"
    using b(1,3) assms AlignSize_mod [OF assms(1), of "20 + length pl"] by (auto simp: m_def split: if_splits)
  define p where "p = take (n - (20 + length pl)) pad"
  have p: "length p < al - m" "take n b = ?rec @ p" using assms(3,4) b(1) m by (auto simp: p_def)
  have pl: "unat (DecodeFixed32 (drop 16 (take 20 ?rec))) = length pl"
    using record_fields(1) [of hash rt ttl pl "[]"] unat_section [OF b(2)] by (simp add: drop_take DecodeFixed_take)
  have split: "take 20 ?rec @ pl = ?rec"
    using append_take_drop_id [of 20 ?rec] record_fields(4) [of hash rt ttl pl] by simp
  have rd: "Manifest_Read (take n b) 20 = (NoError, take 20 ?rec, pl @ p)"
    "Manifest_Read (pl @ p) (length pl) = (NoError, pl, p)"
    using p(2) record_fields(4) [of hash rt ttl pl] by (simp_all add: Manifest_Read_def)
  have skip: "Manifest_SkipPadding p (al - m) = (EndOfFile, p)" using p(1) by (simp add: Manifest_SkipPadding_def)
  show ?thesis using m(1) skip
    by (simp add: ParseNextRecord_def rd pl split Let_def Record_ValidateChecksum_record m_def [symmetric]) blast
qed

lemma Replay_partial:
  assumes m: "is_manifest al hash has_seg s ls bs" and l: "log_fits l"
    "is_record al hash (lr_root l) (lr_ttl l) (log_payload_of l) b" and n: "n \<le> length b"
  shows "\<exists>r. Replay al hash (bs @ take n b) Replayer_new = Some (NoError, r)
    \<and> represents r (foldl apply_log s (if n = length b then ls @ [l] else ls))"
proof (cases "n = length b")
  case True
  have "is_manifest al hash has_seg s (ls @ [l]) (bs @ b)"
    using m is_log_append [of al hash ls _ "[l]" b] is_log_single [OF l] unfolding is_manifest_def
    by (metis append_assoc)
  from Replay_complete [OF this] show ?thesis using True by auto
next
  case False
  have al: "0 < al" using m by (simp add: is_manifest_def)
  obtain r where r: "represents r (foldl apply_log s ls)" "\<not> corrupted_log_found r"
    "Replay al hash (bs @ take n b) Replayer_new =
      (case Replay_loop al hash False (take n b) r of None \<Rightarrow> None | Some (err, r3) \<Rightarrow>
         if err \<noteq> NoError then Some (err, r3)
         else Some (NoError, if corrupted_log_found r3
                             then r3\<lparr>file_size := file_size_before_corrupted_log r3\<rparr> else r3))"
    using Replay_manifest [OF m, of "take n b"] by blast
  obtain rest k where "ParseNextRecord al hash (take n b) r = (EndOfFile, rest, r\<lparr>file_size := k\<rparr>)"
  proof (cases "n < 20 + length (log_payload_of l)")
    case True
    obtain rest where "ParseNextRecord al hash (take n b) r = (EndOfFile, rest, r)"
      using ParseNextRecord_torn [OF l(2) True] by blast
    then show ?thesis using that [of rest "file_size r"] by simp
  next
    case c: False
    show ?thesis using ParseNextRecord_no_padding [OF al l(2), of n r] c n False that by auto
  qed
  then have "Replay_loop al hash False (take n b) r = Some (NoError, r\<lparr>file_size := k\<rparr>)"
    by (rule Replay_loop_end)
  then show ?thesis using r False by (intro exI [of _ "r\<lparr>file_size := k\<rparr>"]) (simp add: represents_def)
qed

end
