(* ===== verification/Store_Options.thy ===== *)
theory Store_Options
  imports Complex_Main File_Names Page_Layout
begin

text \<open>
  The options of a store and their validation (\<open>include/kv_options.h\<close>, \<open>EloqStore::ValidateOptions\<close>
  and \<open>UpdateStandbyMaster...\<close> in \<open>src/eloq_store.cpp\<close>).  Validation returns the options it may have
  adjusted; None is the result false.  \<open>al\<close> is the page size of the system, a power of two; a
  pointer is a number, 0 is null; the floating point ratio is a rational number.
\<close>

record StoreOptions = KvOptions +
  num_threads :: nat
  max_inflight_write :: nat
  max_global_request_batch :: nat
  segment_size :: nat
  segments_per_file_shift :: nat
  coroutine_stack_size :: nat
  write_buffer_size :: nat
  write_buffer_ratio :: rat
  non_page_io_batch_size :: nat
  max_write_batch_pages :: nat
  manifest_limit :: nat
  data_append_mode :: bool
  store_path :: "string list"
  store_path_weights :: "uint64 list"
  cloud_store_path :: string
  cloud_provider :: string
  cloud_endpoint :: string
  enable_local_standby :: bool
  standby_master_addr :: string
  standby_master_store_paths :: "string list"
  standby_master_store_path_weights :: "uint64 list"
  max_cloud_concurrency :: nat
  max_write_concurrency :: nat
  cloud_request_threads :: nat
  local_space_limit :: nat
  fd_limit :: nat
  prewarm_cloud_cache :: bool
  global_registered_memories :: "nat list"
  pinned_memory_chunks :: "(nat \<times> nat) list"
  gc_global_mem_size_per_shard :: nat

datatype StoreMode = Local | StandbyMaster | StandbyReplica | Cloud

definition DeriveStoreMode :: "StoreOptions \<Rightarrow> StoreMode" where
  "DeriveStoreMode opts =
    (if enable_local_standby opts
     then if standby_master_addr opts = [] then StandbyMaster else StandbyReplica
     else if cloud_store_path opts \<noteq> [] then Cloud else Local)"

definition max_overflow_pointers :: nat where
  "max_overflow_pointers = 128"

definition max_segments_batch :: nat where
  "max_segments_batch = 8"

definition FilePageOffsetMask :: "StoreOptions \<Rightarrow> nat" where
  "FilePageOffsetMask opts = 2 ^ pages_per_file_shift opts - 1"

definition DataFileSize :: "StoreOptions \<Rightarrow> nat" where
  "DataFileSize opts = data_page_size opts * 2 ^ pages_per_file_shift opts"

definition SegmentFileSize :: "StoreOptions \<Rightarrow> nat" where
  "SegmentFileSize opts = segment_size opts * 2 ^ segments_per_file_shift opts"

definition TB :: nat where
  "TB = 2 ^ 40"

section \<open>Validation\<close>

definition char_tolower :: "char \<Rightarrow> char" where
  "char_tolower c = (if is_upper c then char_of (of_char c + 32 :: nat) else c)"

definition google_provider :: "string \<Rightarrow> bool" where
  "google_provider p \<longleftrightarrow> p \<in> {''gcs'', ''google'', ''google-cloud''}"

definition Validate_endpoint :: "StoreOptions \<Rightarrow> StoreOptions" where
  "Validate_endpoint opts =
    (let cloud_provider_lower = map char_tolower (cloud_provider opts) in
     if cloud_endpoint opts = [] \<and> google_provider cloud_provider_lower
     then opts\<lparr>cloud_endpoint := ''https://storage.googleapis.com''\<rparr> else opts)"

definition Validate_sizes :: "nat \<Rightarrow> StoreOptions \<Rightarrow> bool" where
  "Validate_sizes al opts \<longleftrightarrow>
    num_threads opts \<noteq> 0 \<and> max_inflight_write opts \<noteq> 0 \<and> max_global_request_batch opts \<noteq> 0
    \<and> data_page_size opts mod al = 0
    \<and> segment_size opts \<noteq> 0 \<and> segment_size opts mod al = 0
    \<and> coroutine_stack_size opts mod al = 0
    \<and> (if write_buffer_size opts \<noteq> 0 \<or> write_buffer_ratio opts \<noteq> 0
       then write_buffer_size opts \<noteq> 0 \<and> 0 < write_buffer_ratio opts \<and> write_buffer_ratio opts < 1
            \<and> write_buffer_size opts mod al = 0
       else True)
    \<and> non_page_io_batch_size opts \<noteq> 0 \<and> non_page_io_batch_size opts mod al = 0
    \<and> overflow_pointers opts \<noteq> 0 \<and> overflow_pointers opts \<le> max_overflow_pointers
    \<and> max_write_batch_pages opts \<noteq> 0"

definition standby_addr_ok :: "string \<Rightarrow> bool" where
  "standby_addr_ok addr \<longleftrightarrow> addr = ''local'' \<or> CHR ''@'' \<in> set addr"

definition absolute_path :: "string \<Rightarrow> bool" where
  "absolute_path p \<longleftrightarrow> p \<noteq> [] \<and> hd p = CHR ''/''"

definition weights_ok :: "uint64 list \<Rightarrow> string list \<Rightarrow> bool" where
  "weights_ok weights paths \<longleftrightarrow>
    (weights = [] \<or> length weights = length paths) \<and> list_all (\<lambda>w. w \<noteq> 0) weights"

definition Validate_standby :: "StoreOptions \<Rightarrow> StoreOptions option" where
  "Validate_standby opts0 =
    (let opts = (if cloud_store_path opts0 \<noteq> []
                 then opts0\<lparr>enable_local_standby := False, standby_master_addr := [],
                            standby_master_store_paths := []\<rparr>
                 else opts0)
     in if \<not> enable_local_standby opts \<and> standby_master_addr opts \<noteq> [] then None
        else if enable_local_standby opts
             \<and> (store_path opts = [] \<or> \<not> weights_ok (store_path_weights opts) (store_path opts)) then None
        else
          let opts = (if enable_local_standby opts then opts\<lparr>data_append_mode := True\<rparr> else opts) in
          if standby_master_addr opts \<noteq> []
             \<and> (store_path opts = [] \<or> \<not> standby_addr_ok (standby_master_addr opts)
                \<or> length (standby_master_store_paths opts) \<noteq> length (store_path opts)
                \<or> \<not> weights_ok (standby_master_store_path_weights opts) (standby_master_store_paths opts)
                \<or> \<not> list_all absolute_path (standby_master_store_paths opts))
          then None else Some opts)"

text \<open>The size of a data file, computed in 64 bits.\<close>

definition data_file_bytes :: "StoreOptions \<Rightarrow> nat" where
  "data_file_bytes opts = DataFileSize opts mod 2 ^ 64"

definition Validate_cloud :: "StoreOptions \<Rightarrow> StoreOptions option" where
  "Validate_cloud opts =
    (if cloud_store_path opts = [] then Some (opts\<lparr>prewarm_cloud_cache := False\<rparr>)
     else if max_cloud_concurrency opts = 0 \<or> cloud_request_threads opts = 0 then None
     else
       let limit = (if local_space_limit opts = 0 then TB else local_space_limit opts);
           file_bytes = data_file_bytes opts
       in if file_bytes = 0 then None
          else
            let max_cached_files = limit div file_bytes;
                space = (if max_cached_files = 0 then file_bytes else limit);
                max_cached_files = (if max_cached_files = 0 then 1 else max_cached_files);
                max_fd_limit = (if max_cached_files > 1 then max_cached_files - 1 else 1)
            in Some (opts\<lparr>
                 max_write_concurrency := (if max_write_concurrency opts = 0 then max_cloud_concurrency opts
                                           else max_write_concurrency opts),
                 local_space_limit := space, data_append_mode := True,
                 fd_limit := (if fd_limit opts > max_fd_limit then max_fd_limit else fd_limit opts)\<rparr>))"

definition kPinnedAlign :: nat where
  "kPinnedAlign = 4096"

definition Validate_memories :: "StoreOptions \<Rightarrow> bool" where
  "Validate_memories opts \<longleftrightarrow>
    (global_registered_memories opts \<noteq> [] \<longrightarrow>
       length (global_registered_memories opts) = num_threads opts
       \<and> list_all (\<lambda>mem. mem \<noteq> 0) (global_registered_memories opts) \<and> pinned_memory_chunks opts = [])
    \<and> (pinned_memory_chunks opts \<noteq> [] \<longrightarrow>
       list_all (\<lambda>(base, size). base \<noteq> 0 \<and> size \<noteq> 0 \<and> base mod kPinnedAlign = 0 \<and> size mod kPinnedAlign = 0)
         (pinned_memory_chunks opts)
       \<and> gc_global_mem_size_per_shard opts \<ge> max_segments_batch * segment_size opts
       \<and> gc_global_mem_size_per_shard opts mod segment_size opts = 0)"

definition ValidateOptions :: "nat \<Rightarrow> StoreOptions \<Rightarrow> StoreOptions option" where
  "ValidateOptions al opts =
    (let opts = Validate_endpoint opts in
     if \<not> Validate_sizes al opts then None
     else
       case Validate_standby opts of None \<Rightarrow> None | Some opts \<Rightarrow>
       (case Validate_cloud opts of None \<Rightarrow> None | Some opts \<Rightarrow>
          if Validate_memories opts then Some opts else None))"

section \<open>What validated options guarantee\<close>

lemma Validate_endpoint_frame [simp]:
  "Validate_sizes al (Validate_endpoint opts) = Validate_sizes al opts"
  "Validate_endpoint (Validate_endpoint opts) = Validate_endpoint opts"
  by (simp_all add: Validate_endpoint_def Validate_sizes_def Let_def)

lemma Validate_endpoint_fix:
  "Validate_endpoint opts = opts
    \<longleftrightarrow> cloud_endpoint opts \<noteq> [] \<or> \<not> google_provider (map char_tolower (cloud_provider opts))"
proof (cases "cloud_endpoint opts = [] \<and> google_provider (map char_tolower (cloud_provider opts))")
  case True
  then have "cloud_endpoint (Validate_endpoint opts) \<noteq> cloud_endpoint opts" by (simp add: Validate_endpoint_def)
  then have "Validate_endpoint opts \<noteq> opts" by metis
  with True show ?thesis by blast
next
  case False
  then show ?thesis unfolding Validate_endpoint_def Let_def by auto
qed

lemma Validate_endpoint_cong:
  "Validate_endpoint opts = opts \<Longrightarrow> cloud_endpoint o' = cloud_endpoint opts \<Longrightarrow> cloud_provider o' = cloud_provider opts
    \<Longrightarrow> Validate_endpoint o' = o'"
  unfolding Validate_endpoint_fix by simp

definition standby_ok :: "StoreOptions \<Rightarrow> bool" where
  "standby_ok opts \<longleftrightarrow> store_path opts \<noteq> [] \<and> weights_ok (store_path_weights opts) (store_path opts)
    \<and> (standby_master_addr opts \<noteq> [] \<longrightarrow> standby_addr_ok (standby_master_addr opts)
       \<and> length (standby_master_store_paths opts) = length (store_path opts)
       \<and> weights_ok (standby_master_store_path_weights opts) (standby_master_store_paths opts)
       \<and> list_all absolute_path (standby_master_store_paths opts))"

text \<open>Cloud mode drops the standby settings, standby mode turns on append mode.\<close>

lemma Validate_standby_eq:
  "Validate_standby opts =
    (if cloud_store_path opts \<noteq> []
     then Some (opts\<lparr>enable_local_standby := False, standby_master_addr := [], standby_master_store_paths := []\<rparr>)
     else if enable_local_standby opts
     then if standby_ok opts then Some (opts\<lparr>data_append_mode := True\<rparr>) else None
     else if standby_master_addr opts = [] then Some opts else None)"
proof (cases "cloud_store_path opts = []")
  case False
  then show ?thesis by (simp add: Validate_standby_def)
next
  case True
  then show ?thesis
    by (cases "enable_local_standby opts"; cases "standby_master_addr opts = []")
      (simp_all add: Validate_standby_def standby_ok_def)
qed

lemma sizes_frame [simp]:
  "Validate_sizes al (opts\<lparr>enable_local_standby := x\<rparr>) = Validate_sizes al opts"
  "Validate_sizes al (opts\<lparr>standby_master_addr := y\<rparr>) = Validate_sizes al opts"
  "Validate_sizes al (opts\<lparr>standby_master_store_paths := z\<rparr>) = Validate_sizes al opts"
  "Validate_sizes al (opts\<lparr>data_append_mode := x\<rparr>) = Validate_sizes al opts"
  "Validate_sizes al (opts\<lparr>max_write_concurrency := n\<rparr>) = Validate_sizes al opts"
  "Validate_sizes al (opts\<lparr>local_space_limit := n\<rparr>) = Validate_sizes al opts"
  "Validate_sizes al (opts\<lparr>fd_limit := n\<rparr>) = Validate_sizes al opts"
  "Validate_sizes al (opts\<lparr>prewarm_cloud_cache := x\<rparr>) = Validate_sizes al opts"
  by (simp_all add: Validate_sizes_def)

lemma div_mult_minus: "(n div d - 1) * d \<le> (n :: nat)" "0 < n div d \<Longrightarrow> d \<le> n" for d :: nat
proof -
  have "(n div d - 1) * d \<le> n div d * d" by simp
  then show "(n div d - 1) * d \<le> n" using div_times_less_eq_dividend [of n d] by linarith
  show "0 < n div d \<Longrightarrow> d \<le> n" by (metis div_less less_not_refl not_le)
qed

text \<open>In cloud mode: append mode is on, some concurrency is allowed, and the files that may be open
  at once fit into the local space.\<close>

definition cloud_ok :: "StoreOptions \<Rightarrow> bool" where
  "cloud_ok opts \<longleftrightarrow> data_append_mode opts \<and> max_cloud_concurrency opts \<noteq> 0 \<and> max_write_concurrency opts \<noteq> 0
    \<and> cloud_request_threads opts \<noteq> 0 \<and> local_space_limit opts \<noteq> 0
    \<and> data_file_bytes opts \<noteq> 0 \<and> data_file_bytes opts \<le> local_space_limit opts
    \<and> fd_limit opts * data_file_bytes opts \<le> local_space_limit opts"

definition cloud_space :: "StoreOptions \<Rightarrow> nat" where
  "cloud_space opts =
    (let limit = (if local_space_limit opts = 0 then TB else local_space_limit opts) in
     if limit div data_file_bytes opts = 0 then data_file_bytes opts else limit)"

definition cloud_files :: "StoreOptions \<Rightarrow> nat" where
  "cloud_files opts = max 1 (cloud_space opts div data_file_bytes opts - 1)"

lemma data_file_bytes_frame [simp]:
  "data_file_bytes (opts\<lparr>max_write_concurrency := n\<rparr>) = data_file_bytes opts"
  "data_file_bytes (opts\<lparr>local_space_limit := n\<rparr>) = data_file_bytes opts"
  "data_file_bytes (opts\<lparr>data_append_mode := x\<rparr>) = data_file_bytes opts"
  "data_file_bytes (opts\<lparr>fd_limit := n\<rparr>) = data_file_bytes opts"
  by (simp_all add: data_file_bytes_def DataFileSize_def)

lemma cloud_max_files:
  assumes "0 < d"
  shows "(let mc = n div d; mc' = (if mc = 0 then 1 else mc) in if mc' > 1 then mc' - 1 else 1)
    = max 1 ((if n div d = 0 then d else n) div d - (1 :: nat))"
  using assms by (auto simp: Let_def max_def)

lemma Validate_cloud_eq:
  assumes "cloud_store_path opts \<noteq> []"
  shows "Validate_cloud opts =
    (if max_cloud_concurrency opts = 0 \<or> cloud_request_threads opts = 0 \<or> data_file_bytes opts = 0
     then None
     else Some (opts\<lparr>max_write_concurrency :=
                       (if max_write_concurrency opts = 0 then max_cloud_concurrency opts else max_write_concurrency opts),
                     local_space_limit := cloud_space opts, data_append_mode := True,
                     fd_limit := min (fd_limit opts) (cloud_files opts)\<rparr>))"
proof (cases "data_file_bytes opts = 0")
  case True
  then show ?thesis using assms by (simp add: Validate_cloud_def)
next
  case False
  define L where "L = (if local_space_limit opts = 0 then TB else local_space_limit opts)"
  define d where "d = data_file_bytes opts"
  have cs: "cloud_space opts = (if L div d = 0 then d else L)"
    by (simp add: cloud_space_def L_def d_def Let_def)
  have cf: "cloud_files opts = (let mc = L div d; mc' = (if mc = 0 then 1 else mc) in if mc' > 1 then mc' - 1 else 1)"
    unfolding cloud_files_def cs d_def [symmetric] using cloud_max_files [of d L] False by (simp add: d_def)
  show ?thesis
    unfolding Validate_cloud_def cf cs L_def [symmetric] d_def [symmetric] Let_def min_def
    using assms False by (simp add: d_def not_le)
qed

lemma cloud_space_frame [simp]:
  "cloud_space (opts\<lparr>max_write_concurrency := n\<rparr>) = cloud_space opts"
  "cloud_space (opts\<lparr>data_append_mode := x\<rparr>) = cloud_space opts"
  "cloud_space (opts\<lparr>fd_limit := n\<rparr>) = cloud_space opts"
  "cloud_files (opts\<lparr>max_write_concurrency := n\<rparr>) = cloud_files opts"
  "cloud_files (opts\<lparr>data_append_mode := x\<rparr>) = cloud_files opts"
  "cloud_files (opts\<lparr>fd_limit := n\<rparr>) = cloud_files opts"
  by (simp_all add: cloud_space_def cloud_files_def Let_def)

lemma cloud_space_update:
  "cloud_space (opts\<lparr>max_write_concurrency := n, local_space_limit := m\<rparr>) = cloud_space (opts\<lparr>local_space_limit := m\<rparr>)"
  by (simp add: cloud_space_def Let_def)

lemma cloud_space_bounds:
  assumes "0 < data_file_bytes opts"
  shows "data_file_bytes opts \<le> cloud_space opts" "0 < cloud_space opts"
    "cloud_space (opts\<lparr>local_space_limit := cloud_space opts\<rparr>) = cloud_space opts"
    "cloud_files opts * data_file_bytes opts \<le> cloud_space opts"
proof -
  define d where "d = data_file_bytes opts"
  have d: "0 < d" using assms by (simp add: d_def)
  have ge: "d \<le> cloud_space opts"
    using div_mult_minus(2) [of "if local_space_limit opts = 0 then TB else local_space_limit opts" d]
    by (auto simp: cloud_space_def Let_def d_def [symmetric])
  then show "data_file_bytes opts \<le> cloud_space opts" "0 < cloud_space opts"
    using d by (simp_all add: d_def [symmetric])
  have "0 < cloud_space opts div d" using ge d by (simp add: div_greater_zero_iff)
  then show "cloud_space (opts\<lparr>local_space_limit := cloud_space opts\<rparr>) = cloud_space opts"
    using ge d by (subst cloud_space_def) (simp add: Let_def d_def [symmetric])
  have "cloud_files opts * d \<le> cloud_space opts"
    using ge div_mult_minus(1) [of "cloud_space opts" d]
    by (simp add: cloud_files_def d_def [symmetric] max_def)
  then show "cloud_files opts * data_file_bytes opts \<le> cloud_space opts" by (simp add: d_def)
qed

lemma Validate_cloud_ok:
  assumes "cloud_store_path opts \<noteq> []" "Validate_cloud opts = Some o'"
  shows "cloud_ok o'" "Validate_cloud o' = Some o'" "Validate_sizes al o' = Validate_sizes al opts"
    "cloud_store_path o' = cloud_store_path opts" "enable_local_standby o' = enable_local_standby opts"
    "standby_master_addr o' = standby_master_addr opts"
    "standby_master_store_paths o' = standby_master_store_paths opts"
    "Validate_endpoint opts = opts \<Longrightarrow> Validate_endpoint o' = o'"
proof -
  define w where "w = (if max_write_concurrency opts = 0 then max_cloud_concurrency opts else max_write_concurrency opts)"
  have c: "max_cloud_concurrency opts \<noteq> 0" "cloud_request_threads opts \<noteq> 0" "0 < data_file_bytes opts"
    "o' = opts\<lparr>max_write_concurrency := w, local_space_limit := cloud_space opts, data_append_mode := True,
         fd_limit := min (fd_limit opts) (cloud_files opts)\<rparr>"
    using assms(2) unfolding Validate_cloud_eq [OF assms(1)] w_def by (simp_all split: if_splits)
  note b = cloud_space_bounds [OF c(3)]
  have w: "w \<noteq> 0" using c(1) by (simp add: w_def)
  have s1: "cloud_space o' = cloud_space opts" "data_file_bytes o' = data_file_bytes opts"
    using b(3) c(4) by (simp_all add: cloud_space_update)
  then have s: "cloud_space o' = cloud_space opts" "data_file_bytes o' = data_file_bytes opts"
    "cloud_files o' = cloud_files opts" by (simp_all add: cloud_files_def)
  have "min (fd_limit opts) (cloud_files opts) * data_file_bytes opts
      \<le> cloud_files opts * data_file_bytes opts" by (rule mult_le_mono1) simp
  then show "cloud_ok o'" unfolding cloud_ok_def s
    using b c w le_trans [OF _ b(4)] by simp
  show "Validate_cloud o' = Some o'"
  proof -
    have ne: "cloud_store_path o' \<noteq> []" using assms(1) c(4) by simp
    show ?thesis unfolding Validate_cloud_eq [OF ne] s using c w by simp
  qed
  show "Validate_sizes al o' = Validate_sizes al opts" "cloud_store_path o' = cloud_store_path opts"
    "enable_local_standby o' = enable_local_standby opts" "standby_master_addr o' = standby_master_addr opts"
    "standby_master_store_paths o' = standby_master_store_paths opts"
    using c(4) by simp_all
  show "Validate_endpoint opts = opts \<Longrightarrow> Validate_endpoint o' = o'"
    by (erule Validate_endpoint_cong) (simp_all add: c(4))
qed

lemma Validate_memories_frame:
  "Validate_memories (opts\<lparr>prewarm_cloud_cache := x\<rparr>) = Validate_memories opts"
  by (simp add: Validate_memories_def)

text \<open>The stages keep what the earlier ones established.\<close>

lemma Validate_stages:
  assumes e: "Validate_endpoint o1 = o1" and s: "Validate_standby o1 = Some o2" and c: "Validate_cloud o2 = Some o3"
  shows "Validate_endpoint o3 = o3" "Validate_standby o3 = Some o3" "Validate_cloud o3 = Some o3"
    "Validate_sizes al o3 = Validate_sizes al o1"
    "cloud_store_path o3 \<noteq> [] \<longrightarrow> cloud_ok o3 \<and> \<not> enable_local_standby o3"
    "enable_local_standby o3 \<longrightarrow> data_append_mode o3 \<and> standby_ok o3"
    "standby_master_addr o3 \<noteq> [] \<longrightarrow> enable_local_standby o3"
proof -
  have "Validate_endpoint o3 = o3 \<and> Validate_standby o3 = Some o3 \<and> Validate_cloud o3 = Some o3
    \<and> Validate_sizes al o3 = Validate_sizes al o1
    \<and> (cloud_store_path o3 \<noteq> [] \<longrightarrow> cloud_ok o3 \<and> \<not> enable_local_standby o3)
    \<and> (enable_local_standby o3 \<longrightarrow> data_append_mode o3 \<and> standby_ok o3)
    \<and> (standby_master_addr o3 \<noteq> [] \<longrightarrow> enable_local_standby o3)"
  proof (cases "cloud_store_path o1 = []")
    case False
    then have o2: "o2 = o1\<lparr>enable_local_standby := False, standby_master_addr := [], standby_master_store_paths := []\<rparr>"
      using s by (simp add: Validate_standby_eq)
    then have ne: "cloud_store_path o2 \<noteq> []" using False by simp
    have e2: "Validate_endpoint o2 = o2" by (rule Validate_endpoint_cong [OF e]) (simp_all add: o2)
    note k = Validate_cloud_ok [OF ne c]
    have f: "\<not> enable_local_standby o3" "standby_master_addr o3 = []" "standby_master_store_paths o3 = []"
      "cloud_store_path o3 \<noteq> []" using k(4-7) o2 ne by simp_all
    have "Validate_standby o3 = Some (o3\<lparr>enable_local_standby := enable_local_standby o3,
        standby_master_addr := standby_master_addr o3, standby_master_store_paths := standby_master_store_paths o3\<rparr>)"
      using f by (simp add: Validate_standby_eq)
    also have "\<dots> = Some o3" by simp
    finally show ?thesis using k(1-3) k(8) [OF e2] f o2 by simp
  next
    case True
    have o2: "cloud_store_path o2 = []"
      "enable_local_standby o1 \<and> standby_ok o1 \<and> o2 = o1\<lparr>data_append_mode := True\<rparr>
        \<or> \<not> enable_local_standby o1 \<and> standby_master_addr o1 = [] \<and> o2 = o1"
      using s True by (auto simp: Validate_standby_eq split: if_splits)
    then have o3: "o3 = o2\<lparr>prewarm_cloud_cache := False\<rparr>" using c by (simp add: Validate_cloud_def)
    have so: "standby_ok (o1\<lparr>data_append_mode := True, prewarm_cloud_cache := False\<rparr>) = standby_ok o1"
      by (simp add: standby_ok_def)
    show ?thesis using o2(2)
    proof
      assume "enable_local_standby o1 \<and> standby_ok o1 \<and> o2 = o1\<lparr>data_append_mode := True\<rparr>"
      moreover from this have "Validate_endpoint o3 = o3"
        by (intro Validate_endpoint_cong [OF e]) (simp_all add: o3)
      ultimately show ?thesis using o2(1) o3 so by (simp add: Validate_standby_eq Validate_cloud_def)
    next
      assume "\<not> enable_local_standby o1 \<and> standby_master_addr o1 = [] \<and> o2 = o1"
      moreover from this have "Validate_endpoint o3 = o3"
        by (intro Validate_endpoint_cong [OF e]) (simp_all add: o3)
      ultimately show ?thesis using o2(1) o3 by (simp add: Validate_standby_eq Validate_cloud_def)
    qed
  qed
  then show "Validate_endpoint o3 = o3" "Validate_standby o3 = Some o3" "Validate_cloud o3 = Some o3"
    "Validate_sizes al o3 = Validate_sizes al o1"
    "cloud_store_path o3 \<noteq> [] \<longrightarrow> cloud_ok o3 \<and> \<not> enable_local_standby o3"
    "enable_local_standby o3 \<longrightarrow> data_append_mode o3 \<and> standby_ok o3"
    "standby_master_addr o3 \<noteq> [] \<longrightarrow> enable_local_standby o3" by blast+
qed


text \<open>The defaults of \<open>include/kv_options.h\<close>, with a cloud path and an empty store path.\<close>

definition default_store_options :: StoreOptions where
  "default_store_options =
    \<lparr>data_page_size = 4096, data_page_restart_interval = 16, index_page_restart_interval = 16,
     overflow_pointers = 16, pages_per_file_shift = 18, num_threads = 1, max_inflight_write = 32768,
     max_global_request_batch = 1000, segment_size = 262144, segments_per_file_shift = 7,
     coroutine_stack_size = 32768, write_buffer_size = 1048576, write_buffer_ratio = 1 / 20,
     non_page_io_batch_size = 1048576, max_write_batch_pages = 32, manifest_limit = 8388608,
     data_append_mode = False, store_path = [], store_path_weights = [], cloud_store_path = [],
     cloud_provider = ''aws'', cloud_endpoint = [], enable_local_standby = False, standby_master_addr = [],
     standby_master_store_paths = [], standby_master_store_path_weights = [], max_cloud_concurrency = 20,
     max_write_concurrency = 0, cloud_request_threads = 1, local_space_limit = TB, fd_limit = 10000,
     prewarm_cloud_cache = False, global_registered_memories = [], pinned_memory_chunks = [],
     gc_global_mem_size_per_shard = 33554432\<rparr>"

definition ex_cloud_options :: StoreOptions where
  "ex_cloud_options = default_store_options\<lparr>cloud_store_path := ''bucket/db''\<rparr>"

lemma ex_cloud_options_pass: "\<exists>o'. ValidateOptions 4096 ex_cloud_options = Some o' \<and> cloud_store_path o' \<noteq> []"
proof -
  have e: "Validate_endpoint ex_cloud_options = ex_cloud_options"
    by (simp add: Validate_endpoint_fix ex_cloud_options_def default_store_options_def google_provider_def
        char_tolower_def is_upper_def)
  have z: "Validate_sizes 4096 ex_cloud_options"
    by (simp add: Validate_sizes_def ex_cloud_options_def default_store_options_def max_overflow_pointers_def)
  have ne: "cloud_store_path ex_cloud_options \<noteq> []" by (simp add: ex_cloud_options_def)
  define o2 where "o2 = ex_cloud_options\<lparr>enable_local_standby := False, standby_master_addr := [],
    standby_master_store_paths := []\<rparr>"
  have s: "Validate_standby ex_cloud_options = Some o2" using ne by (simp add: Validate_standby_eq o2_def)
  have ne2: "cloud_store_path o2 \<noteq> []" using ne by (simp add: o2_def)
  have d: "data_file_bytes o2 \<noteq> 0"
    by (simp add: o2_def data_file_bytes_def DataFileSize_def ex_cloud_options_def default_store_options_def)
  obtain o3 where c: "Validate_cloud o2 = Some o3"
    using d by (simp add: Validate_cloud_eq [OF ne2]) (simp add: o2_def ex_cloud_options_def default_store_options_def)
  have "global_registered_memories o3 = []" "pinned_memory_chunks o3 = []"
    using c d unfolding Validate_cloud_eq [OF ne2]
    by (auto simp: o2_def ex_cloud_options_def default_store_options_def split: if_splits)
  then have "Validate_memories o3" by (simp add: Validate_memories_def)
  then have "ValidateOptions 4096 ex_cloud_options = Some o3" using e z s c by (simp add: ValidateOptions_def)
  then show ?thesis using Validate_cloud_ok(4) [OF ne2 c] ne2 by auto
qed



end
