(* ===== verification/Mapper_Restore.thy ===== *)
theory Mapper_Restore
  imports Replayer_Props Store_Options
begin

text \<open>
  Rebuilding the page mappers after a replay (\<open>Replayer::GetMapper\<close> and
  \<open>Replayer::GetSegmentMapper\<close> in \<open>src/replayer.cpp\<close>): page ids without a file page go to the free
  list, and the allocator of file pages starts where no live page is overwritten.

  The constructor of the mapper leaves the allocator empty; the model starts with any allocator and
  sets the right one at the end.  The table moves out of the replayer.
\<close>

fun restore_pages :: "nat list \<Rightarrow> PageMapper \<Rightarrow> FilePageId list \<Rightarrow> (PageMapper \<times> FilePageId list) option" where
  "restore_pages [] mapper using_fp_ids = Some (mapper, using_fp_ids)"
| "restore_pages (i # is) mapper using_fp_ids =
    (case tbl_Get (mapping mapper) (of_nat i) of
       None \<Rightarrow> None
     | Some val \<Rightarrow>
         if \<not> IsFilePageId val
         then Option.bind (FreePage mapper (of_nat i)) (\<lambda>mapper. restore_pages is mapper using_fp_ids)
         else restore_pages is mapper (using_fp_ids @ [DecodeId val]))"

definition PageMapper_of :: "MappingTbl \<Rightarrow> PageMapper" where
  "PageMapper_of tbl =
    \<lparr>mapping = tbl, free_page_head = MaxPageId, free_page_cnt = 0,
     file_page_allocator = AppendMode \<lparr>a_shift = 0, a_max_fp_id = 0, a_min_file_id = 0, a_empty_file_cnt = 0\<rparr>\<rparr>"

text \<open>After a change of term the next file page starts a new file.\<close>

definition bump_to_next_file :: "nat \<Rightarrow> FilePageId \<Rightarrow> FilePageId" where
  "bump_to_next_file shift max_id = push_bit shift (drop_bit shift max_id + 1)"

fun count_empty_files :: "nat \<Rightarrow> FileId \<Rightarrow> uint32 \<Rightarrow> FilePageId list \<Rightarrow> uint32" where
  "count_empty_files shift cur_file_id cnt [] = cnt"
| "count_empty_files shift cur_file_id cnt (fp_id # fps) =
    (let file_id = drop_bit shift fp_id in
     count_empty_files shift file_id
       (if file_id > cur_file_id + 1 then cnt + ucast (file_id - cur_file_id - 1) else cnt) fps)"

definition restore_append_allocator :: "nat \<Rightarrow> FilePageId \<Rightarrow> FilePageId list \<Rightarrow> AppendAllocator option" where
  "restore_append_allocator shift max_id using_fp_ids =
    (if using_fp_ids = []
     then Some \<lparr>a_shift = shift, a_max_fp_id = max_id, a_min_file_id = drop_bit shift max_id, a_empty_file_cnt = 0\<rparr>
     else
       let fps = sort using_fp_ids; min_file_id = drop_bit shift (hd fps) in
       if last fps < max_id
       then Some \<lparr>a_shift = shift, a_max_fp_id = max_id, a_min_file_id = min_file_id,
                  a_empty_file_cnt = count_empty_files shift min_file_id 0 fps\<rparr>
       else None)"

text \<open>Without append mode the free file pages are those below the maximum that no page uses and
  that lie in a file of the own branch.\<close>

definition restore_free_ids :: "nat \<Rightarrow> FilePageId \<Rightarrow> FilePageId list \<Rightarrow> BranchManifestMetadata \<Rightarrow> uint32 list" where
  "restore_free_ids shift max_id using_fp_ids md =
    map of_nat (filter (\<lambda>i.
        of_nat i \<notin> set using_fp_ids
        \<and> (md_file_ranges md = []
           \<or> FileIdInBranch (md_file_ranges md) (DataFileKey (drop_bit shift (of_nat i))) (md_branch_name md)))
      [0..<unat max_id])"

definition GetMapper :: "StoreOptions \<Rightarrow> uint64 \<Rightarrow> Replayer \<Rightarrow> PageMapper option" where
  "GetMapper opts expect_term r =
    (case restore_pages [0..<logical_size (mapping_tbl r)] (PageMapper_of (mapping_tbl r)) [] of
       None \<Rightarrow> None
     | Some (mapper, using_fp_ids) \<Rightarrow>
         let shift = pages_per_file_shift opts in
         if data_append_mode opts
         then
           let max_id = (if DeriveStoreMode opts \<noteq> Local \<and> expect_term \<noteq> 0
                            \<and> md_term (branch_metadata r) \<noteq> expect_term
                         then bump_to_next_file shift (max_fp_id r) else max_fp_id r)
           in map_option (\<lambda>a. mapper\<lparr>file_page_allocator := AppendMode a\<rparr>)
                (restore_append_allocator shift max_id using_fp_ids)
         else Some (mapper\<lparr>file_page_allocator := PooledMode
                \<lparr>p_shift = shift, p_max_fp_id = max_fp_id r,
                 p_free_ids = restore_free_ids shift (max_fp_id r) using_fp_ids (branch_metadata r)\<rparr>\<rparr>))"

text \<open>The outer option is a failed assertion, the inner one a partition without segments.\<close>

definition GetSegmentMapper :: "StoreOptions \<Rightarrow> uint64 \<Rightarrow> Replayer \<Rightarrow> PageMapper option option" where
  "GetSegmentMapper opts expect_term r =
    (if logical_size (segment_mapping_tbl r) = 0 \<and> max_segment_fp_id r = 0 then Some None
     else
       case restore_pages [0..<logical_size (segment_mapping_tbl r)] (PageMapper_of (segment_mapping_tbl r)) [] of
         None \<Rightarrow> None
       | Some (mapper, using_fp_ids) \<Rightarrow>
           let shift = segments_per_file_shift opts;
               max_id = (if cloud_store_path opts \<noteq> [] \<and> expect_term \<noteq> 0
                            \<and> md_term (branch_metadata r) \<noteq> expect_term
                         then bump_to_next_file shift (max_segment_fp_id r) else max_segment_fp_id r)
           in map_option (\<lambda>a. Some (mapper\<lparr>file_page_allocator := AppendMode a\<rparr>))
                (restore_append_allocator shift max_id using_fp_ids))"

section \<open>The rebuilt free list\<close>

lemma FreePage_frame:
  assumes inv: "mapper_inv m" and p: "p \<in> live_pages m" and f: "FreePage m p = Some m'"
  shows "q \<noteq> p \<Longrightarrow> tbl_Get (mapping m') q = tbl_Get (mapping m) q"
    "logical_size (mapping m') = logical_size (mapping m)" "under_copying (mapping m') = under_copying (mapping m)"
    "file_page_allocator m' = file_page_allocator m"
proof -
  have i: "tbl_inv (mapping m)" "unat p < logical_size (mapping m)"
    using inv p by (auto simp: mapper_inv_def live_pages_def)
  note s = tbl_Set_in [OF i]
  obtain v t where t: "tbl_Set (mapping m) p v = Some t"
    "m' = m\<lparr>mapping := t, free_page_head := p, free_page_cnt := free_page_cnt m + 1\<rparr>"
    using f by (auto simp: FreePage_def Let_def)
  have "logical_size t = logical_size (mapping m)" "under_copying t = under_copying (mapping m)"
    "\<forall>q. tbl_Get t q = (if q = p then Some v else tbl_Get (mapping m) q)"
    using s [of v] t(1) by auto
  then show "q \<noteq> p \<Longrightarrow> tbl_Get (mapping m') q = tbl_Get (mapping m) q"
    "logical_size (mapping m') = logical_size (mapping m)" "under_copying (mapping m') = under_copying (mapping m)"
    "file_page_allocator m' = file_page_allocator m"
    using t(2) by simp_all
qed

definition used_ids :: "uint64 list \<Rightarrow> nat list \<Rightarrow> FilePageId list" where
  "used_ids vs is = map (\<lambda>i. DecodeId (vs ! i)) (filter (\<lambda>i. IsFilePageId (vs ! i)) is)"

lemma restore_pages_ok:
  assumes "mapper_inv m" "logical_size (mapping m) = length vs" "length vs \<le> 2 ^ 29" "distinct is"
    "\<forall>i\<in>set is. i < length vs \<and> of_nat i \<in> live_pages m \<and> tbl_Get (mapping m) (of_nat i) = Some (vs ! i)"
  shows "\<exists>m'. restore_pages is m used = Some (m', used @ used_ids vs is) \<and> mapper_inv m'
    \<and> logical_size (mapping m') = length vs
    \<and> live_pages m' = live_pages m - of_nat ` {i \<in> set is. \<not> IsFilePageId (vs ! i)}
    \<and> (\<forall>q. q \<in> live_pages m' \<longrightarrow> tbl_Get (mapping m') q = tbl_Get (mapping m) q)"
  using assms(1,2,4,5)
proof (induction "is" arbitrary: m used)
  case Nil
  then show ?case by (simp add: used_ids_def)
next
  case (Cons i "is")
  have i: "i < length vs" "of_nat i \<in> live_pages m" "tbl_Get (mapping m) (of_nat i) = Some (vs ! i)"
    using Cons.prems(4) by auto
  have inj: "(of_nat j :: PageId) = of_nat k \<longleftrightarrow> j = k" if "j < length vs" "k < length vs" for j k
  proof -
    have "j < 2 ^ 32" "k < 2 ^ 32" using that assms(3) by simp_all
    from unat_of_nat_page [OF this(1)] unat_of_nat_page [OF this(2)] show ?thesis by metis
  qed
  show ?case
  proof (cases "IsFilePageId (vs ! i)")
    case True
    have "distinct is" "\<forall>j\<in>set is. j < length vs \<and> of_nat j \<in> live_pages m \<and> tbl_Get (mapping m) (of_nat j) = Some (vs ! j)"
      using Cons.prems(3,4) by auto
    from Cons.IH [OF Cons.prems(1,2) this, of "used @ [DecodeId (vs ! i)]"]
    obtain m' where m': "restore_pages is m (used @ [DecodeId (vs ! i)]) = Some (m', (used @ [DecodeId (vs ! i)]) @ used_ids vs is)"
      "mapper_inv m'" "logical_size (mapping m') = length vs"
      "live_pages m' = live_pages m - of_nat ` {i \<in> set is. \<not> IsFilePageId (vs ! i)}"
      "\<forall>q. q \<in> live_pages m' \<longrightarrow> tbl_Get (mapping m') q = tbl_Get (mapping m) q" by blast
    have "{j \<in> set (i # is). \<not> IsFilePageId (vs ! j)} = {j \<in> set is. \<not> IsFilePageId (vs ! j)}"
      using True by auto
    moreover have "restore_pages (i # is) m used = Some (m', used @ used_ids vs (i # is))"
      using True i(3) m'(1) by (simp add: used_ids_def)
    ultimately show ?thesis using m'(2-5) by (intro exI [of _ m']) simp
  next
    case False
    obtain m1 where m1: "FreePage m (of_nat i) = Some m1" "mapper_inv m1" "live_pages m1 = live_pages m - {of_nat i}"
      using FreePage_live [OF Cons.prems(1) i(2)] by blast
    note fr = FreePage_frame [OF Cons.prems(1) i(2) m1(1)]
    have ne: "(of_nat j :: PageId) \<noteq> of_nat i" if "j \<in> set is" for j
      using that Cons.prems(3,4) inj i(1) by auto
    have "\<forall>j\<in>set is. j < length vs \<and> of_nat j \<in> live_pages m1 \<and> tbl_Get (mapping m1) (of_nat j) = Some (vs ! j)"
      using Cons.prems(4) ne fr(1) m1(3) by simp
    from Cons.IH [OF m1(2) _ _ this, of used] obtain m' where m': "restore_pages is m1 used = Some (m', used @ used_ids vs is)"
      "mapper_inv m'" "logical_size (mapping m') = length vs"
      "live_pages m' = live_pages m1 - of_nat ` {i \<in> set is. \<not> IsFilePageId (vs ! i)}"
      "\<forall>q. q \<in> live_pages m' \<longrightarrow> tbl_Get (mapping m') q = tbl_Get (mapping m1) q"
      using Cons.prems(2,3) fr(2) by auto
    have "live_pages m' = live_pages m - of_nat ` {j \<in> set (i # is). \<not> IsFilePageId (vs ! j)}"
      using m'(4) m1(3) False by auto
    moreover have "\<forall>q. q \<in> live_pages m' \<longrightarrow> tbl_Get (mapping m') q = tbl_Get (mapping m) q"
      using m'(4,5) m1(3) fr(1) by auto
    moreover have "restore_pages (i # is) m used = Some (m', used @ used_ids vs (i # is))"
      using i(3) False m1(1) m'(1) by (simp add: used_ids_def)
    ultimately show ?thesis using m'(2,3) by (intro exI [of _ m']) simp
  qed
qed

lemma PageMapper_of_inv:
  assumes "table_is t vs" "length vs \<le> 2 ^ 29"
  shows "mapper_inv (PageMapper_of t)" "live_pages (PageMapper_of t) = {p. unat p < length vs}"
proof -
  have t: "tbl_inv t" "logical_size t = length vs" using assms(1) by (auto simp: table_is_def)
  note mi = mapper_invI [of "PageMapper_of t" "[]"]
  show "mapper_inv (PageMapper_of t)" by (rule mi(1)) (use t assms(2) in \<open>simp_all add: PageMapper_of_def\<close>)
  have "free_list (PageMapper_of t) = []" by (rule mi(2)) (use t assms(2) in \<open>simp_all add: PageMapper_of_def\<close>)
  then show "live_pages (PageMapper_of t) = {p. unat p < length vs}"
    using t by (simp add: live_pages_def) (simp add: PageMapper_of_def)
qed

definition file_pages :: "uint64 list \<Rightarrow> FilePageId set" where
  "file_pages vs = DecodeId ` {v \<in> set vs. IsFilePageId v}"

lemma set_used_ids: "set (used_ids vs [0..<length vs]) = file_pages vs"
  by (auto simp: used_ids_def file_pages_def in_set_conv_nth image_iff)

lemma restore_table:
  assumes t: "table_is t vs" and len: "length vs \<le> 2 ^ 29"
  shows "\<exists>m. restore_pages [0..<logical_size t] (PageMapper_of t) [] = Some (m, used_ids vs [0..<length vs])
    \<and> mapper_inv m \<and> live_pages m = {p. unat p < length vs \<and> IsFilePageId (vs ! unat p)}
    \<and> (\<forall>p\<in>live_pages m. tbl_Get (mapping m) p = Some (vs ! unat p))"
proof -
  have sz: "logical_size t = length vs" using t by (auto simp: table_is_def)
  have small: "i < 2 ^ 32" if "i < length vs" for i
    using that len by simp
  have u: "unat (of_nat i :: PageId) = i" if "i < length vs" for i
    using small [OF that] by (rule unat_of_nat_page)
  note inv = PageMapper_of_inv [OF t len]
  have mp: "mapping (PageMapper_of t) = t" by (simp add: PageMapper_of_def)
  have "\<forall>i\<in>set [0..<length vs]. i < length vs \<and> of_nat i \<in> live_pages (PageMapper_of t)
      \<and> tbl_Get (mapping (PageMapper_of t)) (of_nat i) = Some (vs ! i)"
    using u tbl_Get_list [OF t] by (simp add: inv(2) mp)
  from restore_pages_ok [OF inv(1) _ len _ this, of "[]"] obtain m where
    m: "restore_pages [0..<length vs] (PageMapper_of t) [] = Some (m, used_ids vs [0..<length vs])" "mapper_inv m"
      "live_pages m = {p. unat p < length vs} - of_nat ` {i \<in> set [0..<length vs]. \<not> IsFilePageId (vs ! i)}"
      "\<forall>q. q \<in> live_pages m \<longrightarrow> tbl_Get (mapping m) q = tbl_Get t q"
    by (auto simp: inv(2) mp sz)
  have "live_pages m = {p. unat p < length vs \<and> IsFilePageId (vs ! unat p)}"
    using m(3) u by (force simp: image_iff)
  moreover have "\<forall>p\<in>live_pages m. tbl_Get (mapping m) p = Some (vs ! unat p)"
    using m(3,4) tbl_Get_list [OF t] by auto
  ultimately show ?thesis using m(1,2) sz by auto
qed

section \<open>The rebuilt allocators\<close>

lemma restore_append_allocator_ok:
  assumes "\<forall>f\<in>set used. f < max_id"
  shows "\<exists>a. restore_append_allocator shift max_id used = Some a \<and> a_max_fp_id a = max_id \<and> a_shift a = shift"
proof (cases "used = []")
  case False
  then have "last (sort used) < max_id" using assms by (metis last_in_set set_empty2 set_sort)
  then show ?thesis using False by (simp add: restore_append_allocator_def Let_def)
qed (simp add: restore_append_allocator_def)

lemma unat_drop_bit_div: "unat (drop_bit n w) = unat w div 2 ^ n" for w :: uint64
  unfolding unat_drop_bit_eq by (simp add: drop_bit_eq_div)

lemma bump_above:
  assumes "unat m + 2 ^ shift < 2 ^ 64" "shift < 64"
  shows "m < bump_to_next_file shift m" "drop_bit shift (bump_to_next_file shift m) = drop_bit shift m + 1"
proof -
  let ?q = "unat m div 2 ^ shift"
  have le: "?q * 2 ^ shift \<le> unat m" by simp
  have lt: "unat m < (?q + 1) * 2 ^ shift"
  proof -
    have "unat m mod 2 ^ shift < 2 ^ shift" by simp
    moreover have "(?q + 1) * 2 ^ shift = ?q * 2 ^ shift + 2 ^ shift" by simp
    ultimately show ?thesis using div_mult_mod_eq [of "unat m" "2 ^ shift"] by linarith
  qed
  have bound: "(?q + 1) * 2 ^ shift < 2 ^ 64" 
  proof -
    have "(?q + 1) * 2 ^ shift = ?q * 2 ^ shift + 2 ^ shift" by simp
    then show ?thesis using assms(1) le by linarith
  qed
  have q1: "?q + 1 < 2 ^ 64"
    using bound mult_le_mono2 [of 1 "2 ^ shift" "?q + 1"] by simp
  have d: "unat (drop_bit shift m) = ?q" by (simp add: unat_drop_bit_div)
  have d1: "unat (drop_bit shift m + 1) = ?q + 1" using q1 by (simp add: unat_word_ariths d)
  have b: "unat (bump_to_next_file shift m) = (?q + 1) * 2 ^ shift"
  proof -
    have "unat (push_bit shift (drop_bit shift m + 1)) = take_bit 64 (push_bit shift (?q + 1))"
      using d1 by (simp add: unsigned_push_bit_eq)
    also have "\<dots> = (?q + 1) * 2 ^ shift" using bound by (simp add: push_bit_eq_mult take_bit_nat_eq_self)
    finally show ?thesis by (simp add: bump_to_next_file_def)
  qed
  show "m < bump_to_next_file shift m" using lt b by (simp add: word_less_nat_alt)
  show "drop_bit shift (bump_to_next_file shift m) = drop_bit shift m + 1"
    by (rule unsigned_word_eqI [where ?'a = nat]) (simp add: unat_drop_bit_div b d1)
qed

text \<open>Replay keeps every file page in use below the next id to allocate.\<close>

definition ids_below :: "uint64 list \<Rightarrow> FilePageId \<Rightarrow> bool" where
  "ids_below vs m \<longleftrightarrow> (\<forall>f\<in>file_pages vs. f < m)"

lemma DecodeId_room: "DecodeId v < DecodeId v + 1"
proof -
  have "unat (DecodeId v) < 2 ^ 61"
    using unsigned_less [of v, where ?'a = nat] by (simp add: DecodeId_def unat_drop_bit_div del: drop_bit_numeral_bit0)
  then show ?thesis by (simp add: word_less_nat_alt unat_word_ariths)
qed

lemma ids_below_delta:
  assumes "ids_below vs m"
  shows "ids_below (fst (delta_spec (vs, m) (p, v))) (snd (delta_spec (vs, m) (p, v)))"
proof -
  have inv: "\<not> IsFilePageId InvalidValue" by (simp add: IsFilePageId_def GetValType_def)
  let ?ws = "vs @ replicate (unat p + 1 - length vs) InvalidValue"
  have "set (?ws[unat p := v]) \<subseteq> insert v (set ?ws)" by (rule set_update_subset_insert)
  then have "file_pages (?ws[unat p := v]) \<subseteq> (if IsFilePageId v then {DecodeId v} else {}) \<union> file_pages vs"
    using inv by (auto simp: file_pages_def split: if_splits)
  then show ?thesis using assms DecodeId_room [of v]
    by (fastforce simp: delta_spec_def ids_below_def less_max_iff_disj)
qed

lemma ids_below_deltas:
  "ids_below (fst s) (snd s) \<Longrightarrow> ids_below (fst (foldl delta_spec s ds)) (snd (foldl delta_spec s ds))"
proof (induction ds arbitrary: s)
  case (Cons d ds)
  then show ?case using ids_below_delta [of "fst s" "snd s" "fst d" "snd d"] by simp
qed simp

definition manifest_ids_ok :: "mstate \<Rightarrow> bool" where
  "manifest_ids_ok s \<longleftrightarrow> ids_below (ms_values s) (ms_max_fp s) \<and> ids_below (ms_seg_values s) (ms_max_seg s)"

lemma manifest_ids_ok_logs: "manifest_ids_ok s \<Longrightarrow> manifest_ids_ok (foldl apply_log s ls)"
proof (induction ls arbitrary: s)
  case (Cons l ls)
  have "manifest_ids_ok (apply_log s l)"
    using Cons.prems ids_below_deltas [of "(ms_values s, ms_max_fp s)" "lr_deltas l"]
      ids_below_deltas [of "(ms_seg_values s, ms_max_seg s)" "lr_seg_deltas l"]
    by (simp add: manifest_ids_ok_def apply_log_def case_prod_beta)
  then show ?case using Cons.IH by simp
qed simp

lemma of_nat_64_inverse: "i < unat m \<Longrightarrow> unat (of_nat i :: uint64) = i" for m :: uint64
  using unsigned_less [of m, where ?'a = nat] by (simp add: unat_of_nat take_bit_nat_eq_self)

lemma restore_free_ids_ok:
  assumes "unat m \<le> 2 ^ 32" "\<forall>f\<in>set used. f < m"
    and a_def: "a = \<lparr>p_shift = shift, p_max_fp_id = m, p_free_ids = restore_free_ids shift m used md\<rparr>"
  shows "pooled_inv a" "set used \<subseteq> pooled_live a"
    "\<forall>i\<in>set (p_free_ids a). md_file_ranges md = []
       \<or> FileIdInBranch (md_file_ranges md) (DataFileKey (drop_bit shift (ucast i))) (md_branch_name md)"
proof -
  have u: "unat (of_nat i :: uint32) = i" "ucast (of_nat i :: uint32) = (of_nat i :: uint64)" if "i < unat m" for i
  proof -
    have "i < 2 ^ 32" using that assms(1) by linarith
    then show u1: "unat (of_nat i :: uint32) = i" by (rule unat_of_nat_page)
    show "ucast (of_nat i :: uint32) = (of_nat i :: uint64)"
      by (rule unsigned_word_eqI [where ?'a = nat]) (simp only: unat_ucast_page_id u1 of_nat_64_inverse [OF that])
  qed
  let ?is = "filter (\<lambda>i. of_nat i \<notin> set used \<and> (md_file_ranges md = []
    \<or> FileIdInBranch (md_file_ranges md) (DataFileKey (drop_bit shift (of_nat i))) (md_branch_name md))) [0..<unat m]"
  have f: "p_free_ids a = map of_nat ?is" by (simp add: a_def restore_free_ids_def)
  have dist: "distinct (p_free_ids a)"
  proof -
    have "inj_on (of_nat :: nat \<Rightarrow> uint32) {..<unat m}" using u(1) by (intro inj_onI) (metis lessThan_iff)
    then show ?thesis unfolding f distinct_map by (auto intro: inj_on_subset)
  qed
  show "pooled_inv a" unfolding pooled_inv_def
    using dist assms(1) u(1) by (auto simp: f) (simp_all add: a_def)
  have "g \<notin> ucast ` set (p_free_ids a)" if "g \<in> set used" for g
    using that u(2) by (auto simp: f)
  then show "set used \<subseteq> pooled_live a" using assms(2) by (auto simp: pooled_live_def) (simp add: a_def)
  show "\<forall>i\<in>set (p_free_ids a). md_file_ranges md = []
       \<or> FileIdInBranch (md_file_ranges md) (DataFileKey (drop_bit shift (ucast i))) (md_branch_name md)"
    using u(2) by (auto simp: f)
qed

section \<open>Properties\<close>

text \<open>C12: After a restart in append mode, the page mapper that is rebuilt from the manifest has as live
  pages exactly the pages with a file page, all other page ids are free, every live page keeps its
  file page, and the allocator continues above every file page in use. When the term has changed
  outside local mode, it continues in a file that no live page lies in.\<close>

theorem restored_append_mapper:
  assumes r: "represents r (foldl apply_log s ls)" and ids: "manifest_ids_ok s"
    and v: "vs = ms_values (foldl apply_log s ls)" "length vs \<le> 2 ^ 29"
    and room: "unat (max_fp_id r) + 2 ^ pages_per_file_shift opts < 2 ^ 64" "pages_per_file_shift opts < 64"
    and mode: "data_append_mode opts"
  shows "\<exists>m a. GetMapper opts expect_term r = Some m \<and> file_page_allocator m = AppendMode a \<and> mapper_inv m
    \<and> live_pages m = {p. unat p < length vs \<and> IsFilePageId (vs ! unat p)}
    \<and> (\<forall>p\<in>live_pages m. tbl_Get (mapping m) p = Some (vs ! unat p))
    \<and> (\<forall>f\<in>file_pages vs. f < a_max_fp_id a)
    \<and> (DeriveStoreMode opts \<noteq> Local \<and> expect_term \<noteq> 0 \<and> md_term (branch_metadata r) \<noteq> expect_term \<longrightarrow>
        (\<forall>f\<in>file_pages vs. drop_bit (a_shift a) f < CurrentFileId (AppendMode a)))"
proof -
  let ?shift = "pages_per_file_shift opts"
  let ?bump = "DeriveStoreMode opts \<noteq> Local \<and> expect_term \<noteq> 0 \<and> md_term (branch_metadata r) \<noteq> expect_term"
  define mx where "mx = (if ?bump then bump_to_next_file ?shift (max_fp_id r) else max_fp_id r)"
  have t: "table_is (mapping_tbl r) vs" "max_fp_id r = ms_max_fp (foldl apply_log s ls)"
    using r v(1) by (auto simp: represents_def)
  have below: "\<forall>f\<in>file_pages vs. f < max_fp_id r"
    using manifest_ids_ok_logs [OF ids, of ls] v(1) t(2) by (simp add: manifest_ids_ok_def ids_below_def)
  note b = bump_above [OF room]
  have mx: "\<forall>f\<in>file_pages vs. f < mx" using below b(1) by (auto simp: mx_def intro: less_trans)
  obtain m where m: "restore_pages [0..<logical_size (mapping_tbl r)] (PageMapper_of (mapping_tbl r)) []
      = Some (m, used_ids vs [0..<length vs])" "mapper_inv m"
    "live_pages m = {p. unat p < length vs \<and> IsFilePageId (vs ! unat p)}"
    "\<forall>p\<in>live_pages m. tbl_Get (mapping m) p = Some (vs ! unat p)"
    using restore_table [OF t(1) v(2)] by blast
  obtain a where a: "restore_append_allocator ?shift mx (used_ids vs [0..<length vs]) = Some a"
    "a_max_fp_id a = mx" "a_shift a = ?shift"
    using restore_append_allocator_ok [of "used_ids vs [0..<length vs]" mx] mx by (auto simp: set_used_ids)
  have g: "GetMapper opts expect_term r = Some (m\<lparr>file_page_allocator := AppendMode a\<rparr>)"
    using m(1) a(1) mode by (simp add: GetMapper_def Let_def mx_def)
  have new_file: "drop_bit ?shift f < CurrentFileId (AppendMode a)" if "?bump" "f \<in> file_pages vs" for f
  proof -
    have "unat f \<le> unat (max_fp_id r)" using below that(2) by (auto simp: word_less_nat_alt)
    then have "unat (drop_bit ?shift f) \<le> unat (drop_bit ?shift (max_fp_id r))"
      by (simp add: unat_drop_bit_div div_le_mono)
    moreover have "drop_bit ?shift (max_fp_id r) < drop_bit ?shift (max_fp_id r) + 1"
    proof -
      have "unat (drop_bit ?shift (max_fp_id r)) \<le> unat (max_fp_id r)"
        by (simp add: unat_drop_bit_div)
      moreover have "unat (max_fp_id r) + 1 < 2 ^ 64"
        using room(1) one_le_power [of "2 :: nat" ?shift] by linarith
      ultimately show ?thesis by (simp add: word_less_nat_alt unat_word_ariths)
    qed
    ultimately show ?thesis using that(1) a b(2)
      by (simp add: CurrentFileId_def mx_def word_less_nat_alt)
  qed
  have li: "mapper_inv (m\<lparr>file_page_allocator := x\<rparr>) = mapper_inv m" "live_pages (m\<lparr>file_page_allocator := x\<rparr>) = live_pages m"
    for x by (simp_all add: mapper_inv_def live_pages_def free_list_def)
  show ?thesis using g m(2-4) mx a(2,3) new_file
    by (intro exI [of _ "m\<lparr>file_page_allocator := AppendMode a\<rparr>"] exI [of _ a]) (simp add: li)
qed

lemma ex_restart:
  obtains r where "represents r (foldl apply_log ex_state [ex_log])" "max_fp_id r = 10"
    "ms_values (foldl apply_log ex_state [ex_log])
      = [InvalidValue, EncodeFilePageId 7, InvalidValue, InvalidValue, InvalidValue, EncodeFilePageId 9]"
proof -
  have m: "ms_max_fp (foldl apply_log ex_state [ex_log]) = 10"
    "ms_values (foldl apply_log ex_state [ex_log])
      = [InvalidValue, EncodeFilePageId 7, InvalidValue, InvalidValue, InvalidValue, EncodeFilePageId 9]"
    by code_simp+
  obtain r where r: "represents r (foldl apply_log ex_state [ex_log])"
    using Replay_complete [OF ex_manifest(2)] by blast
  then show thesis using that [OF r _ m(2)] m(1) by (simp add: represents_def)
qed

lemma ex_state_ids: "manifest_ids_ok ex_state"
proof -
  have "list_all (\<lambda>v. IsFilePageId v \<longrightarrow> DecodeId v < ms_max_fp ex_state) (ms_values ex_state)" by code_simp
  then show ?thesis by (auto simp: manifest_ids_ok_def ids_below_def file_pages_def list_all_iff)
    (simp add: ex_state_def)
qed

theorem restored_append_mapper_witness:
  "\<exists>r m a. represents r (foldl apply_log ex_state [ex_log])
    \<and> GetMapper (ex_cloud_options\<lparr>data_append_mode := True\<rparr>) 4 r = Some m
    \<and> file_page_allocator m = AppendMode a \<and> mapper_inv m"
proof -
  obtain r where r: "represents r (foldl apply_log ex_state [ex_log])" "max_fp_id r = 10"
    "ms_values (foldl apply_log ex_state [ex_log])
      = [InvalidValue, EncodeFilePageId 7, InvalidValue, InvalidValue, InvalidValue, EncodeFilePageId 9]"
    by (rule ex_restart)
  have o: "pages_per_file_shift (ex_cloud_options\<lparr>data_append_mode := True\<rparr>) = 18"
    by (simp add: ex_cloud_options_def default_store_options_def)
  have len: "length (ms_values (foldl apply_log ex_state [ex_log])) \<le> 2 ^ 29" by (simp only: r(3)) simp
  from restored_append_mapper [OF r(1) ex_state_ids refl len, of "ex_cloud_options\<lparr>data_append_mode := True\<rparr>" 4]
  show ?thesis unfolding o r(2) using r(1) by auto
qed

text \<open>C13: After a restart without append mode, the live pages are rebuilt in the same way, and the
  file pages the allocator may hand out again are below the maximum, pairwise different, used by no
  live page, and in files of the active branch when the manifest records file ranges.\<close>

theorem restored_pooled_mapper:
  assumes r: "represents r (foldl apply_log s ls)" and ids: "manifest_ids_ok s"
    and v: "vs = ms_values (foldl apply_log s ls)" "length vs \<le> 2 ^ 29"
    and room: "unat (max_fp_id r) \<le> 2 ^ 32" and mode: "\<not> data_append_mode opts"
  shows "\<exists>m a. GetMapper opts expect_term r = Some m \<and> file_page_allocator m = PooledMode a \<and> mapper_inv m
    \<and> live_pages m = {p. unat p < length vs \<and> IsFilePageId (vs ! unat p)}
    \<and> (\<forall>p\<in>live_pages m. tbl_Get (mapping m) p = Some (vs ! unat p))
    \<and> pooled_inv a \<and> file_pages vs \<subseteq> pooled_live a
    \<and> (\<forall>i\<in>set (p_free_ids a). md_file_ranges (branch_metadata r) = []
        \<or> FileIdInBranch (md_file_ranges (branch_metadata r)) (DataFileKey (drop_bit (p_shift a) (ucast i)))
            (md_branch_name (branch_metadata r)))"
proof -
  let ?shift = "pages_per_file_shift opts"
  have t: "table_is (mapping_tbl r) vs" "max_fp_id r = ms_max_fp (foldl apply_log s ls)"
    using r v(1) by (auto simp: represents_def)
  have below: "\<forall>f\<in>set (used_ids vs [0..<length vs]). f < max_fp_id r"
    using manifest_ids_ok_logs [OF ids, of ls] v(1) t(2)
    by (simp add: manifest_ids_ok_def ids_below_def set_used_ids)
  obtain m where m: "restore_pages [0..<logical_size (mapping_tbl r)] (PageMapper_of (mapping_tbl r)) []
      = Some (m, used_ids vs [0..<length vs])" "mapper_inv m"
    "live_pages m = {p. unat p < length vs \<and> IsFilePageId (vs ! unat p)}"
    "\<forall>p\<in>live_pages m. tbl_Get (mapping m) p = Some (vs ! unat p)"
    using restore_table [OF t(1) v(2)] by blast
  define a where "a = \<lparr>p_shift = ?shift, p_max_fp_id = max_fp_id r,
    p_free_ids = restore_free_ids ?shift (max_fp_id r) (used_ids vs [0..<length vs]) (branch_metadata r)\<rparr>"
  note f = restore_free_ids_ok [OF room below a_def]
  have g: "GetMapper opts expect_term r = Some (m\<lparr>file_page_allocator := PooledMode a\<rparr>)"
    using m(1) mode by (simp add: GetMapper_def Let_def a_def)
  have li: "mapper_inv (m\<lparr>file_page_allocator := x\<rparr>) = mapper_inv m" "live_pages (m\<lparr>file_page_allocator := x\<rparr>) = live_pages m"
    for x by (simp_all add: mapper_inv_def live_pages_def free_list_def)
  have s: "p_shift a = ?shift" by (simp add: a_def)
  show ?thesis using g m(2-4) f
    by (intro exI [of _ "m\<lparr>file_page_allocator := PooledMode a\<rparr>"] exI [of _ a]) (simp add: li set_used_ids s)
qed

theorem restored_pooled_mapper_witness:
  "\<exists>r m a. represents r (foldl apply_log ex_state [ex_log]) \<and> GetMapper default_store_options 0 r = Some m
    \<and> file_page_allocator m = PooledMode a \<and> pooled_inv a \<and> 9 \<in> pooled_live a"
proof -
  obtain r where r: "represents r (foldl apply_log ex_state [ex_log])" "max_fp_id r = 10"
    "ms_values (foldl apply_log ex_state [ex_log])
      = [InvalidValue, EncodeFilePageId 7, InvalidValue, InvalidValue, InvalidValue, EncodeFilePageId 9]"
    by (rule ex_restart)
  have "9 \<in> file_pages [InvalidValue, EncodeFilePageId 7, InvalidValue, InvalidValue, InvalidValue, EncodeFilePageId 9]"
  proof -
    have "IsFilePageId (EncodeFilePageId 9)" "DecodeId (EncodeFilePageId 9) = 9" by code_simp+
    then show ?thesis unfolding file_pages_def by force
  qed
  then have nine: "9 \<in> file_pages (ms_values (foldl apply_log ex_state [ex_log]))" by (simp only: r(3))
  have mode: "\<not> data_append_mode default_store_options" by (simp add: default_store_options_def)
  have len: "length (ms_values (foldl apply_log ex_state [ex_log])) \<le> 2 ^ 29" by (simp only: r(3)) simp
  have room: "unat (max_fp_id r) \<le> 2 ^ 32" by (simp add: r(2))
  from restored_pooled_mapper [OF r(1) ex_state_ids refl len room mode, of 0] nine show ?thesis
    by (elim exE conjE) (intro exI conjI, rule r(1), assumption+, blast)
qed

end
