(* ===== verification/Page_View.thy ===== *)
theory Page_View
  imports Mapper_Restore
begin

text \<open>
  What a mapping says: the file page of each page.  Swizzled entries stand for the file page of the
  cached page, entries of free pages for nothing.  The views relate the tables of the mappers, the
  tables that a replay rebuilds, and the changes in a log record.
\<close>

declare InvalidValue_def [simp del]

definition value_page :: "uint64 \<Rightarrow> FilePageId option" where
  "value_page v = (if IsFilePageId v then Some (DecodeId v) else None)"

definition table_view :: "page_heap \<Rightarrow> MappingTbl \<Rightarrow> PageId \<Rightarrow> FilePageId option" where
  "table_view heap t p = Option.bind (tbl_Get t p) (\<lambda>v. value_page (serialized_value heap v))"

definition list_view :: "uint64 list \<Rightarrow> PageId \<Rightarrow> FilePageId option" where
  "list_view vs p = (if unat p < length vs then value_page (vs ! unat p) else None)"

lemma value_page_simps [simp]:
  "value_page InvalidValue = None" "unat f < 2 ^ 61 \<Longrightarrow> value_page (EncodeFilePageId f) = Some f"
  "GetValType v = VPageId \<Longrightarrow> value_page v = None"
  by (simp_all add: value_page_def IsFilePageId_def EncodeFilePageId_tag(1) DecodeId_EncodeFilePageId)
    (simp add: GetValType_def InvalidValue_def)

lemma serialized_value_simps [simp]:
  "serialized_value heap InvalidValue = InvalidValue"
  "serialized_value heap (EncodeFilePageId f) = EncodeFilePageId f"
  "GetValType v = VPageId \<Longrightarrow> serialized_value heap v = v"
  by (simp_all add: serialized_value_def IsSwizzlingPointer_def EncodeFilePageId_tag(1))
    (simp add: GetValType_def InvalidValue_def)

lemma table_view_list: "table_is t vs \<Longrightarrow> table_view heap t = list_view (map (serialized_value heap) vs)"
  by (rule ext) (simp add: table_view_def list_view_def tbl_Get_list)

lemma list_view_table: "table_is t vs \<Longrightarrow> list_view (tbl_list t) = list_view vs"
  by (simp add: table_is_def)

lemma list_view_Nil [simp]: "list_view [] = Map.empty"
  by (rule ext) (simp add: list_view_def)

section \<open>Changes\<close>

definition view_delta :: "(PageId \<Rightarrow> FilePageId option) \<Rightarrow> PageId \<times> uint64 \<Rightarrow> PageId \<Rightarrow> FilePageId option" where
  "view_delta f d = f(fst d := value_page (snd d))"

lemma list_view_delta: "list_view (fst (delta_spec s d)) = view_delta (list_view (fst s)) d"
proof -
  obtain vs m p v where s: "s = (vs, m)" "d = (p, v)" by (metis surj_pair)
  let ?ws = "vs @ replicate (unat p + 1 - length vs) InvalidValue"
  show ?thesis
  proof (rule ext)
    fix q
    show "list_view (fst (delta_spec s d)) q = view_delta (list_view (fst s)) d q"
    proof (cases "q = p")
      case True
      then show ?thesis by (simp add: s view_delta_def list_view_def delta_spec_def)
    next
      case False
      then have n: "unat p \<noteq> unat q" by (metis unsigned_word_eqI)
      have "?ws[unat p := v] ! unat q = ?ws ! unat q" by (rule nth_list_update_neq [OF n])
      then show ?thesis using False
        by (simp add: s view_delta_def list_view_def delta_spec_def nth_append)
    qed
  qed
qed

lemma list_view_deltas: "list_view (fst (foldl delta_spec s ds)) = foldl view_delta (list_view (fst s)) ds"
  by (induction ds arbitrary: s) (simp_all add: list_view_delta)

section \<open>Operations of the mapper\<close>

lemma GetPage_view:
  assumes inv: "mapper_inv m" and g: "GetPage m = Some (p, m')" and room: "0 < page_room m"
  shows "table_view heap (mapping m') = table_view heap (mapping m)"
    "under_copying (mapping m') = under_copying (mapping m)"
    "file_page_allocator m' = file_page_allocator m" "p \<noteq> MaxPageId"
proof -
  let ?t = "mapping m" and ?fs = "free_list m"
  have i: "tbl_inv ?t" "logical_size ?t \<le> 2 ^ 29"
    "free_chain (tbl_Get ?t) (free_page_head m) ?fs" "length ?fs = free_page_cnt m"
    "\<And>f. f \<in> set ?fs \<Longrightarrow> unat f < logical_size ?t"
    using inv by (simp_all add: mapper_inv_def)
  have "table_view heap (mapping m') = table_view heap ?t \<and> under_copying (mapping m') = under_copying ?t
    \<and> file_page_allocator m' = file_page_allocator m \<and> p \<noteq> MaxPageId"
  proof (cases ?fs)
    case Nil
    then have h: "free_page_head m = MaxPageId" "free_page_cnt m = 0" using i(3,4) by simp_all
    then have size: "logical_size ?t < 2 ^ 32 - 1" "logical_size ?t < 2 ^ 29"
      using room i(2) by (simp_all add: page_room_def)
    obtain t' where t': "tbl_PushBack ?t InvalidValue = Some (of_nat (logical_size ?t), t')"
      "under_copying t' = under_copying ?t"
      "\<And>q. tbl_Get t' q = (if unat q = logical_size ?t then Some InvalidValue else tbl_Get ?t q)"
      using tbl_PushBack_ok [OF i(1) size(1), of InvalidValue] by blast
    have m': "p = of_nat (logical_size ?t)" "m' = m\<lparr>mapping := t'\<rparr>" using g h t'(1) by (simp_all add: GetPage_def)
    have "tbl_Get ?t q = None" if "unat q = logical_size ?t" for q using that tbl_Get_None [OF i(1), of q] by simp
    then have "table_view heap t' = table_view heap ?t" by (auto simp: fun_eq_iff table_view_def t'(3))
    moreover have "unat p \<noteq> unat MaxPageId" using size m'(1) unat_MaxPageId by (simp add: unat_of_nat_page)
    ultimately show ?thesis using m' t'(2) by auto
  next
    case (Cons f fs)
    obtain v where v: "free_page_head m = f" "f \<noteq> MaxPageId" "tbl_Get ?t f = Some v"
      "v = InvalidValue \<or> GetValType v = VPageId"
      using i(3) Cons by (auto split: option.splits)
    have f: "unat f < logical_size ?t" using i(5) Cons by simp
    obtain t' where t': "tbl_Set ?t f InvalidValue = Some t'" "under_copying t' = under_copying ?t"
      "\<forall>q. tbl_Get t' q = (if q = f then Some InvalidValue else tbl_Get ?t q)"
      using tbl_Set_in [OF i(1) f] by blast
    have "table_view heap t' = table_view heap ?t"
      using v(3,4) t'(3) by (auto simp: fun_eq_iff table_view_def)
    then show ?thesis using g v t' by (auto simp: GetPage_def GetNextFree_def)
  qed
  then show "table_view heap (mapping m') = table_view heap (mapping m)"
    "under_copying (mapping m') = under_copying (mapping m)"
    "file_page_allocator m' = file_page_allocator m" "p \<noteq> MaxPageId" by auto
qed

lemma UpdateMapping_view:
  assumes inv: "mapper_inv m" "p \<in> live_pages m" and u: "UpdateMapping m p fp = Some m'" and fp: "unat fp < 2 ^ 61"
  shows "mapper_inv m'" "live_pages m' = live_pages m"
    "table_view heap (mapping m') = (table_view heap (mapping m))(p \<mapsto> fp)"
    "under_copying (mapping m') = under_copying (mapping m)"
    "file_page_allocator m' = file_page_allocator m"
proof -
  have i: "tbl_inv (mapping m)" "unat p < logical_size (mapping m)"
    using inv by (auto simp: mapper_inv_def live_pages_def)
  obtain m1 where m1: "UpdateMapping m p fp = Some m1" "mapper_inv m1" "live_pages m1 = live_pages m"
    "file_page_allocator m1 = file_page_allocator m"
    "\<forall>q. tbl_Get (mapping m1) q = (if q = p then Some (EncodeFilePageId fp) else tbl_Get (mapping m) q)"
    using UpdateMapping_live [OF inv, of fp] by blast
  have "m1 = m'" using u m1(1) by simp
  then show "mapper_inv m'" "live_pages m' = live_pages m" "file_page_allocator m' = file_page_allocator m"
    "table_view heap (mapping m') = (table_view heap (mapping m))(p \<mapsto> fp)"
    using m1 fp by (auto simp: fun_eq_iff table_view_def)
  show "under_copying (mapping m') = under_copying (mapping m)"
    using u tbl_Set_in [OF i, of "EncodeFilePageId fp"] by (auto simp: UpdateMapping_def)
qed

lemma FreePage_view:
  assumes inv: "mapper_inv m" "p \<in> live_pages m" and f: "FreePage m p = Some m'"
  shows "table_view heap (mapping m') = (table_view heap (mapping m))(p := None)"
proof -
  have i: "tbl_inv (mapping m)" "unat p < logical_size (mapping m)"
    using inv by (auto simp: mapper_inv_def live_pages_def)
  define v where "v = (if free_page_head m = MaxPageId then InvalidValue else EncodePageId (free_page_head m))"
  have "tbl_Get (mapping m') p = Some v"
    using f tbl_Set_in [OF i, of v] by (auto simp: FreePage_def Let_def v_def)
  moreover have "value_page (serialized_value heap v) = None"
    by (simp add: v_def EncodePageId_tag)
  ultimately show ?thesis using FreePage_frame(1) [OF inv f] by (auto simp: fun_eq_iff table_view_def)
qed

end
