(* ===== verification/Write_Task.thy ===== *)
theory Write_Task
  imports Manifest_Io Page_View "HOL-Library.Monad_Syntax"
begin

text \<open>
  The state of a write task and its steps on the meta data of a partition (\<open>src/tasks/write_task.cpp\<close>,
  \<open>EnsureSegmentMapper\<close> in \<open>src/tasks/batch_write_task.cpp\<close>).  A write task works on a copy of the
  mappers.  It logs each change of a mapping, and commits by writing the log or a snapshot to the
  manifest.  The cache of pages in memory is not part of the state: dropping the cached copy of a
  page that is rewritten or freed has no effect on the mappings.
\<close>

section \<open>State\<close>

record DictCompression =
  dict_dirty :: bool
  has_dictionary :: bool
  dictionary :: bytes

definition DictCompression_new :: DictCompression where
  "DictCompression_new = \<lparr>dict_dirty = False, has_dictionary = False, dictionary = []\<rparr>"

definition ClearDirty :: "DictCompression \<Rightarrow> DictCompression" where
  "ClearDirty c = c\<lparr>dict_dirty := False\<rparr>"

text \<open>\<open>old_to_free\<close> is the list \<open>to_free_file_pages_\<close> of the mapping snapshot \<open>old_mapping_\<close>.\<close>

record CowRootMeta =
  root_id :: PageId
  ttl_root_id :: PageId
  mapper :: PageMapper
  segment_mapper :: "PageMapper option"
  manifest_size :: nat
  old_to_free :: "FilePageId list"
  next_expire_ts :: uint64
  compression :: DictCompression
  first_unflushed_fp_id :: FilePageId
  first_unflushed_seg_fp_id :: FilePageId

record WriteTask =
  cow_meta :: CowRootMeta
  wal_builder :: ManifestBuilder
  seg_mapping_deltas :: bytes
  last_seen_segment_file_id :: "FileId option"

text \<open>The part of the I/O manager that a write task uses: the branch mappings and the identity of
  this process.\<close>

record IoMgr =
  branch_mappings :: branch_state
  GetActiveBranch :: string
  ProcessTerm :: uint64

definition AddFreeFilePage :: "FilePageId list \<Rightarrow> FilePageId \<Rightarrow> FilePageId list option" where
  "AddFreeFilePage to_free file_page = (if file_page = MaxFilePageId then None else Some (to_free @ [file_page]))"

text \<open>The file of an allocation is stamped with the current branch and term, unless its generation is
  known; a file that is entered by the allocation is always stamped.\<close>

definition stamp :: "TableIdent \<Rightarrow> TypedFileId \<Rightarrow> IoMgr \<Rightarrow> IoMgr option" where
  "stamp tbl file_key io =
    map_option (\<lambda>st. io\<lparr>branch_mappings := st\<rparr>)
      (IouringMgr_SetBranchFileIdTerm (branch_mappings io) tbl file_key (GetActiveBranch io) (ProcessTerm io))"

definition stamp_if_unknown :: "TableIdent \<Rightarrow> TypedFileId \<Rightarrow> IoMgr \<Rightarrow> IoMgr option" where
  "stamp_if_unknown tbl file_key io =
    (case IouringMgr_GetBranchNameAndTerm (branch_mappings io) tbl file_key of
       None \<Rightarrow> stamp tbl file_key io
     | Some _ \<Rightarrow> Some io)"

definition stamp_data_files :: "TableIdent \<Rightarrow> FileId \<Rightarrow> FileId \<Rightarrow> IoMgr \<Rightarrow> IoMgr option" where
  "stamp_data_files tbl file_id_before file_id_after io = do {
     io \<leftarrow> stamp_if_unknown tbl (DataFileKey file_id_before) io;
     if file_id_before \<noteq> file_id_after then stamp tbl (DataFileKey file_id_after) io else Some io }"

section \<open>Allocating and freeing pages and segments\<close>

definition AllocatePage ::
  "StoreOptions \<Rightarrow> nat \<Rightarrow> page_heap \<Rightarrow> TableIdent \<Rightarrow> PageId \<Rightarrow> WriteTask \<Rightarrow> IoMgr
    \<Rightarrow> ((PageId \<times> FilePageId) \<times> WriteTask \<times> IoMgr) option" where
  "AllocatePage opts al heap tbl page_id wt io = do {
     let cow = cow_meta wt;
     to_free \<leftarrow>
       (if page_id \<noteq> MaxPageId \<and> \<not> data_append_mode opts
        then do {
          old_fp_id \<leftarrow> ToFilePage heap (mapping (mapper cow)) page_id;
          if old_fp_id \<noteq> MaxFilePageId then AddFreeFilePage (old_to_free cow) old_fp_id
          else Some (old_to_free cow) }
        else Some (old_to_free cow));
     (page_id, m) \<leftarrow> (if page_id = MaxPageId then GetPage (mapper cow) else Some (page_id, mapper cow));
     let file_id_before = CurrentFileId (file_page_allocator m);
     let (file_page_id, alloc) = fpa_Allocate (file_page_allocator m);
     let file_id_after = CurrentFileId alloc;
     io \<leftarrow> stamp_data_files tbl file_id_before file_id_after io;
     m \<leftarrow> UpdateMapping (m\<lparr>file_page_allocator := alloc\<rparr>) page_id file_page_id;
     wal \<leftarrow> mb_UpdateMapping al (wal_builder wt) page_id file_page_id;
     Some ((page_id, file_page_id),
           wt\<lparr>cow_meta := cow\<lparr>mapper := m, old_to_free := to_free\<rparr>, wal_builder := wal\<rparr>, io) }"

definition WriteTask_FreePage ::
  "StoreOptions \<Rightarrow> nat \<Rightarrow> page_heap \<Rightarrow> PageId \<Rightarrow> WriteTask \<Rightarrow> WriteTask option" where
  "WriteTask_FreePage opts al heap page_id wt = do {
     let cow = cow_meta wt;
     to_free \<leftarrow>
       (if \<not> data_append_mode opts
        then do {
          file_page \<leftarrow> ToFilePage heap (mapping (mapper cow)) page_id;
          AddFreeFilePage (old_to_free cow) file_page }
        else Some (old_to_free cow));
     m \<leftarrow> FreePage (mapper cow) page_id;
     wal \<leftarrow> mb_DeleteMapping al (wal_builder wt) page_id;
     Some (wt\<lparr>cow_meta := cow\<lparr>mapper := m, old_to_free := to_free\<rparr>, wal_builder := wal\<rparr>) }"

definition RecordSegmentMappingUpdate :: "PageId \<Rightarrow> FilePageId \<Rightarrow> WriteTask \<Rightarrow> WriteTask" where
  "RecordSegmentMappingUpdate page_id file_page_id wt =
    wt\<lparr>seg_mapping_deltas :=
         PutVarint64 (PutVarint32 (seg_mapping_deltas wt) page_id) (EncodeFilePageId file_page_id)\<rparr>"

definition RecordSegmentMappingDelete :: "PageId \<Rightarrow> WriteTask \<Rightarrow> WriteTask" where
  "RecordSegmentMappingDelete page_id wt =
    wt\<lparr>seg_mapping_deltas := PutVarint64 (PutVarint32 (seg_mapping_deltas wt) page_id) InvalidValue\<rparr>"

text \<open>Segment ids come from their own mapper, which appends to segment files.\<close>

definition EnsureSegmentMapper :: "StoreOptions \<Rightarrow> Chunk list option \<Rightarrow> WriteTask \<Rightarrow> WriteTask" where
  "EnsureSegmentMapper opts arena wt =
    (case segment_mapper (cow_meta wt) of
       Some _ \<Rightarrow> wt
     | None \<Rightarrow>
        let alloc = \<lparr>a_shift = segments_per_file_shift opts, a_max_fp_id = 0, a_min_file_id = 0,
                     a_empty_file_cnt = 0\<rparr>;
            m = (PageMapper_new arena (data_append_mode opts) (KvOptions.truncate opts))
                  \<lparr>file_page_allocator := AppendMode alloc\<rparr>
        in wt\<lparr>cow_meta := (cow_meta wt)\<lparr>segment_mapper := Some m\<rparr>\<rparr>)"

text \<open>The generation of the file is looked up only when the file differs from that of the last
  allocation.\<close>

definition stamp_segment_files ::
  "TableIdent \<Rightarrow> FileId \<Rightarrow> FileId \<Rightarrow> FileId option \<Rightarrow> IoMgr \<Rightarrow> (FileId option \<times> IoMgr) option" where
  "stamp_segment_files tbl file_id_before file_id_after last_seen io = do {
     (last_seen, io) \<leftarrow>
       (if last_seen \<noteq> Some file_id_before
        then map_option (Pair (Some file_id_before)) (stamp_if_unknown tbl (SegmentFileKey file_id_before) io)
        else Some (last_seen, io));
     if file_id_before \<noteq> file_id_after
     then map_option (Pair (Some file_id_after)) (stamp tbl (SegmentFileKey file_id_after) io)
     else Some (last_seen, io) }"

definition AllocateSegment ::
  "TableIdent \<Rightarrow> PageId \<Rightarrow> WriteTask \<Rightarrow> IoMgr \<Rightarrow> ((PageId \<times> FilePageId) \<times> WriteTask \<times> IoMgr) option" where
  "AllocateSegment tbl page_id wt io = do {
     seg_mapper \<leftarrow> segment_mapper (cow_meta wt);
     (page_id, m) \<leftarrow> (if page_id = MaxPageId then GetPage seg_mapper else Some (page_id, seg_mapper));
     let file_id_before = CurrentFileId (file_page_allocator m);
     let (file_page_id, alloc) = fpa_Allocate (file_page_allocator m);
     let file_id_after = CurrentFileId alloc;
     (last_seen, io) \<leftarrow> stamp_segment_files tbl file_id_before file_id_after (last_seen_segment_file_id wt) io;
     m \<leftarrow> UpdateMapping (m\<lparr>file_page_allocator := alloc\<rparr>) page_id file_page_id;
     Some ((page_id, file_page_id),
           RecordSegmentMappingUpdate page_id file_page_id
             (wt\<lparr>cow_meta := (cow_meta wt)\<lparr>segment_mapper := Some m\<rparr>,
                 last_seen_segment_file_id := last_seen\<rparr>), io) }"

text \<open>The body of the loop of \<open>BatchWriteTask::DelLargeValue\<close>.\<close>

definition FreeSegment :: "PageId \<Rightarrow> WriteTask \<Rightarrow> WriteTask option" where
  "FreeSegment page_id wt = do {
     seg_mapper \<leftarrow> segment_mapper (cow_meta wt);
     m \<leftarrow> FreePage seg_mapper page_id;
     Some (RecordSegmentMappingDelete page_id
             (wt\<lparr>cow_meta := (cow_meta wt)\<lparr>segment_mapper := Some m\<rparr>\<rparr>)) }"

section \<open>Committing\<close>

definition seg_mapping :: "CowRootMeta \<Rightarrow> MappingTbl option" where
  "seg_mapping cow = map_option mapping (segment_mapper cow)"

definition max_seg_fp_id :: "CowRootMeta \<Rightarrow> FilePageId" where
  "max_seg_fp_id cow = (case segment_mapper cow of None \<Rightarrow> 0 | Some m \<Rightarrow> fpa_MaxFilePageId (file_page_allocator m))"

definition branch_metadata_of :: "TableIdent \<Rightarrow> IoMgr \<Rightarrow> BranchManifestMetadata" where
  "branch_metadata_of tbl io =
    \<lparr>md_branch_name = GetActiveBranch io, md_term = ProcessTerm io,
     md_file_ranges = GetBranchFileMapping (branch_mappings io) tbl\<rparr>"

text \<open>The snapshot of the current state replaces the manifest.\<close>

definition switch_to_snapshot ::
  "StoreOptions \<Rightarrow> nat \<Rightarrow> (bytes \<Rightarrow> uint64) \<Rightarrow> page_heap \<Rightarrow> io_results \<Rightarrow> BranchManifestMetadata \<Rightarrow> IoMgr
    \<Rightarrow> WriteTask \<Rightarrow> directory \<Rightarrow> (KvError \<times> WriteTask \<times> directory) option" where
  "switch_to_snapshot opts al hash heap res md io wt dir = do {
     let cow = cow_meta wt;
     let c = compression cow;
     let max_fp_id = fpa_MaxFilePageId (file_page_allocator (mapper cow));
     (snapshot, wal) \<leftarrow>
       mb_Snapshot al hash heap (wal_builder wt) (root_id cow) (ttl_root_id cow) (mapping (mapper cow)) max_fp_id
         (if has_dictionary c then dictionary c else []) md (seg_mapping cow) (max_seg_fp_id cow);
     let (err, dir) = SwitchManifest (non_page_io_batch_size opts) res (GetActiveBranch io) (ProcessTerm io) dir snapshot;
     let wt = wt\<lparr>wal_builder := wal\<rparr>;
     if err \<noteq> NoError then Some (err, wt, dir)
     else Some (NoError,
       wt\<lparr>cow_meta := cow\<lparr>manifest_size := length snapshot, first_unflushed_fp_id := max_fp_id,
                           first_unflushed_seg_fp_id := max_seg_fp_id cow, compression := ClearDirty c\<rparr>\<rparr>, dir) }"

definition FlushManifest ::
  "StoreOptions \<Rightarrow> nat \<Rightarrow> (bytes \<Rightarrow> uint64) \<Rightarrow> page_heap \<Rightarrow> io_results \<Rightarrow> TableIdent \<Rightarrow> IoMgr
    \<Rightarrow> WriteTask \<Rightarrow> directory \<Rightarrow> (KvError \<times> WriteTask \<times> directory) option" where
  "FlushManifest opts al hash heap res tbl io wt dir =
    (let cow = cow_meta wt;
         need_empty_snapshot = mb_Empty (wal_builder wt) \<and> root_id cow = MaxPageId
           \<and> ttl_root_id cow = MaxPageId \<and> manifest_size cow > 0
     in
     if mb_Empty (wal_builder wt) \<and> \<not> need_empty_snapshot then Some (NoError, wt, dir)
     else
       let md = branch_metadata_of tbl io;
           max_fp_id = fpa_MaxFilePageId (file_page_allocator (mapper cow));
           seg_delta_section_size = 4 + length (seg_mapping_deltas wt);
           log_physical_size = AlignSize al (mb_CurrentSize (wal_builder wt) + 4
             + length (SerializeBranchManifestMetadata md) + seg_delta_section_size)
       in
       if need_empty_snapshot then switch_to_snapshot opts al hash heap res md io wt dir
       else if \<not> dict_dirty (compression cow) \<and> manifest_size cow > 0
         \<and> manifest_size cow + log_physical_size \<le> manifest_limit opts
       then do {
         (blob, wal) \<leftarrow> finish_log al hash (wal_builder wt) md (seg_mapping_deltas wt) (root_id cow) (ttl_root_id cow);
         let name = BranchManifestFileName (GetActiveBranch io) (ProcessTerm io);
         let (err, content) = AppendManifest al res (dir name) blob (manifest_size cow);
         let dir = dir(name := content);
         let wt = wt\<lparr>wal_builder := wal\<rparr>;
         if err \<noteq> NoError then Some (err, wt, dir)
         else Some (NoError,
           wt\<lparr>cow_meta := cow\<lparr>manifest_size := manifest_size cow + AlignSize al (length blob),
                               first_unflushed_fp_id := max_fp_id,
                               first_unflushed_seg_fp_id := max_seg_fp_id cow\<rparr>\<rparr>, dir) }
       else switch_to_snapshot opts al hash heap res md io wt dir)"

text \<open>The effect of a failed task: nothing is freed and the copies are given up.\<close>

definition CowRootMeta_new :: "PageMapper \<Rightarrow> CowRootMeta" where
  "CowRootMeta_new m =
    \<lparr>root_id = MaxPageId, ttl_root_id = MaxPageId, mapper = m, segment_mapper = None, manifest_size = 0,
     old_to_free = [], next_expire_ts = 0, compression = DictCompression_new,
     first_unflushed_fp_id = 0, first_unflushed_seg_fp_id = 0\<rparr>"

definition MapperExceedsAmplification :: "PageMapper \<Rightarrow> nat \<Rightarrow> bool option" where
  "MapperExceedsAmplification m amp_factor =
    (if amp_factor = 0 then Some False
     else case file_page_allocator m of
       PooledMode _ \<Rightarrow> None
     | AppendMode alloc \<Rightarrow>
        let mapping_cnt = MappingCount m; space_size = unat (SpaceSize alloc) in
        if mapping_cnt = 0 then Some (space_size \<noteq> 0)
        else Some (space_size \<ge> unat (PagesPerFile (AppendMode alloc))
                   \<and> space_size > amp_factor * mapping_cnt))"

end
