(* ===== verification/Write_Task_Correct.thy ===== *)
theory Write_Task_Correct
  imports Write_Task
begin

text \<open>
  A write task and the manifest agree: the invariant that relates the mappers, the log under
  construction and the manifest on disk, its preservation by every step of a task, and the state
  that a restart finds after a commit, whether the calls of the commit succeed or not.
\<close>

declare InvalidValue_def [simp del]

section \<open>Allocation of file pages\<close>

fun alloc_ok :: "FilePageAllocator \<Rightarrow> bool" where
  "alloc_ok (AppendMode a) \<longleftrightarrow> True"
| "alloc_ok (PooledMode a) \<longleftrightarrow> list_all (\<lambda>i. unat i < unat (p_max_fp_id a)) (p_free_ids a)"

lemma word_max_Suc: "unat m < 2 ^ 61 - 1 \<Longrightarrow> max m (m + 1) = m + 1" for m :: uint64
  by (simp add: max_def word_le_nat_alt unat_word_ariths)

lemma fpa_Allocate_max:
  assumes "alloc_ok a" "unat (fpa_MaxFilePageId a) < 2 ^ 61 - 1" "fpa_Allocate a = (fp, a')"
  shows "alloc_ok a'" "unat fp < 2 ^ 61" "fpa_MaxFilePageId a' = max (fpa_MaxFilePageId a) (fp + 1)"
proof -
  have "alloc_ok a' \<and> unat fp < 2 ^ 61 \<and> fpa_MaxFilePageId a' = max (fpa_MaxFilePageId a) (fp + 1)"
  proof (cases a)
    case (AppendMode x)
    then show ?thesis using assms word_max_Suc [of "a_max_fp_id x"] by (auto simp: Append_Allocate_def)
  next
    case (PooledMode x)
    show ?thesis
    proof (cases "p_free_ids x" rule: rev_cases)
      case Nil
      then show ?thesis
        using assms PooledMode word_max_Suc [of "p_max_fp_id x"] by (auto simp: Pooled_Allocate_def)
    next
      case (snoc ids i)
      have lt: "unat (ucast i :: uint64) < unat (p_max_fp_id x)"
        using assms(1) PooledMode snoc by (simp add: unat_ucast_page_id)
      then have "ucast i + 1 \<le> p_max_fp_id x" using assms(2) PooledMode
        by (simp add: word_le_nat_alt unat_word_ariths)
      then show ?thesis using assms PooledMode snoc lt
        by (auto simp: Pooled_Allocate_def max_absorb1)
    qed
  qed
  then show "alloc_ok a'" "unat fp < 2 ^ 61" "fpa_MaxFilePageId a' = max (fpa_MaxFilePageId a) (fp + 1)"
    by auto
qed

section \<open>A mapper and the changes it went through\<close>

definition mapper_tracks ::
  "page_heap \<Rightarrow> PageMapper \<Rightarrow> uint64 list \<times> FilePageId \<Rightarrow> (PageId \<times> uint64) list \<Rightarrow> bool" where
  "mapper_tracks heap m s ds \<longleftrightarrow> mapper_inv m \<and> \<not> under_copying (mapping m)
    \<and> alloc_ok (file_page_allocator m) \<and> deltas_ok ds
    \<and> table_view heap (mapping m) = foldl view_delta (list_view (fst s)) ds
    \<and> fpa_MaxFilePageId (file_page_allocator m) = snd (foldl delta_spec s ds)"

lemma mapper_allocator [simp]:
  "mapper_inv (m\<lparr>file_page_allocator := a\<rparr>) = mapper_inv m"
  "live_pages (m\<lparr>file_page_allocator := a\<rparr>) = live_pages m"
  "page_room (m\<lparr>file_page_allocator := a\<rparr>) = page_room m"
  by (simp_all add: mapper_inv_def live_pages_def page_room_def free_list_def)

lemma snd_delta_spec:
  "snd (delta_spec s (p, v)) = (case value_page v of None \<Rightarrow> snd s | Some fp \<Rightarrow> max (snd s) (fp + 1))"
  by (cases s) (simp add: delta_spec_def value_page_def)

lemma deltas_ok_snoc: "deltas_ok (ds @ [(p, v)]) \<longleftrightarrow> deltas_ok ds \<and> unat p < 2 ^ 32 - 1"
  by (auto simp: deltas_ok_def)

lemma live_page_small: "mapper_inv m \<Longrightarrow> p \<in> live_pages m \<Longrightarrow> unat p < 2 ^ 29"
  by (auto simp: mapper_inv_def live_pages_def)

text \<open>The pages that an operation may name: a new one, if there is room, or one in use.\<close>

definition page_available :: "PageMapper \<Rightarrow> PageId \<Rightarrow> bool" where
  "page_available m p \<longleftrightarrow> (if p = MaxPageId then 0 < page_room m else p \<in> live_pages m)"

definition file_ids_left :: "PageMapper \<Rightarrow> bool" where
  "file_ids_left m \<longleftrightarrow> unat (fpa_MaxFilePageId (file_page_allocator m)) < 2 ^ 61 - 1"

lemma GetPage_chosen:
  assumes m: "mapper_inv m" and p: "page_available m p"
    and g: "(if p = MaxPageId then GetPage m else Some (p, m)) = Some (p', m1)"
  shows "mapper_inv m1" "p' \<in> live_pages m1" "table_view heap (mapping m1) = table_view heap (mapping m)"
    "under_copying (mapping m1) = under_copying (mapping m)" "file_page_allocator m1 = file_page_allocator m"
proof -
  have "mapper_inv m1 \<and> p' \<in> live_pages m1 \<and> table_view heap (mapping m1) = table_view heap (mapping m)
    \<and> under_copying (mapping m1) = under_copying (mapping m) \<and> file_page_allocator m1 = file_page_allocator m"
  proof (cases "p = MaxPageId")
    case True
    then have r: "0 < page_room m" "GetPage m = Some (p', m1)" using p g by (simp_all add: page_available_def)
    then show ?thesis using GetPage_fresh [OF m r(1)] GetPage_view(1-3) [OF m r(2,1)] by auto
  next
    case False
    then show ?thesis using p g m by (auto simp: page_available_def)
  qed
  then show "mapper_inv m1" "p' \<in> live_pages m1" "table_view heap (mapping m1) = table_view heap (mapping m)"
    "under_copying (mapping m1) = under_copying (mapping m)" "file_page_allocator m1 = file_page_allocator m"
    by auto
qed

lemma mapper_tracks_allocate:
  assumes t: "mapper_tracks heap m s ds" and p: "page_available m p" "file_ids_left m"
    and g: "(if p = MaxPageId then GetPage m else Some (p, m)) = Some (p', m1)"
    and a: "fpa_Allocate (file_page_allocator m1) = (fp, a)"
    and u: "UpdateMapping (m1\<lparr>file_page_allocator := a\<rparr>) p' fp = Some m2"
  shows "mapper_tracks heap m2 s (ds @ [(p', EncodeFilePageId fp)])"
proof -
  have m: "mapper_inv m" "\<not> under_copying (mapping m)" "alloc_ok (file_page_allocator m)" "deltas_ok ds"
    "table_view heap (mapping m) = foldl view_delta (list_view (fst s)) ds"
    "fpa_MaxFilePageId (file_page_allocator m) = snd (foldl delta_spec s ds)"
    using t by (simp_all add: mapper_tracks_def)
  note m1 = GetPage_chosen [OF m(1) p(1) g]
  note al = fpa_Allocate_max [OF m(3) p(2) [unfolded file_ids_left_def] a [unfolded m1(5)]]
  have "mapper_inv (m1\<lparr>file_page_allocator := a\<rparr>)" "p' \<in> live_pages (m1\<lparr>file_page_allocator := a\<rparr>)"
    using m1 by simp_all
  note v = UpdateMapping_view [OF this u al(2)]
  have p': "unat p' < 2 ^ 32 - 1" using live_page_small [OF m1(1,2)] by simp
  show ?thesis
    unfolding mapper_tracks_def deltas_ok_snoc
    using v(1,3-5) m(2,4) m1(3,4) p' al m(5,6)
    by (simp add: view_delta_def snd_delta_spec)
qed

lemma mapper_tracks_free:
  assumes t: "mapper_tracks heap m s ds" and p: "p \<in> live_pages m" and f: "FreePage m p = Some m'"
  shows "mapper_tracks heap m' s (ds @ [(p, InvalidValue)])"
proof -
  have inv: "mapper_inv m" using t by (simp add: mapper_tracks_def)
  have "mapper_inv m'" using FreePage_live [OF inv p] f by auto
  moreover have "unat p < 2 ^ 32 - 1" using live_page_small [OF inv p] by simp
  ultimately show ?thesis
    using t FreePage_frame(3,4) [OF inv p f] FreePage_view [OF inv p f, of heap]
    by (simp add: mapper_tracks_def deltas_ok_snoc view_delta_def snd_delta_spec)
qed

section \<open>The steps of a task\<close>

text \<open>What a task does between its start and its commit: it writes and frees pages and segments,
  moves the roots, and may build a dictionary.\<close>

inductive write_step ::
  "StoreOptions \<Rightarrow> nat \<Rightarrow> page_heap \<Rightarrow> TableIdent \<Rightarrow> WriteTask \<times> IoMgr \<Rightarrow> WriteTask \<times> IoMgr \<Rightarrow> bool"
  for opts al heap tbl where
  allocate_page: "AllocatePage opts al heap tbl p wt io = Some (r, wt', io') \<Longrightarrow> page_available (mapper (cow_meta wt)) p
    \<Longrightarrow> file_ids_left (mapper (cow_meta wt)) \<Longrightarrow> write_step opts al heap tbl (wt, io) (wt', io')"
| free_page: "WriteTask_FreePage opts al heap p wt = Some wt' \<Longrightarrow> p \<in> live_pages (mapper (cow_meta wt))
    \<Longrightarrow> write_step opts al heap tbl (wt, io) (wt', io)"
| ensure_segments: "tbl_inv (MappingTbl_new arena)
    \<Longrightarrow> write_step opts al heap tbl (wt, io) (EnsureSegmentMapper opts arena wt, io)"
| allocate_segment: "AllocateSegment tbl p wt io = Some (r, wt', io') \<Longrightarrow> segment_mapper (cow_meta wt) = Some sm
    \<Longrightarrow> page_available sm p \<Longrightarrow> file_ids_left sm \<Longrightarrow> write_step opts al heap tbl (wt, io) (wt', io')"
| free_segment: "FreeSegment p wt = Some wt' \<Longrightarrow> segment_mapper (cow_meta wt) = Some sm \<Longrightarrow> p \<in> live_pages sm
    \<Longrightarrow> write_step opts al heap tbl (wt, io) (wt', io)"
| set_roots: "write_step opts al heap tbl (wt, io)
    (wt\<lparr>cow_meta := (cow_meta wt)\<lparr>root_id := rt, ttl_root_id := ttl\<rparr>\<rparr>, io)"
| build_dictionary: "dict_dirty c
    \<Longrightarrow> write_step opts al heap tbl (wt, io) (wt\<lparr>cow_meta := (cow_meta wt)\<lparr>compression := c\<rparr>\<rparr>, io)"

definition task_dict :: "WriteTask \<Rightarrow> bytes" where
  "task_dict wt = (if has_dictionary (compression (cow_meta wt)) then dictionary (compression (cow_meta wt)) else [])"

definition segments_track ::
  "page_heap \<Rightarrow> PageMapper option \<Rightarrow> uint64 list \<times> FilePageId \<Rightarrow> (PageId \<times> uint64) list \<Rightarrow> bool" where
  "segments_track heap smo s sds \<longleftrightarrow>
    (case smo of
       None \<Rightarrow> sds = [] \<and> list_view (fst s) = Map.empty \<and> snd s = 0
     | Some sm \<Rightarrow> mapper_tracks heap sm s sds)"

definition task_tracks ::
  "nat \<Rightarrow> page_heap \<Rightarrow> mstate \<Rightarrow> WriteTask \<Rightarrow> (PageId \<times> uint64) list \<Rightarrow> (PageId \<times> uint64) list \<Rightarrow> bool" where
  "task_tracks al heap s wt ds sds \<longleftrightarrow> builder_ok al (wal_builder wt) ds
    \<and> seg_mapping_deltas wt = concat (map enc_delta sds)
    \<and> mapper_tracks heap (mapper (cow_meta wt)) (ms_values s, ms_max_fp s) ds
    \<and> segments_track heap (segment_mapper (cow_meta wt)) (ms_seg_values s, ms_max_seg s) sds
    \<and> (dict_dirty (compression (cow_meta wt)) \<or> task_dict wt = ms_dict s)"

lemma AllocatePage_parts:
  assumes "AllocatePage opts al heap tbl p wt io = Some (r, wt', io')"
  obtains p' m1 fp alloc m2 wal to_free where
    "(if p \<noteq> MaxPageId \<and> \<not> data_append_mode opts
      then Option.bind (ToFilePage heap (mapping (mapper (cow_meta wt))) p)
        (\<lambda>old. if old \<noteq> MaxFilePageId then AddFreeFilePage (old_to_free (cow_meta wt)) old
               else Some (old_to_free (cow_meta wt)))
      else Some (old_to_free (cow_meta wt))) = Some to_free"
    "(if p = MaxPageId then GetPage (mapper (cow_meta wt)) else Some (p, mapper (cow_meta wt))) = Some (p', m1)"
    "fpa_Allocate (file_page_allocator m1) = (fp, alloc)" "r = (p', fp)"
    "stamp_data_files tbl (CurrentFileId (file_page_allocator m1)) (CurrentFileId alloc) io = Some io'"
    "UpdateMapping (m1\<lparr>file_page_allocator := alloc\<rparr>) p' fp = Some m2"
    "mb_UpdateMapping al (wal_builder wt) p' fp = Some wal"
    "wt' = wt\<lparr>cow_meta := (cow_meta wt)\<lparr>mapper := m2, old_to_free := to_free\<rparr>, wal_builder := wal\<rparr>"
  using assms unfolding AllocatePage_def Let_def by (elim SomeEs) (rule that; auto)

lemma AllocateSegment_parts:
  assumes "AllocateSegment tbl p wt io = Some (r, wt', io')"
  obtains sm p' m1 fp alloc m2 last_seen where
    "segment_mapper (cow_meta wt) = Some sm"
    "(if p = MaxPageId then GetPage sm else Some (p, sm)) = Some (p', m1)"
    "fpa_Allocate (file_page_allocator m1) = (fp, alloc)" "r = (p', fp)"
    "stamp_segment_files tbl (CurrentFileId (file_page_allocator m1)) (CurrentFileId alloc)
       (last_seen_segment_file_id wt) io = Some (last_seen, io')"
    "UpdateMapping (m1\<lparr>file_page_allocator := alloc\<rparr>) p' fp = Some m2"
    "wt' = RecordSegmentMappingUpdate p' fp
        (wt\<lparr>cow_meta := (cow_meta wt)\<lparr>segment_mapper := Some m2\<rparr>, last_seen_segment_file_id := last_seen\<rparr>)"
  using assms unfolding AllocateSegment_def Let_def by (elim SomeEs) (rule that; auto)

lemma AllocatePage_tracks:
  assumes t: "task_tracks al heap s wt ds sds" and a: "AllocatePage opts al heap tbl p wt io = Some (r, wt', io')"
    and p: "page_available (mapper (cow_meta wt)) p" "file_ids_left (mapper (cow_meta wt))"
  shows "\<exists>d. task_tracks al heap s wt' (ds @ [d]) sds"
proof -
  obtain p' m1 fp alloc m2 wal to_free where
    g: "(if p = MaxPageId then GetPage (mapper (cow_meta wt)) else Some (p, mapper (cow_meta wt))) = Some (p', m1)"
    and f: "fpa_Allocate (file_page_allocator m1) = (fp, alloc)"
    and u: "UpdateMapping (m1\<lparr>file_page_allocator := alloc\<rparr>) p' fp = Some m2"
    and w: "mb_UpdateMapping al (wal_builder wt) p' fp = Some wal"
    and wt': "wt' = wt\<lparr>cow_meta := (cow_meta wt)\<lparr>mapper := m2, old_to_free := to_free\<rparr>, wal_builder := wal\<rparr>"
    by (rule AllocatePage_parts [OF a])
  have "mapper_tracks heap m2 (ms_values s, ms_max_fp s) (ds @ [(p', EncodeFilePageId fp)])"
    using mapper_tracks_allocate [OF _ p g f u] t by (simp add: task_tracks_def)
  moreover have "builder_ok al wal (ds @ [(p', EncodeFilePageId fp)])"
    using mb_UpdateMapping_ok [of al "wal_builder wt" ds p' fp] t w by (auto simp: task_tracks_def)
  ultimately show ?thesis using t wt'
    by (intro exI [of _ "(p', EncodeFilePageId fp)"]) (auto simp: task_tracks_def task_dict_def)
qed

lemma FreePage_tracks:
  assumes t: "task_tracks al heap s wt ds sds" and f: "WriteTask_FreePage opts al heap p wt = Some wt'"
    and p: "p \<in> live_pages (mapper (cow_meta wt))"
  shows "\<exists>d. task_tracks al heap s wt' (ds @ [d]) sds"
proof -
  obtain m wal to_free where m: "FreePage (mapper (cow_meta wt)) p = Some m"
    and w: "mb_DeleteMapping al (wal_builder wt) p = Some wal"
    and wt': "wt' = wt\<lparr>cow_meta := (cow_meta wt)\<lparr>mapper := m, old_to_free := to_free\<rparr>, wal_builder := wal\<rparr>"
    using f by (auto simp: WriteTask_FreePage_def Let_def split: Option.bind_splits)
  have "mapper_tracks heap m (ms_values s, ms_max_fp s) (ds @ [(p, InvalidValue)])"
    using mapper_tracks_free [OF _ p m] t by (simp add: task_tracks_def)
  moreover have "builder_ok al wal (ds @ [(p, InvalidValue)])"
    using mb_DeleteMapping_ok [of al "wal_builder wt" ds p] t w by (auto simp: task_tracks_def)
  ultimately show ?thesis using t wt'
    by (intro exI [of _ "(p, InvalidValue)"]) (auto simp: task_tracks_def task_dict_def)
qed

lemma AllocateSegment_tracks:
  assumes t: "task_tracks al heap s wt ds sds" and a: "AllocateSegment tbl p wt io = Some (r, wt', io')"
    and p: "segment_mapper (cow_meta wt) = Some sm" "page_available sm p" "file_ids_left sm"
  shows "\<exists>d. task_tracks al heap s wt' ds (sds @ [d])"
proof -
  obtain p' m1 fp alloc m2 ls where
    g: "(if p = MaxPageId then GetPage sm else Some (p, sm)) = Some (p', m1)"
    and f: "fpa_Allocate (file_page_allocator m1) = (fp, alloc)"
    and u: "UpdateMapping (m1\<lparr>file_page_allocator := alloc\<rparr>) p' fp = Some m2"
    and wt': "wt' = RecordSegmentMappingUpdate p' fp
        (wt\<lparr>cow_meta := (cow_meta wt)\<lparr>segment_mapper := Some m2\<rparr>, last_seen_segment_file_id := ls\<rparr>)"
    by (rule AllocateSegment_parts [OF a]) (use p(1) in auto)
  have "mapper_tracks heap m2 (ms_seg_values s, ms_max_seg s) (sds @ [(p', EncodeFilePageId fp)])"
    using mapper_tracks_allocate [OF _ p(2,3) g f u] t p(1) by (simp add: task_tracks_def segments_track_def)
  then show ?thesis using t wt'
    by (intro exI [of _ "(p', EncodeFilePageId fp)"])
      (auto simp: task_tracks_def segments_track_def RecordSegmentMappingUpdate_def PutVarint64_def PutVarint32_def
        enc_delta_def task_dict_def)
qed

lemma FreeSegment_tracks:
  assumes t: "task_tracks al heap s wt ds sds" and f: "FreeSegment p wt = Some wt'"
    and p: "segment_mapper (cow_meta wt) = Some sm" "p \<in> live_pages sm"
  shows "\<exists>d. task_tracks al heap s wt' ds (sds @ [d])"
proof -
  obtain m where m: "FreePage sm p = Some m"
    and wt': "wt' = RecordSegmentMappingDelete p (wt\<lparr>cow_meta := (cow_meta wt)\<lparr>segment_mapper := Some m\<rparr>\<rparr>)"
    using f p(1) by (auto simp: FreeSegment_def split: Option.bind_splits)
  have "mapper_tracks heap m (ms_seg_values s, ms_max_seg s) (sds @ [(p, InvalidValue)])"
    using mapper_tracks_free [OF _ p(2) m] t p(1) by (simp add: task_tracks_def segments_track_def)
  then show ?thesis using t wt'
    by (intro exI [of _ "(p, InvalidValue)"])
      (auto simp: task_tracks_def segments_track_def RecordSegmentMappingDelete_def PutVarint64_def PutVarint32_def
        enc_delta_def task_dict_def)
qed

lemma EnsureSegmentMapper_tracks:
  assumes t: "task_tracks al heap s wt ds sds" and arena: "tbl_inv (MappingTbl_new arena)"
  shows "task_tracks al heap s (EnsureSegmentMapper opts arena wt) ds sds"
proof (cases "segment_mapper (cow_meta wt)")
  case None
  define m where "m = (PageMapper_new arena (data_append_mode opts) (KvOptions.truncate opts))
      \<lparr>file_page_allocator := AppendMode \<lparr>a_shift = segments_per_file_shift opts, a_max_fp_id = 0,
        a_min_file_id = 0, a_empty_file_cnt = 0\<rparr>\<rparr>"
  have "mapper_inv m" using mapper_inv_new [OF arena] by (simp add: m_def)
  moreover have "mapping m = MappingTbl_new arena" by (simp add: m_def PageMapper_new_def)
  moreover have "tbl_Get (MappingTbl_new arena) q = None" for q
    using tbl_Get_None [OF arena, of q] by (simp add: MappingTbl_new_def)
  ultimately have "mapper_tracks heap m (ms_seg_values s, ms_max_seg s) []"
    using t None by (auto simp: mapper_tracks_def m_def fun_eq_iff table_view_def deltas_ok_def
        task_tracks_def segments_track_def MappingTbl_new_def)
  then show ?thesis using t None
    by (auto simp: EnsureSegmentMapper_def Let_def m_def [symmetric] task_tracks_def segments_track_def task_dict_def)
qed (use t in \<open>simp add: EnsureSegmentMapper_def\<close>)

definition task_tracks_some :: "nat \<Rightarrow> page_heap \<Rightarrow> mstate \<Rightarrow> WriteTask \<Rightarrow> bool" where
  "task_tracks_some al heap s wt \<longleftrightarrow> (\<exists>ds sds. task_tracks al heap s wt ds sds)"

text \<open>What stays as it is during a task: the size of the manifest and the identity of the process.\<close>

definition same_base :: "WriteTask \<times> IoMgr \<Rightarrow> WriteTask \<times> IoMgr \<Rightarrow> bool" where
  "same_base x y \<longleftrightarrow> manifest_size (cow_meta (fst y)) = manifest_size (cow_meta (fst x))
    \<and> GetActiveBranch (snd y) = GetActiveBranch (snd x) \<and> ProcessTerm (snd y) = ProcessTerm (snd x)"

lemma stamp_frame:
  "stamp tbl k io = Some io' \<Longrightarrow> GetActiveBranch io' = GetActiveBranch io \<and> ProcessTerm io' = ProcessTerm io"
  "stamp_if_unknown tbl k io = Some io' \<Longrightarrow> GetActiveBranch io' = GetActiveBranch io \<and> ProcessTerm io' = ProcessTerm io"
  by (auto simp: stamp_def stamp_if_unknown_def split: option.splits)

lemma write_step_tracks:
  assumes "write_step opts al heap tbl (wt, io) (wt', io')" "task_tracks_some al heap s wt"
  shows "task_tracks_some al heap s wt'"
  using assms
proof (cases rule: write_step.cases)
  case (set_roots rt ttl)
  obtain ds sds where "task_tracks al heap s wt ds sds" using assms(2) by (auto simp: task_tracks_some_def)
  then have "task_tracks al heap s wt' ds sds"
    using set_roots by (auto simp: task_tracks_def task_dict_def)
  then show ?thesis by (auto simp: task_tracks_some_def)
next
  case (build_dictionary c)
  obtain ds sds where "task_tracks al heap s wt ds sds" using assms(2) by (auto simp: task_tracks_some_def)
  then have "task_tracks al heap s wt' ds sds"
    using build_dictionary by (auto simp: task_tracks_def)
  then show ?thesis by (auto simp: task_tracks_some_def)
next
  case (allocate_page p r)
  then show ?thesis using assms(2) AllocatePage_tracks unfolding task_tracks_some_def by metis
next
  case (free_page p)
  then show ?thesis using assms(2) FreePage_tracks unfolding task_tracks_some_def by metis
next
  case (ensure_segments arena)
  then show ?thesis using assms(2) EnsureSegmentMapper_tracks unfolding task_tracks_some_def by metis
next
  case (allocate_segment p r sm)
  then show ?thesis using assms(2) AllocateSegment_tracks unfolding task_tracks_some_def by metis
next
  case (free_segment p sm)
  then show ?thesis using assms(2) FreeSegment_tracks unfolding task_tracks_some_def by metis
qed

lemma stamp_files_frame:
  "stamp_data_files tbl k k' io = Some io' \<Longrightarrow> GetActiveBranch io' = GetActiveBranch io \<and> ProcessTerm io' = ProcessTerm io"
  "stamp_segment_files tbl k k' l io = Some (l', io') \<Longrightarrow> GetActiveBranch io' = GetActiveBranch io \<and> ProcessTerm io' = ProcessTerm io"
  unfolding stamp_data_files_def stamp_segment_files_def
  by (auto dest!: stamp_frame elim!: SomeEs split: if_splits)

lemma write_step_base: "write_step opts al heap tbl x y \<Longrightarrow> same_base x y"
proof (induction rule: write_step.induct)
  case (allocate_page p wt io r wt' io')
  from allocate_page(1) show ?case
    by (rule AllocatePage_parts) (drule stamp_files_frame, simp add: same_base_def)
next
  case (allocate_segment p wt io r wt' io' sm)
  from allocate_segment(1) show ?case
    by (rule AllocateSegment_parts) (drule stamp_files_frame, simp add: same_base_def RecordSegmentMappingUpdate_def)
qed (auto simp: same_base_def WriteTask_FreePage_def FreeSegment_def RecordSegmentMappingDelete_def Let_def
    EnsureSegmentMapper_def bind_eq_Some_conv split: option.splits)

lemma write_steps_tracks:
  assumes "(write_step opts al heap tbl)\<^sup>*\<^sup>* x y" "task_tracks_some al heap s (fst x)"
  shows "task_tracks_some al heap s (fst y) \<and> same_base x y"
  using assms
proof (induction rule: rtranclp_induct)
  case base
  then show ?case by (simp add: same_base_def)
next
  case (step y z)
  then show ?case
    using write_step_tracks [of opts al heap tbl "fst y" "snd y" "fst z" "snd z" s] write_step_base [OF step(2)]
    by (auto simp: same_base_def)
qed

end
