(* ===== verification/Page_Mapper_Props.thy ===== *)
theory Page_Mapper_Props
  imports Page_Mapper
begin

text \<open>
  What the mapping table and the page mapper promise to the write path: ids are handed out once,
  lookups see the last store, and copying a mapper for a new version of the partition is atomic
  with respect to the swizzling that readers do meanwhile.
\<close>

section \<open>Copying a mapper\<close>

lemma FinishCopying_arena:
  assumes inv: "tbl_inv t" and cover: "logical_size t \<le> length (flat t)" and d: "tbl_inv d"
  shows "\<exists>t'. FinishCopying (t\<lparr> chunk_arena := chunk_arena d \<rparr>) = Some t' \<and> tbl_inv t'
    \<and> \<not> under_copying t' \<and> logical_size t' = logical_size t \<and> (\<forall>p. tbl_Get t' p = tbl_Get t p)"
proof -
  let ?t = "t\<lparr> chunk_arena := chunk_arena d \<rparr>"
  have f: "flat ?t = flat t" by (simp add: flat_def)
  have i: "tbl_inv ?t" using inv d unfolding tbl_inv_def f by (auto simp: chunks_ok_def)
  have g: "tbl_Get ?t p = tbl_Get t p" for p
    unfolding tbl_Get_inv [OF i] tbl_Get_inv [OF inv] f by simp
  show ?thesis
    by (rule FinishCopying_ok [OF i]) (use cover g in \<open>simp_all add: f\<close>)
qed

lemma tbl_inv_arena:
  assumes "tbl_inv t" "tbl_inv d"
  shows "tbl_inv (t\<lparr> chunk_arena := chunk_arena d \<rparr>)"
    "tbl_Get (t\<lparr> chunk_arena := chunk_arena d \<rparr>) p = tbl_Get t p"
proof -
  have f: "flat (t\<lparr> chunk_arena := chunk_arena d \<rparr>) = flat t" by (simp add: flat_def)
  show i: "tbl_inv (t\<lparr> chunk_arena := chunk_arena d \<rparr>)"
    using assms unfolding tbl_inv_def f by (auto simp: chunks_ok_def)
  show "tbl_Get (t\<lparr> chunk_arena := chunk_arena d \<rparr>) p = tbl_Get t p"
    unfolding tbl_Get_inv [OF i] tbl_Get_inv [OF assms(1)] f by simp
qed

lemma copy_value_free: "v = InvalidValue \<or> GetValType v = VPageId \<Longrightarrow> copy_value heap v = v"
  by (auto simp: copy_value_def IsSwizzlingPointer_def GetValType_def)

lemma free_chain_tag:
  "free_chain get h fs \<Longrightarrow> f \<in> set fs
    \<Longrightarrow> \<exists>v. get f = Some v \<and> (v = InvalidValue \<or> GetValType v = VPageId)"
  by (induction fs arbitrary: h) (auto simp del: InvalidValue_def split: option.splits)

lemma mapper_inv_same_free:
  assumes inv: "mapper_inv m" and t: "tbl_inv t" "logical_size t = logical_size (mapping m)"
    and g: "\<And>f. f \<in> set (free_list m) \<Longrightarrow> tbl_Get t f = tbl_Get (mapping m) f"
    and m': "m' = \<lparr> mapping = t, free_page_head = free_page_head m, free_page_cnt = free_page_cnt m,
                    file_page_allocator = a \<rparr>"
  shows "mapper_inv m'" "live_pages m' = live_pages m"
proof -
  have i: "free_chain (tbl_Get (mapping m)) (free_page_head m) (free_list m)" "distinct (free_list m)"
    "length (free_list m) = free_page_cnt m" "logical_size (mapping m) \<le> 2 ^ 29"
    "\<And>f. f \<in> set (free_list m) \<Longrightarrow> unat f < logical_size (mapping m)"
    using inv by (simp_all add: mapper_inv_def)
  then have "free_chain (tbl_Get t) (free_page_head m) (free_list m)"
    using g free_chain_cong [of "free_list m" "tbl_Get t" "tbl_Get (mapping m)"] by simp
  note mi = mapper_invI [of m' "free_list m"]
  show m: "mapper_inv m'" by (rule mi(1)) (use \<open>free_chain (tbl_Get t) _ _\<close> i t m' in simp_all)
  have "free_list m' = free_list m" by (rule mi(2)) (use \<open>free_chain (tbl_Get t) _ _\<close> i t m' in simp_all)
  then show "live_pages m' = live_pages m" using t m' by (simp add: live_pages_def)
qed

lemma PageMapper_copy_ok:
  assumes inv: "mapper_inv m" "\<not> under_copying (mapping m)"
    and env: "\<forall>k. \<forall>p\<in>fst ` set (env k). p \<in> P" "P \<subseteq> live_pages m"
  shows "\<exists>m1 m2. PageMapper_copy env heap m = Some (m1, m2)
    \<and> mapper_inv m1 \<and> mapper_inv m2 \<and> live_pages m1 = live_pages m \<and> live_pages m2 = live_pages m
    \<and> \<not> under_copying (mapping m1) \<and> \<not> under_copying (mapping m2)
    \<and> file_page_allocator m1 = file_page_allocator m \<and> file_page_allocator m2 = file_page_allocator m
    \<and> (\<forall>p. p \<notin> P \<longrightarrow> tbl_Get (mapping m1) p = tbl_Get (mapping m) p)
    \<and> (\<forall>p. tbl_Get (mapping m2) p = tbl_Get (mapping m1) p
        \<or> tbl_Get (mapping m2) p
            = map_option (copy_value (heap (unat p div kChunkSize))) (tbl_Get (mapping m1) p))"
proof -
  let ?t = "mapping m"
  have ti: "tbl_inv ?t" using inv by (simp add: mapper_inv_def)
  then have arena: "tbl_inv (MappingTbl_new (chunk_arena ?t))"
    by (intro tbl_inv_new) (auto simp: tbl_inv_def chunks_ok_def)
  have env': "\<forall>k. \<forall>p\<in>fst ` set (env k). unat p < logical_size ?t \<and> p \<in> P"
    using env by (fastforce simp: live_pages_def)
  obtain s d d' where c: "CopyFrom env heap (StartCopying ?t) (MappingTbl_new (chunk_arena ?t)) = Some (s, d)"
    "ApplyPendingTo s d = Some d'" "tbl_inv d'" "\<not> under_copying d'" "tbl_inv s"
    "logical_size d' = logical_size ?t" "logical_size s = logical_size ?t" "logical_size s \<le> length (flat s)"
    "fst ` set (changes s) \<subseteq> P" "\<forall>p. p \<notin> P \<longrightarrow> tbl_Get s p = tbl_Get ?t p"
    "\<forall>p. tbl_Get d' p = (if p \<in> fst ` set (changes s) then tbl_Get s p
         else map_option (copy_value (heap (unat p div kChunkSize))) (tbl_Get s p))"
    using copy_protocol [OF ti inv(2) arena env'] by blast
  obtain s' where s': "FinishCopying (s\<lparr> chunk_arena := chunk_arena d' \<rparr>) = Some s'" "tbl_inv s'"
    "\<not> under_copying s'" "logical_size s' = logical_size s" "\<forall>p. tbl_Get s' p = tbl_Get s p"
    using FinishCopying_arena [OF c(5,8,3)] by blast
  define d2 where "d2 = d'\<lparr> chunk_arena := chunk_arena s' \<rparr>"
  have d2: "tbl_inv d2" "logical_size d2 = logical_size ?t" "\<not> under_copying d2" "\<And>p. tbl_Get d2 p = tbl_Get d' p"
    using tbl_inv_arena [OF c(3) s'(2)] c(4,6) by (simp_all add: d2_def)
  have fs: "tbl_Get s' f = tbl_Get ?t f" "tbl_Get d2 f = tbl_Get ?t f" if "f \<in> set (free_list m)" for f
  proof -
    have f: "f \<notin> P" using that env(2) by (auto simp: live_pages_def)
    show "tbl_Get s' f = tbl_Get ?t f" using f c(10) s'(5) by simp
    have "free_chain (tbl_Get ?t) (free_page_head m) (free_list m)" using inv(1) by (simp add: mapper_inv_def)
    from free_chain_tag [OF this that] obtain v where v: "tbl_Get ?t f = Some v"
      "v = InvalidValue \<or> GetValType v = VPageId" by blast
    note copy_value_free [OF v(2), of "heap (unat f div kChunkSize)"]
    with v(1) show "tbl_Get d2 f = tbl_Get ?t f" using c(9,10,11) f d2(4) by auto
  qed
  define m1 where "m1 = m\<lparr> mapping := s' \<rparr>"
  define m2 where "m2 = \<lparr> mapping = d2, free_page_head = free_page_head m, free_page_cnt = free_page_cnt m,
    file_page_allocator = file_page_allocator m \<rparr>"
  have "PageMapper_copy env heap m = Some (m1, m2)"
    using c(1,2) s'(1) by (simp add: PageMapper_copy_def m1_def m2_def d2_def)
  moreover have "mapper_inv m1 \<and> live_pages m1 = live_pages m"
    using mapper_inv_same_free [OF inv(1) s'(2) _ fs(1), of m1 "file_page_allocator m"] s'(4) c(7)
    by (simp add: m1_def)
  moreover have "mapper_inv m2 \<and> live_pages m2 = live_pages m"
    using mapper_inv_same_free [OF inv(1) d2(1,2) fs(2), of m2 "file_page_allocator m"]
    by (simp add: m2_def)
  ultimately show ?thesis
    using s' d2 c(10,11) unfolding m1_def m2_def by auto
qed

lemma ToFilePage_copy_value:
  assumes "\<And>v. mp_file_page_id (h v) = mp_file_page_id (heap v)" "\<And>v. unat (mp_file_page_id (heap v)) < 2 ^ 61"
  shows "ToFilePage_val heap (copy_value h v) = ToFilePage_val heap v"
  using assms DecodeId_EncodeFilePageId [OF assms(2), of v]
  by (simp add: copy_value_def ToFilePage_val_def EncodeFilePageId_tag(1) IsSwizzlingPointer_def)

section \<open>A small mapper\<close>

definition ex_mapper0 :: PageMapper where
  "ex_mapper0 = PageMapper_new None True default_options"

definition ex_mapper :: PageMapper where
  "ex_mapper = snd (the (GetPage ex_mapper0))"

lemma ex_mapper0: "mapper_inv ex_mapper0" "page_room ex_mapper0 = 2 ^ 29" "live_pages ex_mapper0 = {}"
proof -
  show "mapper_inv ex_mapper0" unfolding ex_mapper0_def by (intro mapper_inv_new tbl_inv_new) simp
qed (simp_all add: ex_mapper0_def PageMapper_new_def MappingTbl_new_def page_room_def live_pages_def)

lemma ex_mapper: "GetPage ex_mapper0 = Some (0, ex_mapper)" "mapper_inv ex_mapper"
  "live_pages ex_mapper = {0}" "\<not> under_copying (mapping ex_mapper)"
proof -
  have i: "tbl_inv (MappingTbl_new None)" by (rule tbl_inv_new) simp
  obtain t' where "tbl_PushBack (MappingTbl_new None) InvalidValue = Some (0, t')" "\<not> under_copying t'"
    by (rule tbl_PushBack_ok [OF i, of InvalidValue]) (simp_all add: MappingTbl_new_def)
  then show e: "GetPage ex_mapper0 = Some (0, ex_mapper)" "\<not> under_copying (mapping ex_mapper)"
    by (simp_all add: ex_mapper_def GetPage_def ex_mapper0_def PageMapper_new_def)
  obtain p m where "GetPage ex_mapper0 = Some (p, m)" "mapper_inv m" "live_pages m = insert p (live_pages ex_mapper0)"
    using GetPage_fresh [OF ex_mapper0(1)] ex_mapper0(2) by auto
  then show "mapper_inv ex_mapper" "live_pages ex_mapper = {0}" using e(1) ex_mapper0(3) by simp_all
qed

section \<open>Properties\<close>

text \<open>C8: Page ids are handed out once: a mapper with room for \<open>n\<close> more pages gives \<open>n\<close> different
  ids, none of them in use; giving them all back restores the set of ids in use and the room.\<close>

theorem page_ids_fresh:
  assumes "mapper_inv m" "n \<le> page_room m"
  shows "\<exists>ids m1 m2. alloc_n GetPage n m = Some (ids, m1) \<and> length ids = n \<and> distinct ids
    \<and> set ids \<inter> live_pages m = {} \<and> live_pages m1 = live_pages m \<union> set ids \<and> mapper_inv m1
    \<and> release_all FreePage ids m1 = Some m2 \<and> live_pages m2 = live_pages m
    \<and> page_room m2 = page_room m \<and> mapper_inv m2"
proof -
  obtain ids m1 where a: "alloc_n GetPage n m = Some (ids, m1)" "mapper_inv m1" "length ids = n" "distinct ids"
    "set ids \<inter> live_pages m = {}" "live_pages m1 = live_pages m \<union> set ids"
    using mapper_pages.alloc_n_fresh [OF assms] by blast
  moreover obtain m2 where "release_all FreePage ids m1 = Some m2" "mapper_inv m2"
    "live_pages m2 = live_pages m" "page_room m2 = page_room m"
    using mapper_pages.alloc_release [OF assms] a(1) by auto
  ultimately show ?thesis by blast
qed

theorem page_ids_fresh_witness:
  "\<exists>ids m1. alloc_n GetPage 3 ex_mapper0 = Some (ids, m1) \<and> distinct ids \<and> live_pages m1 = set ids"
  using page_ids_fresh [OF ex_mapper0(1), of 3] ex_mapper0(2,3) by auto

text \<open>C23: Inside and outside a copy, a store to a page of the table or to the page just after its
  end succeeds, keeps the invariant, and every later lookup sees exactly that change.\<close>

theorem table_store_lookup:
  assumes "tbl_inv t" "unat p \<le> logical_size t" "unat p < 2 ^ 32 - 1"
  shows "\<exists>t'. tbl_Set t p v = Some t' \<and> tbl_inv t'
    \<and> logical_size t' = max (logical_size t) (unat p + 1)
    \<and> (\<forall>q. tbl_Get t' q = (if q = p then Some v else tbl_Get t q))"
  by (rule tbl_Set_ok [OF assms, of v]) blast

theorem table_store_lookup_witness:
  "\<exists>t'. tbl_Set (mapping ex_mapper) 0 9 = Some t' \<and> tbl_Get t' 0 = Some 9"
  using table_store_lookup [of "mapping ex_mapper" 0 9] ex_mapper(2) by (auto simp: mapper_inv_def)

text \<open>C14: Copying a mapper while other tasks swizzle pages of the source succeeds. Source and copy
  end with the same page ids in use, and the copy resolves every page to the same file page as the
  source, provided a cached page keeps its file page id.\<close>

theorem mapper_copy_resolves:
  assumes "mapper_inv m" "\<not> under_copying (mapping m)"
    and "\<forall>k. \<forall>p\<in>fst ` set (env k). p \<in> live_pages m"
    and "\<forall>n v. mp_file_page_id (heap n v) = mp_file_page_id (heap' v)"
    and "\<forall>v. unat (mp_file_page_id (heap' v)) < 2 ^ 61"
  shows "\<exists>m1 m2. PageMapper_copy env heap m = Some (m1, m2) \<and> mapper_inv m1 \<and> mapper_inv m2
    \<and> live_pages m1 = live_pages m \<and> live_pages m2 = live_pages m
    \<and> (\<forall>p. ToFilePage heap' (mapping m2) p = ToFilePage heap' (mapping m1) p)"
proof -
  obtain m1 m2 where c: "PageMapper_copy env heap m = Some (m1, m2)" "mapper_inv m1" "mapper_inv m2"
    "live_pages m1 = live_pages m" "live_pages m2 = live_pages m"
    "\<forall>p. tbl_Get (mapping m2) p = tbl_Get (mapping m1) p
        \<or> tbl_Get (mapping m2) p
            = map_option (copy_value (heap (unat p div kChunkSize))) (tbl_Get (mapping m1) p)"
    using PageMapper_copy_ok [OF assms(1-3) subset_refl, of heap] by blast
  have v: "ToFilePage_val heap' (copy_value (heap n) v) = ToFilePage_val heap' v" for n v
    using assms(4,5) by (intro ToFilePage_copy_value) auto
  have "ToFilePage heap' (mapping m2) p = ToFilePage heap' (mapping m1) p" for p
    using spec [OF c(6), of p] v by (auto simp: ToFilePage_def option.map_comp o_def)
  then show ?thesis using c by blast
qed

theorem mapper_copy_resolves_witness:
  "\<exists>m1 m2. PageMapper_copy (\<lambda>_. [(0, 16)])
      (\<lambda>_ _. \<lparr> mp_page_id = 0, mp_file_page_id = 5, mp_detached = False \<rparr>) ex_mapper = Some (m1, m2)
    \<and> mapper_inv m2"
proof -
  let ?h = "\<lambda>_. \<lparr> mp_page_id = 0, mp_file_page_id = 5, mp_detached = False \<rparr>"
  have "\<forall>k. \<forall>p\<in>fst ` set [(0, 16 :: uint64)]. p \<in> live_pages ex_mapper" by (simp add: ex_mapper(3))
  then show ?thesis
    using mapper_copy_resolves [OF ex_mapper(2,4), of "\<lambda>_. [(0, 16)]" "\<lambda>_. ?h" ?h] by auto
qed

definition ex_detached :: MemCachedPage where
  "ex_detached = \<lparr> mp_page_id = 0, mp_file_page_id = 5, mp_detached = True \<rparr>"


text \<open>C25: Appending a page to a table under copy whose last chunk is full only raises the logical
  size; the end of the copy then writes to a chunk that does not exist.\<close>

theorem finish_copy_after_growth:
  assumes "tbl_inv t" "under_copying t" "logical_size t = kChunkSize * length (base t)"
    "logical_size t < 2 ^ 32 - 1" "tbl_PushBack t v = Some (p, t')"
  shows "FinishCopying t' = None"
proof -
  have ok: "chunks_ok t" using assms(1) by (simp add: tbl_inv_def)
  have u: "unat (of_nat (logical_size t) :: PageId) = logical_size t"
    using assms(4) by (simp add: unsigned_of_nat take_bit_nat_eq_self)
  obtain t1 where t1: "tbl_Set t (of_nat (logical_size t)) v = Some t1" "tbl_inv t1"
    "logical_size t1 = logical_size t + 1" "under_copying t1" "flat t1 = flat t"
    by (rule tbl_Set_ok [OF assms(1), of "of_nat (logical_size t)" v])
      (use u assms(2,4) that in auto)
  have "t1 = t'" using assms(5) t1(1) by (simp add: tbl_PushBack_def Let_def)
  moreover have "length (flat t1) < logical_size t1" using length_flat [OF ok] assms(3) t1 by simp
  ultimately show ?thesis using FinishCopying_grown t1 by blast
qed

theorem finish_copy_after_growth_witness:
  "\<exists>p t'. tbl_PushBack (StartCopying (MappingTbl_new None)) 1 = Some (p, t') \<and> FinishCopying t' = None"
proof -
  let ?t = "StartCopying (MappingTbl_new None)"
  have i: "tbl_inv ?t"
    by (auto simp: StartCopying_def MappingTbl_new_def tbl_inv_def chunks_ok_def)
  obtain t' where t': "tbl_PushBack ?t 1 = Some (of_nat (logical_size ?t), t')"
    by (rule tbl_PushBack_ok [OF i, of 1]) (simp_all add: StartCopying_def MappingTbl_new_def)
  then show ?thesis
    using finish_copy_after_growth [OF i _ _ _ t'] by (auto simp: StartCopying_def MappingTbl_new_def)
qed

text \<open>C26: The link that the free list stores for a page id is read back exactly when the id is
  below \<open>2 ^ 29\<close>: the id is shifted in 32 bits and loses its top bits above that.\<close>

theorem free_link_roundtrip: "next_free (EncodePageId p) = p \<longleftrightarrow> unat p < 2 ^ 29"
  using DecodeId_EncodePageId [of p] EncodePageId_ne_Invalid [of p] by (simp add: next_free_def)

text \<open>C27: The pooled allocator hands out a file page only while it is not in use, as long as file
  page ids stay within the 32 bits in which it keeps the ones given back.\<close>

theorem pooled_file_pages_fresh:
  assumes "pooled_inv a" "n \<le> pooled_room a"
  shows "\<exists>ids a1. alloc_n (\<lambda>a. Some (Pooled_Allocate a)) n a = Some (ids, a1) \<and> distinct ids
    \<and> set ids \<inter> pooled_live a = {} \<and> pooled_live a1 = pooled_live a \<union> set ids \<and> pooled_inv a1
    \<and> (\<forall>f\<in>pooled_live a1. pooled_inv (Pooled_Free a1 [f])
         \<and> pooled_live (Pooled_Free a1 [f]) = pooled_live a1 - {f})"
  using pooled_files.alloc_n_fresh [OF assms] Pooled_Free_live by meson

theorem pooled_file_pages_fresh_witness:
  "\<exists>ids a1. alloc_n (\<lambda>a. Some (Pooled_Allocate a)) 2 \<lparr> p_shift = 4, p_max_fp_id = 3, p_free_ids = [1] \<rparr>
    = Some (ids, a1) \<and> distinct ids"
  using pooled_file_pages_fresh [of "\<lparr> p_shift = 4, p_max_fp_id = 3, p_free_ids = [1] \<rparr>" 2]
  by (auto simp: pooled_inv_def pooled_room_def)

end
