(* ===== verification/Cow_Snapshots.thy ===== *)
theory Cow_Snapshots
  imports Write_Task_Correct Page_Mapper_Props
begin

text \<open>
  Copy on write: readers and a writer of a partition that reuses file pages (\<open>MakeCowRoot\<close>,
  \<open>UpdateRoot\<close>, \<open>FreeMappingSnapshot\<close> in \<open>src/storage/page_manager.cpp\<close>, \<open>Abort\<close> in
  \<open>src/tasks/write_task.cpp\<close>).  A reader holds a reference to the mapping snapshot it started with; a
  file page that a writer replaces is put on a list of the snapshot it belongs to, and goes back to
  the allocator when that snapshot is destroyed.  A snapshot refers to its successor, so snapshots
  are destroyed in the order they were made.

  The steps interleave freely; a snapshot without references may be destroyed at any later time.
  Write tasks of a partition run one at a time.  The model starts with a partition that has a
  root; \<open>heap\<close> gives the file pages of cached pages.
\<close>

declare InvalidValue_def [simp del]

section \<open>State\<close>

text \<open>The content of a committed snapshot does not change, except that cached pages are swizzled, which
  leaves the file pages as they are.\<close>

record MappingSnapshot =
  sn_view :: "PageId \<Rightarrow> FilePageId option"
  to_free_file_pages :: "FilePageId list"
  next_snapshot :: "nat option"

text \<open>\<open>meta\<close> has the fields of \<open>RootMeta\<close> that those of the copy are taken from and go back to;
  \<open>writer\<close> is the task that is active, its \<open>old_mapping_\<close> is the snapshot of \<open>meta\<close>.\<close>

record Partition =
  snapshots :: "nat \<Rightarrow> MappingSnapshot option"
  meta_snapshot :: nat
  meta :: CowRootMeta
  readers :: "nat list"
  writer :: "WriteTask option"
  io_mgr :: IoMgr

definition quiet_env :: "nat \<Rightarrow> (PageId \<times> uint64) list" where
  "quiet_env k = []"

definition copy_mapper :: "page_heap \<Rightarrow> PageMapper \<Rightarrow> (PageMapper \<times> PageMapper) option" where
  "copy_mapper heap m = PageMapper_copy quiet_env (\<lambda>_. heap) m"

definition MakeCowRoot :: "nat \<Rightarrow> page_heap \<Rightarrow> Partition \<Rightarrow> Partition option" where
  "MakeCowRoot al heap p = do {
     s \<leftarrow> snapshots p (meta_snapshot p);
     (m, new_mapper) \<leftarrow> copy_mapper heap (mapper (meta p));
     (seg, new_seg) \<leftarrow>
       (case segment_mapper (meta p) of
          None \<Rightarrow> Some (None, None)
        | Some sm \<Rightarrow> map_option (\<lambda>(a, b). (Some a, Some b)) (copy_mapper heap sm));
     let cow = (CowRootMeta_new new_mapper)
           \<lparr>root_id := root_id (meta p), ttl_root_id := ttl_root_id (meta p), segment_mapper := new_seg,
            manifest_size := manifest_size (meta p), old_to_free := to_free_file_pages s,
            next_expire_ts := next_expire_ts (meta p), compression := compression (meta p)\<rparr>;
     Some (p\<lparr>meta := (meta p)\<lparr>mapper := m, segment_mapper := seg\<rparr>,
             writer := Some \<lparr>cow_meta = cow, wal_builder = ManifestBuilder_new al, seg_mapping_deltas = [],
                             last_seen_segment_file_id = None\<rparr>\<rparr>) }"

text \<open>The frees recorded by the task stay with the old snapshot, which is linked to the new one when
  file pages are reused.\<close>

definition UpdateRoot :: "StoreOptions \<Rightarrow> page_heap \<Rightarrow> Partition \<Rightarrow> Partition option" where
  "UpdateRoot opts heap p = do {
     wt \<leftarrow> writer p;
     prev \<leftarrow> snapshots p (meta_snapshot p);
     let new_meta = cow_meta wt;
     let new_id = Suc (meta_snapshot p);
     let prev = prev\<lparr>to_free_file_pages := old_to_free new_meta\<rparr>;
     let prev = (if \<not> data_append_mode opts then prev\<lparr>next_snapshot := Some new_id\<rparr> else prev);
     let snap = \<lparr>sn_view = table_view heap (mapping (mapper new_meta)), to_free_file_pages = [], next_snapshot = None\<rparr>;
     let seg = (case segment_mapper new_meta of None \<Rightarrow> segment_mapper (meta p) | Some m \<Rightarrow> Some m);
     Some (p\<lparr>snapshots := (snapshots p)(meta_snapshot p \<mapsto> prev, new_id \<mapsto> snap), meta_snapshot := new_id,
             meta := new_meta\<lparr>segment_mapper := seg, old_to_free := []\<rparr>, writer := None\<rparr>) }"

definition Abort :: "Partition \<Rightarrow> Partition option" where
  "Abort p = do {
     s \<leftarrow> snapshots p (meta_snapshot p);
     Some (p\<lparr>snapshots := (snapshots p)(meta_snapshot p \<mapsto> s\<lparr>to_free_file_pages := []\<rparr>), writer := None\<rparr>) }"

definition referenced :: "Partition \<Rightarrow> nat \<Rightarrow> bool" where
  "referenced p i \<longleftrightarrow> i = meta_snapshot p \<or> i \<in> set (readers p)
    \<or> (\<exists>j s. snapshots p j = Some s \<and> next_snapshot s = Some i)"

definition FreeMappingSnapshot :: "StoreOptions \<Rightarrow> nat \<Rightarrow> Partition \<Rightarrow> Partition option" where
  "FreeMappingSnapshot opts i p = do {
     s \<leftarrow> snapshots p i;
     m \<leftarrow>
       (if to_free_file_pages s \<noteq> []
        then if data_append_mode opts then None
             else (case file_page_allocator (mapper (meta p)) of
                     AppendMode _ \<Rightarrow> None
                   | PooledMode a \<Rightarrow>
                      Some ((mapper (meta p))\<lparr>file_page_allocator := PooledMode (Pooled_Free a (to_free_file_pages s))\<rparr>))
        else Some (mapper (meta p)));
     Some (p\<lparr>snapshots := (snapshots p)(i := None), meta := (meta p)\<lparr>mapper := m\<rparr>\<rparr>) }"

text \<open>Ids of file pages that are put back are stored in 32 bits.\<close>

definition pool_ids_left :: "WriteTask \<Rightarrow> bool" where
  "pool_ids_left wt \<longleftrightarrow> unat (fpa_MaxFilePageId (file_page_allocator (mapper (cow_meta wt)))) < 2 ^ 32"

inductive cow_step :: "StoreOptions \<Rightarrow> nat \<Rightarrow> page_heap \<Rightarrow> TableIdent \<Rightarrow> Partition \<Rightarrow> Partition \<Rightarrow> bool"
  for opts al heap tbl where
  begin_read: "cow_step opts al heap tbl p (p\<lparr>readers := meta_snapshot p # readers p\<rparr>)"
| end_read: "i \<in> set (readers p) \<Longrightarrow> cow_step opts al heap tbl p (p\<lparr>readers := remove1 i (readers p)\<rparr>)"
| begin_write: "writer p = None \<Longrightarrow> MakeCowRoot al heap p = Some p' \<Longrightarrow> cow_step opts al heap tbl p p'"
| write_op: "writer p = Some wt \<Longrightarrow> pool_ids_left wt \<Longrightarrow> write_step opts al heap tbl (wt, io_mgr p) (wt', io')
    \<Longrightarrow> cow_step opts al heap tbl p (p\<lparr>writer := Some wt', io_mgr := io'\<rparr>)"
| commit: "UpdateRoot opts heap p = Some p' \<Longrightarrow> cow_step opts al heap tbl p p'"
| abort: "writer p = Some wt \<Longrightarrow> Abort p = Some p' \<Longrightarrow> cow_step opts al heap tbl p p'"
| destroy: "\<not> referenced p i \<Longrightarrow> FreeMappingSnapshot opts i p = Some p' \<Longrightarrow> cow_step opts al heap tbl p p'"

section \<open>The task\<close>

definition heap_ok :: "page_heap \<Rightarrow> bool" where
  "heap_ok heap \<longleftrightarrow> (\<forall>v. unat (mp_file_page_id (heap v)) < 2 ^ 61)"

lemma ToFilePage_view:
  assumes "heap_ok heap" "q \<noteq> MaxPageId" "ToFilePage heap t q = Some fp" "fp \<noteq> MaxFilePageId"
  shows "table_view heap t q = Some fp"
proof -
  obtain v where v: "tbl_Get t q = Some v" "ToFilePage_val heap v = fp" using assms(2,3) by (auto simp: ToFilePage_def)
  have "value_page (serialized_value heap v) = Some fp"
  proof (cases "GetValType v")
    case SwizzlingPointer
    then have "serialized_value heap v = EncodeFilePageId fp" "unat fp < 2 ^ 61"
      using v(2) assms(1) by (auto simp: serialized_value_def IsSwizzlingPointer_def ToFilePage_val_def heap_ok_def)
    then show ?thesis by simp
  next
    case VFilePageId
    then show ?thesis using v(2)
      by (simp add: serialized_value_def IsSwizzlingPointer_def ToFilePage_val_def value_page_def IsFilePageId_def)
  qed (use v(2) assms(4) in \<open>auto simp: ToFilePage_val_def\<close>)
  then show ?thesis using v(1) by (simp add: table_view_def)
qed

text \<open>The file pages of a task: those it maps, and those it will give up, are in use for its
  allocator, and so are the pages \<open>A\<close> and the pending frees \<open>R\<close> of the snapshots.\<close>

definition task_ok :: "page_heap \<Rightarrow> FilePageId set \<Rightarrow> FilePageId set \<Rightarrow> WriteTask \<Rightarrow> bool" where
  "task_ok heap A R wt \<longleftrightarrow>
    (\<exists>a. file_page_allocator (mapper (cow_meta wt)) = PooledMode a \<and> pooled_inv a \<and> A \<union> R \<subseteq> pooled_live a
      \<and> mapper_inv (mapper (cow_meta wt)) \<and> \<not> under_copying (mapping (mapper (cow_meta wt)))
      \<and> inj_on (table_view heap (mapping (mapper (cow_meta wt)))) (dom (table_view heap (mapping (mapper (cow_meta wt)))))
      \<and> ran (table_view heap (mapping (mapper (cow_meta wt)))) \<union> set (old_to_free (cow_meta wt)) \<subseteq> pooled_live a
      \<and> distinct (old_to_free (cow_meta wt))
      \<and> (set (old_to_free (cow_meta wt)) \<union> R) \<inter> ran (table_view heap (mapping (mapper (cow_meta wt)))) = {}
      \<and> R \<inter> set (old_to_free (cow_meta wt)) = {})"

lemma task_okI:
  assumes "file_page_allocator m = PooledMode a" "pooled_inv a" "A \<union> R \<subseteq> pooled_live a"
    "mapper_inv m" "\<not> under_copying (mapping m)"
    "inj_on (table_view heap (mapping m)) (dom (table_view heap (mapping m)))"
    "ran (table_view heap (mapping m)) \<union> set T \<subseteq> pooled_live a" "distinct T"
    "(set T \<union> R) \<inter> ran (table_view heap (mapping m)) = {}" "R \<inter> set T = {}"
    "mapper (cow_meta wt) = m" "old_to_free (cow_meta wt) = T"
  shows "task_ok heap A R wt"
  using assms by (auto simp: task_ok_def)

lemma inj_map_upd: "inj_on f (dom f) \<Longrightarrow> x \<notin> ran f \<Longrightarrow> inj_on (f(k \<mapsto> x)) (dom (f(k \<mapsto> x)))"
  by (auto simp: inj_on_def ran_def)

lemma inj_map_del: "inj_on f (dom f) \<Longrightarrow> inj_on (f(k := None)) (dom (f(k := None)))"
  by (auto simp: inj_on_def)

lemma ran_upd_inj: "inj_on f (dom f) \<Longrightarrow> ran (f(k \<mapsto> x)) = insert x (ran f - set_option (f k))"
  by (auto simp: ran_def inj_on_def dom_def split: if_splits)

lemma ran_del_inj: "inj_on f (dom f) \<Longrightarrow> ran (f(k := None)) = ran f - set_option (f k)"
  by (auto simp: ran_def inj_on_def dom_def split: if_splits)

lemma Pooled_Allocate_task:
  assumes "pooled_inv a" "unat (p_max_fp_id a) < 2 ^ 32" "fpa_Allocate (PooledMode a) = (fp, al)"
  obtains a' where "al = PooledMode a'" "pooled_inv a'" "fp \<notin> pooled_live a" "pooled_live a' = insert fp (pooled_live a)"
proof -
  have "0 < pooled_room a" using assms(2) by (simp add: pooled_room_def)
  from Pooled_Allocate_fresh [OF assms(1) this] assms(3) that show thesis by auto
qed

lemma fpa_PooledMode_small: "pooled_inv a \<Longrightarrow> fp \<in> pooled_live a \<Longrightarrow> unat fp < 2 ^ 61"
  by (auto simp: pooled_inv_def pooled_live_def word_less_nat_alt)

lemma AllocatePage_ok:
  assumes t: "task_ok heap A R wt" and a: "AllocatePage opts al heap tbl p wt io = Some ((q, fp), wt', io')"
    and p: "page_available (mapper (cow_meta wt)) p" and left: "pool_ids_left wt"
    and opts: "\<not> data_append_mode opts" "heap_ok heap"
  shows "task_ok heap A R wt'" "fp \<notin> A"
proof -
  let ?m = "mapper (cow_meta wt)" and ?T = "old_to_free (cow_meta wt)"
  let ?V = "table_view heap (mapping ?m)"
  obtain x where x: "file_page_allocator ?m = PooledMode x" "pooled_inv x" "A \<union> R \<subseteq> pooled_live x" "mapper_inv ?m"
    "\<not> under_copying (mapping ?m)" "inj_on ?V (dom ?V)" "ran ?V \<union> set ?T \<subseteq> pooled_live x" "distinct ?T"
    "(set ?T \<union> R) \<inter> ran ?V = {}" "R \<inter> set ?T = {}"
    using t by (auto simp: task_ok_def)
  obtain m1 alloc m2 wal to_free where
    tf: "(if p \<noteq> MaxPageId \<and> \<not> data_append_mode opts
      then Option.bind (ToFilePage heap (mapping ?m) p)
        (\<lambda>old. if old \<noteq> MaxFilePageId then AddFreeFilePage ?T old else Some ?T)
      else Some ?T) = Some to_free"
    and g: "(if p = MaxPageId then GetPage ?m else Some (p, ?m)) = Some (q, m1)"
    and f: "fpa_Allocate (file_page_allocator m1) = (fp, alloc)"
    and u: "UpdateMapping (m1\<lparr>file_page_allocator := alloc\<rparr>) q fp = Some m2"
    and wt': "wt' = wt\<lparr>cow_meta := (cow_meta wt)\<lparr>mapper := m2, old_to_free := to_free\<rparr>, wal_builder := wal\<rparr>"
    by (rule AllocatePage_parts [OF a]) auto
  have m1: "mapper_inv m1" "q \<in> live_pages m1" "table_view heap (mapping m1) = ?V"
    "under_copying (mapping m1) = under_copying (mapping ?m)" "file_page_allocator m1 = file_page_allocator ?m"
    using GetPage_chosen [OF x(4) p g] by auto
  obtain a' where a': "alloc = PooledMode a'" "pooled_inv a'" "fp \<notin> pooled_live x" "pooled_live a' = insert fp (pooled_live x)"
    using Pooled_Allocate_task [OF x(2) _ f [unfolded m1(5) x(1)]] left x(1) by (auto simp: pool_ids_left_def)
  then show "fp \<notin> A" using x(3) by auto
  have small: "unat fp < 2 ^ 61" using fpa_PooledMode_small [OF a'(2), of fp] a'(4) by simp
  have mi: "mapper_inv (m1\<lparr>file_page_allocator := alloc\<rparr>)" "q \<in> live_pages (m1\<lparr>file_page_allocator := alloc\<rparr>)"
    using m1 by simp_all
  note uv = UpdateMapping_view [OF mi u small]
  have v: "mapper_inv m2" "table_view heap (mapping m2) = ?V(q \<mapsto> fp)"
    "under_copying (mapping m2) = under_copying (mapping ?m)" "file_page_allocator m2 = PooledMode a'"
    using uv(1,4,5) uv(3) [of heap] m1(3,4) a'(1) by simp_all
  have T: "to_free = ?T \<or> (\<exists>old. to_free = ?T @ [old] \<and> ?V q = Some old)"
  proof (cases "p = MaxPageId")
    case False
    have q: "q = p" using g False by simp
    have "Option.bind (ToFilePage heap (mapping ?m) p)
        (\<lambda>old. if old \<noteq> MaxFilePageId then AddFreeFilePage ?T old else Some ?T) = Some to_free"
      using tf False opts(1) by simp
    then obtain old where old: "ToFilePage heap (mapping ?m) p = Some old"
      "(if old \<noteq> MaxFilePageId then AddFreeFilePage ?T old else Some ?T) = Some to_free" by (rule bind_SomeE)
    show ?thesis
    proof (cases "old = MaxFilePageId")
      case c: False
      then show ?thesis using ToFilePage_view [OF opts(2) False old(1) c] old(2) q by (simp add: AddFreeFilePage_def)
    qed (use old(2) in simp)
  qed (use tf in simp)
  have fresh: "fp \<notin> ran ?V" "fp \<notin> set ?T" "fp \<notin> R" using a'(3) x(3,7) by auto
  obtain olds where olds: "to_free = ?T @ olds" "distinct olds" "set olds \<subseteq> set_option (?V q)" "set olds \<subseteq> ran ?V"
    using T ranI [of ?V q] by (auto intro: that [of "[]"] that)
  have "set ?T \<inter> ran ?V = {}" "R \<inter> ran ?V = {}" "R \<inter> set ?T = {}" "ran ?V \<subseteq> pooled_live x" "set ?T \<subseteq> pooled_live x"
    using x(7,9,10) by auto
  then have T': "distinct to_free" "set to_free \<subseteq> pooled_live a'" "R \<inter> set to_free = {}"
    "set to_free \<inter> ran (?V(q \<mapsto> fp)) = {}"
    using olds x(8) a'(4) fresh unfolding ran_upd_inj [OF x(6)] by auto
  show "task_ok heap A R wt'"
  proof (rule task_okI [of m2 a' A R heap to_free])
    show "inj_on (table_view heap (mapping m2)) (dom (table_view heap (mapping m2)))"
      unfolding v(2) by (rule inj_map_upd [OF x(6) fresh(1)])
    show "ran (table_view heap (mapping m2)) \<union> set to_free \<subseteq> pooled_live a'"
      using T'(2) x(7) a'(4) unfolding v(2) ran_upd_inj [OF x(6)] by auto
    show "(set to_free \<union> R) \<inter> ran (table_view heap (mapping m2)) = {}"
      using T'(4) x(9) fresh(3) unfolding v(2) ran_upd_inj [OF x(6)] by auto
    show "A \<union> R \<subseteq> pooled_live a'" using x(3) a'(4) by auto
  qed (use v a'(2) x(5) T' wt' in simp_all)
qed

lemma FreePage_ok:
  assumes t: "task_ok heap A R wt" and f: "WriteTask_FreePage opts al heap p wt = Some wt'"
    and p: "p \<in> live_pages (mapper (cow_meta wt))" and opts: "\<not> data_append_mode opts" "heap_ok heap"
  shows "task_ok heap A R wt'"
proof -
  let ?m = "mapper (cow_meta wt)" and ?T = "old_to_free (cow_meta wt)"
  let ?V = "table_view heap (mapping ?m)"
  obtain x where x: "file_page_allocator ?m = PooledMode x" "pooled_inv x" "A \<union> R \<subseteq> pooled_live x" "mapper_inv ?m"
    "\<not> under_copying (mapping ?m)" "inj_on ?V (dom ?V)" "ran ?V \<union> set ?T \<subseteq> pooled_live x" "distinct ?T"
    "(set ?T \<union> R) \<inter> ran ?V = {}" "R \<inter> set ?T = {}"
    using t by (auto simp: task_ok_def)
  obtain fp to_free m wal where fp: "ToFilePage heap (mapping ?m) p = Some fp" "AddFreeFilePage ?T fp = Some to_free"
    and m: "FreePage ?m p = Some m"
    and wt': "wt' = wt\<lparr>cow_meta := (cow_meta wt)\<lparr>mapper := m, old_to_free := to_free\<rparr>, wal_builder := wal\<rparr>"
    using f opts(1) by (auto simp: WriteTask_FreePage_def Let_def bind_eq_Some_conv)
  have "p \<noteq> MaxPageId" using live_page_small [OF x(4) p] unat_MaxPageId by auto
  then have V: "?V p = Some fp" "to_free = ?T @ [fp]"
    using ToFilePage_view [OF opts(2) _ fp(1)] fp(2) by (auto simp: AddFreeFilePage_def split: if_splits)
  then have r: "fp \<in> ran ?V" by (auto intro: ranI)
  have v: "mapper_inv m" "table_view heap (mapping m) = ?V(p := None)" "\<not> under_copying (mapping m)"
    "file_page_allocator m = PooledMode x"
    using FreePage_live [OF x(4) p] m FreePage_view [OF x(4) p m] FreePage_frame(3,4) [OF x(4) p m] x(1,5) by auto
  show ?thesis
  proof (rule task_okI [of m x A R heap to_free])
    show "inj_on (table_view heap (mapping m)) (dom (table_view heap (mapping m)))"
      unfolding v(2) by (rule inj_map_del [OF x(6)])
    show "ran (table_view heap (mapping m)) \<union> set to_free \<subseteq> pooled_live x"
      using x(7) r V(2) unfolding v(2) ran_del_inj [OF x(6)] by auto
    show "(set to_free \<union> R) \<inter> ran (table_view heap (mapping m)) = {}"
      using x(9) V unfolding v(2) ran_del_inj [OF x(6)] by auto
    show "distinct to_free" "R \<inter> set to_free = {}" using x(8-10) V(2) r by auto
  qed (use v x(2,3) wt' in simp_all)
qed

lemma write_step_ok:
  assumes "write_step opts al heap tbl (wt, io) (wt', io')" and t: "task_ok heap A R wt" and left: "pool_ids_left wt"
    and opts: "\<not> data_append_mode opts" "heap_ok heap"
  shows "task_ok heap A R wt'"
  using assms(1)
proof (cases rule: write_step.cases)
  case (allocate_page p r)
  obtain q fp where "r = (q, fp)" by (cases r)
  then show ?thesis using AllocatePage_ok(1) [OF t _ allocate_page(2) left opts] allocate_page(1) by blast
next
  case (free_page p)
  then show ?thesis using FreePage_ok [OF t _ _ opts] by blast
next
  case (ensure_segments arena)
  then show ?thesis using t by (auto simp: task_ok_def EnsureSegmentMapper_def Let_def split: option.splits)
next
  case (allocate_segment p r sm)
  obtain m2 p' fp l where "wt' = RecordSegmentMappingUpdate p' fp
        (wt\<lparr>cow_meta := (cow_meta wt)\<lparr>segment_mapper := Some m2\<rparr>, last_seen_segment_file_id := l\<rparr>)"
    by (rule AllocateSegment_parts [OF allocate_segment(1)])
  then show ?thesis using t by (simp add: task_ok_def RecordSegmentMappingUpdate_def)
next
  case (free_segment p sm)
  obtain m2 where "wt' = RecordSegmentMappingDelete p (wt\<lparr>cow_meta := (cow_meta wt)\<lparr>segment_mapper := Some m2\<rparr>\<rparr>)"
    using free_segment(2,3) by (auto simp: FreeSegment_def bind_eq_Some_conv)
  then show ?thesis using t by (simp add: task_ok_def RecordSegmentMappingDelete_def)
qed (use t in \<open>simp_all add: task_ok_def\<close>)

section \<open>The invariant\<close>

definition all_pages :: "Partition \<Rightarrow> FilePageId set" where
  "all_pages p = \<Union> (ran ` sn_view ` ran (snapshots p))"

definition all_frees :: "Partition \<Rightarrow> FilePageId set" where
  "all_frees p = \<Union> (set ` to_free_file_pages ` ran (snapshots p))"

definition chain_ok :: "Partition \<Rightarrow> bool" where
  "chain_ok p \<longleftrightarrow> (\<exists>lo \<le> meta_snapshot p. dom (snapshots p) = {lo..meta_snapshot p})
    \<and> set (readers p) \<subseteq> dom (snapshots p)
    \<and> (\<forall>i s. snapshots p i = Some s \<longrightarrow> next_snapshot s = (if i = meta_snapshot p then None else Some (Suc i)))"

definition frees_ok :: "Partition \<Rightarrow> bool" where
  "frees_ok p \<longleftrightarrow> (\<forall>i s. snapshots p i = Some s \<longrightarrow> distinct (to_free_file_pages s)
      \<and> (i = meta_snapshot p \<longrightarrow> to_free_file_pages s = [])
      \<and> (\<forall>j s'. snapshots p j = Some s' \<longrightarrow> i < j \<longrightarrow>
           set (to_free_file_pages s) \<inter> (ran (sn_view s') \<union> set (to_free_file_pages s')) = {}))"

definition meta_ok :: "page_heap \<Rightarrow> Partition \<Rightarrow> bool" where
  "meta_ok heap p \<longleftrightarrow>
    (\<exists>a s. file_page_allocator (mapper (meta p)) = PooledMode a \<and> pooled_inv a
      \<and> all_pages p \<union> all_frees p \<subseteq> pooled_live a
      \<and> mapper_inv (mapper (meta p)) \<and> \<not> under_copying (mapping (mapper (meta p)))
      \<and> snapshots p (meta_snapshot p) = Some s \<and> sn_view s = table_view heap (mapping (mapper (meta p)))
      \<and> inj_on (sn_view s) (dom (sn_view s)))"

definition cow_inv :: "page_heap \<Rightarrow> Partition \<Rightarrow> bool" where
  "cow_inv heap p \<longleftrightarrow> chain_ok p \<and> frees_ok p \<and> meta_ok heap p
    \<and> (\<forall>wt. writer p = Some wt \<longrightarrow> task_ok heap (all_pages p) (all_frees p) wt)"

lemma all_pages_mem: "snapshots p i = Some s \<Longrightarrow> f \<in> ran (sn_view s) \<Longrightarrow> f \<in> all_pages p"
  by (auto simp: all_pages_def intro: ranI)

lemma all_frees_mem: "snapshots p i = Some s \<Longrightarrow> f \<in> set (to_free_file_pages s) \<Longrightarrow> f \<in> all_frees p"
  by (auto simp: all_frees_def intro: ranI)

lemma copy_mapper_view:
  assumes m: "mapper_inv m" "\<not> under_copying (mapping m)" and h: "heap_ok heap"
    and c: "copy_mapper heap m = Some (m1, m2)"
  shows "mapper_inv m1" "mapper_inv m2" "\<not> under_copying (mapping m1)" "\<not> under_copying (mapping m2)"
    "file_page_allocator m1 = file_page_allocator m" "file_page_allocator m2 = file_page_allocator m"
    "table_view heap (mapping m1) = table_view heap (mapping m)" "table_view heap (mapping m2) = table_view heap (mapping m)"
proof -
  have "\<forall>k. \<forall>p\<in>fst ` set (quiet_env k). p \<in> ({} :: PageId set)" by (simp add: quiet_env_def)
  from PageMapper_copy_ok [OF m this, of "\<lambda>_. heap"] c
  have r: "mapper_inv m1" "mapper_inv m2" "\<not> under_copying (mapping m1)" "\<not> under_copying (mapping m2)"
    "file_page_allocator m1 = file_page_allocator m" "file_page_allocator m2 = file_page_allocator m"
    "\<forall>p. tbl_Get (mapping m1) p = tbl_Get (mapping m) p"
    "\<forall>p. tbl_Get (mapping m2) p = tbl_Get (mapping m1) p
        \<or> tbl_Get (mapping m2) p = map_option (copy_value heap) (tbl_Get (mapping m1) p)"
    unfolding copy_mapper_def by auto
  have cv: "value_page (serialized_value heap (copy_value heap v)) = value_page (serialized_value heap v)" for v
    using h by (auto simp: copy_value_def serialized_value_def heap_ok_def IsSwizzlingPointer_def EncodeFilePageId_tag(1))
  show "mapper_inv m1" "mapper_inv m2" "\<not> under_copying (mapping m1)" "\<not> under_copying (mapping m2)"
    "file_page_allocator m1 = file_page_allocator m" "file_page_allocator m2 = file_page_allocator m" by fact+
  show v1: "table_view heap (mapping m1) = table_view heap (mapping m)" using r(7) by (simp add: fun_eq_iff table_view_def)
  have "table_view heap (mapping m2) q = table_view heap (mapping m1) q" for q
    using r(8) [rule_format, of q] cv by (cases "tbl_Get (mapping m1) q") (auto simp: table_view_def)
  then show "table_view heap (mapping m2) = table_view heap (mapping m)" using v1 by (simp add: fun_eq_iff)
qed

lemma chain_le: "chain_ok p \<Longrightarrow> snapshots p i = Some s \<Longrightarrow> i \<le> meta_snapshot p"
  unfolding chain_ok_def by (metis atLeastAtMost_iff domI)

lemma begin_write_inv:
  assumes inv: "cow_inv heap p" and m: "MakeCowRoot al heap p = Some p'" and h: "heap_ok heap"
  shows "cow_inv heap p'"
proof -
  obtain a s where a: "file_page_allocator (mapper (meta p)) = PooledMode a" "pooled_inv a"
    "all_pages p \<union> all_frees p \<subseteq> pooled_live a" "mapper_inv (mapper (meta p))" "\<not> under_copying (mapping (mapper (meta p)))"
    "snapshots p (meta_snapshot p) = Some s" "sn_view s = table_view heap (mapping (mapper (meta p)))"
    "inj_on (sn_view s) (dom (sn_view s))"
    using inv by (auto simp: cow_inv_def meta_ok_def)
  have f: "frees_ok p" "chain_ok p" using inv by (auto simp: cow_inv_def)
  obtain m1 m2 seg new_seg where c: "copy_mapper heap (mapper (meta p)) = Some (m1, m2)"
    and p': "p' = p\<lparr>meta := (meta p)\<lparr>mapper := m1, segment_mapper := seg\<rparr>,
       writer := Some \<lparr>cow_meta = (CowRootMeta_new m2)
           \<lparr>root_id := root_id (meta p), ttl_root_id := ttl_root_id (meta p), segment_mapper := new_seg,
            manifest_size := manifest_size (meta p), old_to_free := to_free_file_pages s,
            next_expire_ts := next_expire_ts (meta p), compression := compression (meta p)\<rparr>,
         wal_builder = ManifestBuilder_new al, seg_mapping_deltas = [], last_seen_segment_file_id = None\<rparr>\<rparr>"
    using m a(6) unfolding MakeCowRoot_def Let_def by (auto simp: bind_eq_Some_conv)
  note v = copy_mapper_view [OF a(4,5) h c]
  have sp: "snapshots p' = snapshots p" "meta_snapshot p' = meta_snapshot p" "readers p' = readers p"
    "mapper (meta p') = m1" by (simp_all add: p')
  have ap: "all_pages p' = all_pages p" "all_frees p' = all_frees p" by (simp_all add: all_pages_def all_frees_def sp)
  have s0: "to_free_file_pages s = []" using f(1) a(6) by (auto simp: frees_ok_def)
  have dis: "all_frees p \<inter> ran (sn_view s) = {}"
  proof -
    have "set (to_free_file_pages t) \<inter> ran (sn_view s) = {}" if t: "snapshots p i = Some t" for i t
    proof (cases "i = meta_snapshot p")
      case True
      then show ?thesis using t a(6) s0 by simp
    next
      case False
      then have "i < meta_snapshot p" using chain_le [OF f(2) t] by simp
      then show ?thesis using f(1) t a(6) unfolding frees_ok_def by blast
    qed
    then show ?thesis by (auto simp: all_frees_def ran_def)
  qed
  have "meta_ok heap p'" unfolding meta_ok_def sp ap using a v by auto
  moreover have "task_ok heap (all_pages p') (all_frees p') wt" if "writer p' = Some wt" for wt
  proof (rule task_okI [of m2 a])
    show "mapper (cow_meta wt) = m2" "old_to_free (cow_meta wt) = []" using that s0 by (auto simp: p' CowRootMeta_new_def)
    show "ran (table_view heap (mapping m2)) \<union> set [] \<subseteq> pooled_live a"
      using a(3,7) v(8) all_pages_mem [OF a(6)] by auto
  qed (use a v ap dis in simp_all)
  ultimately show ?thesis using f unfolding cow_inv_def frees_ok_def chain_ok_def sp by blast
qed

lemma Pooled_Free_all:
  "pooled_inv a \<Longrightarrow> distinct fs \<Longrightarrow> set fs \<subseteq> pooled_live a \<Longrightarrow>
    pooled_inv (Pooled_Free a fs) \<and> pooled_live (Pooled_Free a fs) = pooled_live a - set fs"
proof (induction fs arbitrary: a)
  case Nil
  then show ?case by (simp add: Pooled_Free_def)
next
  case (Cons f fs)
  have e: "Pooled_Free a (f # fs) = Pooled_Free (Pooled_Free a [f]) fs" by (simp add: Pooled_Free_def)
  note l = Pooled_Free_live [OF Cons.prems(1), of f]
  have "set fs \<subseteq> pooled_live (Pooled_Free a [f])" using Cons.prems l(2) by auto
  then show ?case unfolding e using Cons.IH [of "Pooled_Free a [f]"] Cons.prems l by auto
qed

lemma destroyed_oldest:
  assumes inv: "cow_inv heap p" and r: "\<not> referenced p i" and t: "snapshots p i = Some t" and j: "snapshots p j = Some u"
  shows "i \<le> j"
proof (rule ccontr)
  assume "\<not> i \<le> j"
  then obtain k where k: "i = Suc k" "j \<le> k" by (cases i) auto
  obtain lo where lo: "dom (snapshots p) = {lo..meta_snapshot p}" using inv by (auto simp: cow_inv_def chain_ok_def)
  have "k \<in> dom (snapshots p)" using lo k t j by (metis Suc_leD atLeastAtMost_iff domI le_trans)
  then obtain v where v: "snapshots p k = Some v" by blast
  have "k \<noteq> meta_snapshot p" using lo k(1) t by (metis Suc_n_not_le_n atLeastAtMost_iff domI)
  then have "next_snapshot v = Some i" using inv v k(1) by (auto simp: cow_inv_def chain_ok_def)
  then show False using r v by (auto simp: referenced_def)
qed

lemma destroy_inv:
  assumes inv: "cow_inv heap p" and r: "\<not> referenced p i" and f: "FreeMappingSnapshot opts i p = Some p'"
  shows "cow_inv heap p'"
proof -
  obtain a s where a: "file_page_allocator (mapper (meta p)) = PooledMode a" "pooled_inv a"
    "all_pages p \<union> all_frees p \<subseteq> pooled_live a" "mapper_inv (mapper (meta p))" "\<not> under_copying (mapping (mapper (meta p)))"
    "snapshots p (meta_snapshot p) = Some s" "sn_view s = table_view heap (mapping (mapper (meta p)))"
    "inj_on (sn_view s) (dom (sn_view s))"
    using inv by (auto simp: cow_inv_def meta_ok_def)
  have c: "frees_ok p" "chain_ok p" using inv by (auto simp: cow_inv_def)
  then obtain lo where lo: "lo \<le> meta_snapshot p" "dom (snapshots p) = {lo..meta_snapshot p}" by (auto simp: chain_ok_def)
  obtain t where t: "snapshots p i = Some t" using f by (auto simp: FreeMappingSnapshot_def bind_eq_Some_conv)
  let ?fs = "to_free_file_pages t"
  have i: "i = lo"
  proof -
    have "lo \<in> dom (snapshots p)" using lo by simp
    then obtain u where "snapshots p lo = Some u" by blast
    then have "i \<le> lo" by (rule destroyed_oldest [OF inv r t])
    moreover have "lo \<le> i" using lo(2) t by (metis atLeastAtMost_iff domI)
    ultimately show ?thesis by simp
  qed
  have ne: "i \<noteq> meta_snapshot p" "i \<notin> set (readers p)" using r by (auto simp: referenced_def)
  have d: "distinct ?fs" "set ?fs \<subseteq> pooled_live a" using c(1) t a(3) all_frees_mem [OF t] by (auto simp: frees_ok_def)
  note pf = Pooled_Free_all [OF a(2) d]
  have e: "Pooled_Free a [] = a" by (simp add: Pooled_Free_def)
  define m where "m = (if ?fs \<noteq> [] then (mapper (meta p))\<lparr>file_page_allocator := PooledMode (Pooled_Free a ?fs)\<rparr>
      else mapper (meta p))"
  have m: "file_page_allocator m = PooledMode (Pooled_Free a ?fs)" "mapper_inv m" "mapping m = mapping (mapper (meta p))"
    using a(1,4) e by (simp_all add: m_def)
  have p': "p' = p\<lparr>snapshots := (snapshots p)(i := None), meta := (meta p)\<lparr>mapper := m\<rparr>\<rparr>"
    using f t a(1) by (auto simp: FreeMappingSnapshot_def bind_eq_Some_conv m_def split: if_splits)
  have sp: "snapshots p' = (snapshots p)(i := None)" "meta_snapshot p' = meta_snapshot p" "readers p' = readers p"
    "mapper (meta p') = m" "writer p' = writer p" by (simp_all add: p')
  have later: "set ?fs \<inter> (ran (sn_view u) \<union> set (to_free_file_pages u)) = {}" if "snapshots p' j = Some u" for j u
  proof -
    have j: "snapshots p j = Some u" "j \<noteq> i" using that sp(1) by (auto split: if_splits)
    then have "j \<in> {lo..meta_snapshot p}" using lo(2) by blast
    then have "i < j" using j(2) i by simp
    then show ?thesis using c(1) t j(1) unfolding frees_ok_def by blast
  qed
  have sub: "all_pages p' \<subseteq> all_pages p" "all_frees p' \<subseteq> all_frees p"
    by (auto simp: all_pages_def all_frees_def sp(1) ran_def split: if_splits)
  have "(all_pages p' \<union> all_frees p') \<inter> set ?fs = {}"
    using later by (fastforce simp: all_pages_def all_frees_def ran_def)
  then have live: "all_pages p' \<union> all_frees p' \<subseteq> pooled_live (Pooled_Free a ?fs)" using sub a(3) pf by auto
  have "meta_ok heap p'" unfolding meta_ok_def sp using a(5-8) m pf live ne(1) by (intro exI [of _ "Pooled_Free a ?fs"]) auto
  moreover have "chain_ok p'"
  proof -
    have d: "dom (snapshots p') = {Suc lo..meta_snapshot p}" using lo sp(1) i by auto
    have l: "Suc lo \<le> meta_snapshot p" using lo(1) i ne(1) by simp
    have r: "set (readers p) \<subseteq> {Suc lo..meta_snapshot p}"
    proof
      fix x assume x: "x \<in> set (readers p)"
      then have "x \<in> {lo..meta_snapshot p}" using c(2) lo(2) by (auto simp: chain_ok_def)
      then show "x \<in> {Suc lo..meta_snapshot p}" using x ne(2) i by (cases "x = lo") auto
    qed
    have "next_snapshot u = (if j = meta_snapshot p then None else Some (Suc j))" if "snapshots p' j = Some u" for j u
      using c(2) that sp(1) unfolding chain_ok_def by (metis fun_upd_apply option.distinct(1))
    then show ?thesis unfolding chain_ok_def sp(2,3) d using l r by blast
  qed
  moreover have "frees_ok p'" using c(1) unfolding frees_ok_def sp by (auto split: if_splits)
  moreover have "task_ok heap (all_pages p') (all_frees p') wt" if "writer p' = Some wt" for wt
  proof -
    have "task_ok heap (all_pages p) (all_frees p) wt" using inv that sp(5) by (auto simp: cow_inv_def)
    then show ?thesis using sub unfolding task_ok_def by (elim exE) (intro exI, auto)
  qed
  ultimately show ?thesis by (auto simp: cow_inv_def)
qed

lemma UpdateRoot_parts:
  assumes u: "UpdateRoot opts heap p = Some p'" and opts: "\<not> data_append_mode opts"
  obtains wt prev where "writer p = Some wt" "snapshots p (meta_snapshot p) = Some prev"
    "snapshots p' = (snapshots p)
      (meta_snapshot p \<mapsto> prev\<lparr>to_free_file_pages := old_to_free (cow_meta wt), next_snapshot := Some (Suc (meta_snapshot p))\<rparr>,
       Suc (meta_snapshot p) \<mapsto> \<lparr>sn_view = table_view heap (mapping (mapper (cow_meta wt))), to_free_file_pages = [], next_snapshot = None\<rparr>)"
    "meta_snapshot p' = Suc (meta_snapshot p)" "readers p' = readers p" "mapper (meta p') = mapper (cow_meta wt)" "writer p' = None"
    "all_pages p' \<subseteq> all_pages p \<union> ran (table_view heap (mapping (mapper (cow_meta wt))))"
    "all_frees p' \<subseteq> all_frees p \<union> set (old_to_free (cow_meta wt))"
proof -
  let ?n = "meta_snapshot p"
  obtain wt prev where wt: "writer p = Some wt" "snapshots p ?n = Some prev"
    using u by (auto simp: UpdateRoot_def bind_eq_Some_conv)
  let ?V = "table_view heap (mapping (mapper (cow_meta wt)))" and ?T = "old_to_free (cow_meta wt)"
  have sp: "snapshots p' = (snapshots p)(?n \<mapsto> prev\<lparr>to_free_file_pages := ?T, next_snapshot := Some (Suc ?n)\<rparr>,
      Suc ?n \<mapsto> \<lparr>sn_view = ?V, to_free_file_pages = [], next_snapshot = None\<rparr>)" "meta_snapshot p' = Suc ?n"
    "readers p' = readers p" "mapper (meta p') = mapper (cow_meta wt)" "writer p' = None"
    using u wt opts by (auto simp: UpdateRoot_def Let_def)
  have "ran (sn_view s) \<subseteq> all_pages p \<union> ran ?V \<and> set (to_free_file_pages s) \<subseteq> all_frees p \<union> set ?T"
    if "snapshots p' i = Some s" for i s
  proof (cases "i = ?n \<or> i = Suc ?n")
    case True
    then show ?thesis using that all_pages_mem [OF wt(2)] unfolding sp(1) by (auto split: if_splits)
  next
    case False
    then have "snapshots p i = Some s" using that by (simp add: sp(1))
    then show ?thesis using all_pages_mem all_frees_mem by blast
  qed
  then have "all_pages p' \<subseteq> all_pages p \<union> ran ?V" "all_frees p' \<subseteq> all_frees p \<union> set ?T"
    unfolding all_pages_def [of p'] all_frees_def [of p'] ran_def [of "snapshots p'"] by blast+
  with wt sp show thesis by (rule that)
qed

lemma commit_inv:
  assumes inv: "cow_inv heap p" and u: "UpdateRoot opts heap p = Some p'" and opts: "\<not> data_append_mode opts"
  shows "cow_inv heap p'"
proof -
  let ?n = "meta_snapshot p"
  have c: "frees_ok p" "chain_ok p" using inv by (auto simp: cow_inv_def)
  then obtain lo where lo: "lo \<le> ?n" "dom (snapshots p) = {lo..?n}" by (auto simp: chain_ok_def)
  obtain wt prev where wt: "writer p = Some wt" and prev: "snapshots p ?n = Some prev"
    and ss: "snapshots p' = (snapshots p)
      (?n \<mapsto> prev\<lparr>to_free_file_pages := old_to_free (cow_meta wt), next_snapshot := Some (Suc ?n)\<rparr>,
       Suc ?n \<mapsto> \<lparr>sn_view = table_view heap (mapping (mapper (cow_meta wt))), to_free_file_pages = [], next_snapshot = None\<rparr>)"
    and rest: "meta_snapshot p' = Suc ?n" "readers p' = readers p" "mapper (meta p') = mapper (cow_meta wt)" "writer p' = None"
    and pages: "all_pages p' \<subseteq> all_pages p \<union> ran (table_view heap (mapping (mapper (cow_meta wt))))"
      "all_frees p' \<subseteq> all_frees p \<union> set (old_to_free (cow_meta wt))"
    by (rule UpdateRoot_parts [OF u opts])
  let ?m = "mapper (cow_meta wt)" and ?T = "old_to_free (cow_meta wt)"
  let ?V = "table_view heap (mapping ?m)"
  obtain a where a: "file_page_allocator ?m = PooledMode a" "pooled_inv a" "all_pages p \<union> all_frees p \<subseteq> pooled_live a"
    "mapper_inv ?m" "\<not> under_copying (mapping ?m)" "inj_on ?V (dom ?V)" "ran ?V \<union> set ?T \<subseteq> pooled_live a" "distinct ?T"
    "(set ?T \<union> all_frees p) \<inter> ran ?V = {}" "all_frees p \<inter> set ?T = {}"
    using inv wt by (auto simp: cow_inv_def task_ok_def)
  define prev' where "prev' = prev\<lparr>to_free_file_pages := ?T, next_snapshot := Some (Suc ?n)\<rparr>"
  define snap where "snap = \<lparr>sn_view = ?V, to_free_file_pages = [], next_snapshot = None\<rparr>"
  have sp: "snapshots p' = (snapshots p)(?n \<mapsto> prev', Suc ?n \<mapsto> snap)" "meta_snapshot p' = Suc ?n"
    "readers p' = readers p" "mapper (meta p') = ?m" "writer p' = None"
    using ss rest by (simp_all add: prev'_def snap_def)
  have old: "snapshots p' i = Some s \<Longrightarrow> i \<noteq> ?n \<Longrightarrow> i \<noteq> Suc ?n \<Longrightarrow> snapshots p i = Some s \<and> i < ?n" for i s
    using sp(1) chain_le [OF c(2), of i s] by auto
  have fin: "snapshots p' i = Some s \<Longrightarrow>
      i = ?n \<and> s = prev' \<or> i = Suc ?n \<and> s = snap \<or> i < ?n \<and> snapshots p i = Some s" for i s
    using old [of i s] sp(1) by (auto split: if_splits)
  have "meta_ok heap p'"
    unfolding meta_ok_def sp(4) using a pages sp(1,2)
    by (intro exI [of _ a] exI [of _ snap]) (auto simp: snap_def)
  moreover have "chain_ok p'"
  proof -
    have d: "dom (snapshots p') = {lo..Suc ?n}" using lo sp(1) by (auto simp: atLeastAtMostSuc_conv)
    have "next_snapshot s = Some (Suc i)" if "snapshots p i = Some s" "i < ?n" for i s
      using c(2) that by (auto simp: chain_ok_def)
    then have "next_snapshot s = (if i = Suc ?n then None else Some (Suc i))" if "snapshots p' i = Some s" for i s
      using fin [OF that] by (auto simp: prev'_def snap_def)
    moreover have "set (readers p) \<subseteq> {lo..Suc ?n}" using c(2) lo(2) by (auto simp: chain_ok_def)
    ultimately show ?thesis using lo(1) d unfolding chain_ok_def sp(2,3) by (intro conjI exI [of _ lo]) auto
  qed
  moreover have "frees_ok p'"
    unfolding frees_ok_def sp(2)
  proof (intro allI impI conjI)
    fix i s assume s: "snapshots p' i = Some s"
    show "distinct (to_free_file_pages s)"
      using fin [OF s] a(8) c(1) by (auto simp: prev'_def snap_def frees_ok_def)
    show "i = Suc ?n \<Longrightarrow> to_free_file_pages s = []" using fin [OF s] by (auto simp: snap_def)
    fix j s' assume s': "snapshots p' j = Some s'" and ij: "i < j"
    show "set (to_free_file_pages s) \<inter> (ran (sn_view s') \<union> set (to_free_file_pages s')) = {}"
    proof (cases "j < ?n")
      case True
      then have "snapshots p i = Some s" "snapshots p j = Some s'" using fin [OF s] fin [OF s'] ij by auto
      then show ?thesis using c(1) ij unfolding frees_ok_def by blast
    next
      case False
      show ?thesis
      proof (cases "i = ?n")
        case True
        then have "s = prev'" "s' = snap" using fin [OF s] fin [OF s'] ij by auto
        then show ?thesis using a(9) by (auto simp: prev'_def snap_def)
      next
        case i: False
        then have i: "snapshots p i = Some s" "i < ?n" using fin [OF s] fin [OF s'] ij by auto
        have "set (to_free_file_pages s) \<inter> ran (sn_view prev) = {}" using c(1) i prev unfolding frees_ok_def by blast
        moreover have "set (to_free_file_pages s) \<subseteq> all_frees p" using all_frees_mem [OF i(1)] by auto
        moreover have "s' = prev' \<or> s' = snap" using fin [OF s'] False by auto
        ultimately show ?thesis using a(9,10) by (auto simp: prev'_def snap_def)
      qed
    qed
  qed
  ultimately show ?thesis using sp(5) by (simp add: cow_inv_def)
qed

lemma abort_inv:
  assumes inv: "cow_inv heap p" and b: "Abort p = Some p'"
  shows "cow_inv heap p'"
proof -
  obtain s where s: "snapshots p (meta_snapshot p) = Some s"
    and p': "p' = p\<lparr>snapshots := (snapshots p)(meta_snapshot p \<mapsto> s\<lparr>to_free_file_pages := []\<rparr>), writer := None\<rparr>"
    using b by (auto simp: Abort_def bind_eq_Some_conv)
  have "to_free_file_pages s = []" using inv s by (auto simp: cow_inv_def frees_ok_def)
  then have "s\<lparr>to_free_file_pages := []\<rparr> = s" by (cases s) simp
  then have "p' = p\<lparr>writer := None\<rparr>" using s p' by (simp add: fun_upd_idem)
  then show ?thesis using inv
    by (simp add: cow_inv_def chain_ok_def frees_ok_def meta_ok_def all_pages_def all_frees_def)
qed

lemma cow_step_inv:
  assumes "cow_step opts al heap tbl p p'" and inv: "cow_inv heap p" and opts: "\<not> data_append_mode opts" "heap_ok heap"
  shows "cow_inv heap p'"
  using assms(1)
proof (cases rule: cow_step.cases)
  case begin_read
  then show ?thesis using inv
    by (auto simp: cow_inv_def chain_ok_def frees_ok_def meta_ok_def all_pages_def all_frees_def)
next
  case (end_read i)
  have "set (remove1 i (readers p)) \<subseteq> set (readers p)" by (rule set_remove1_subset)
  then show ?thesis using inv end_read
    by (auto simp: cow_inv_def chain_ok_def frees_ok_def meta_ok_def all_pages_def all_frees_def)
next
  case begin_write
  then show ?thesis using begin_write_inv [OF inv _ opts(2)] by blast
next
  case (write_op wt wt' io')
  have t: "task_ok heap (all_pages p) (all_frees p) wt" using inv write_op(2) by (auto simp: cow_inv_def)
  have "task_ok heap (all_pages p) (all_frees p) wt'" by (rule write_step_ok [OF write_op(4) t write_op(3) opts])
  then show ?thesis using inv write_op(1)
    by (auto simp: cow_inv_def chain_ok_def frees_ok_def meta_ok_def all_pages_def all_frees_def)
next
  case commit
  then show ?thesis using commit_inv [OF inv _ opts(1)] by blast
next
  case (abort wt)
  then show ?thesis using abort_inv [OF inv] by blast
next
  case (destroy i)
  then show ?thesis using destroy_inv [OF inv] by blast
qed

lemma cow_steps_inv:
  "(cow_step opts al heap tbl)\<^sup>*\<^sup>* p p' \<Longrightarrow> cow_inv heap p \<Longrightarrow> \<not> data_append_mode opts \<Longrightarrow> heap_ok heap \<Longrightarrow> cow_inv heap p'"
  by (induction rule: rtranclp_induct) (auto dest: cow_step_inv)

end
