(* ===== verification/Write_Props.thy ===== *)
theory Write_Props
  imports Write_Task_Correct
begin

text \<open>
  Commits are atomic: whatever the calls of a commit return, and wherever the process is killed, a
  restart finds the partition as it was before the commit or as the task left it.
\<close>

declare InvalidValue_def [simp del]

section \<open>What a restart finds\<close>

record partition_view =
  pv_root :: PageId
  pv_ttl :: PageId
  pv_pages :: "PageId \<Rightarrow> FilePageId option"
  pv_max_fp :: FilePageId
  pv_segments :: "PageId \<Rightarrow> FilePageId option"
  pv_max_seg :: FilePageId
  pv_dict :: bytes
  pv_md :: BranchManifestMetadata

definition replay_view :: "Replayer \<Rightarrow> partition_view" where
  "replay_view r =
    \<lparr>pv_root = Replayer.root r, pv_ttl = ttl_root r, pv_pages = list_view (tbl_list (mapping_tbl r)), pv_max_fp = max_fp_id r,
     pv_segments = list_view (tbl_list (segment_mapping_tbl r)), pv_max_seg = max_segment_fp_id r,
     pv_dict = dict_bytes r, pv_md = branch_metadata r\<rparr>"

definition restart_view :: "nat \<Rightarrow> (bytes \<Rightarrow> uint64) \<Rightarrow> bytes option \<Rightarrow> partition_view option" where
  "restart_view al hash manifest_file =
    (case manifest_file of
       None \<Rightarrow> None
     | Some content \<Rightarrow>
        (case Replay al hash content Replayer_new of
           Some (NoError, r) \<Rightarrow> Some (replay_view r)
         | _ \<Rightarrow> None))"

definition task_view :: "page_heap \<Rightarrow> TableIdent \<Rightarrow> WriteTask \<Rightarrow> IoMgr \<Rightarrow> partition_view" where
  "task_view heap tbl wt io =
    (let cow = cow_meta wt in
     \<lparr>pv_root = root_id cow, pv_ttl = ttl_root_id cow, pv_pages = table_view heap (mapping (mapper cow)),
      pv_max_fp = fpa_MaxFilePageId (file_page_allocator (mapper cow)),
      pv_segments = (case segment_mapper cow of None \<Rightarrow> Map.empty | Some m \<Rightarrow> table_view heap (mapping m)),
      pv_max_seg = max_seg_fp_id cow, pv_dict = task_dict wt, pv_md = branch_metadata_of tbl io\<rparr>)"

definition state_view :: "mstate \<Rightarrow> partition_view" where
  "state_view s =
    \<lparr>pv_root = ms_root s, pv_ttl = ms_ttl s, pv_pages = list_view (ms_values s), pv_max_fp = ms_max_fp s,
     pv_segments = list_view (ms_seg_values s), pv_max_seg = ms_max_seg s, pv_dict = ms_dict s, pv_md = ms_md s\<rparr>"

lemma represents_view: "represents r s \<Longrightarrow> replay_view r = state_view s"
  by (simp add: represents_def replay_view_def state_view_def list_view_table)

lemma restart_view_manifest:
  "is_manifest al hash has_seg s ls bs \<Longrightarrow> restart_view al hash (Some bs) = Some (state_view (foldl apply_log s ls))"
  using Replay_complete [of al hash has_seg s ls bs] by (auto simp: restart_view_def represents_view)

lemma restart_view_partial:
  assumes "is_manifest al hash has_seg s ls bs" "log_fits l"
    "is_record al hash (lr_root l) (lr_ttl l) (log_payload_of l) b" "n \<le> length b"
  shows "restart_view al hash (Some (bs @ take n b)) =
    Some (state_view (foldl apply_log s (if n = length b then ls @ [l] else ls)))"
  using Replay_partial [OF assms] by (auto simp: restart_view_def represents_view)

section \<open>The record of a task\<close>

definition manifest_name :: "IoMgr \<Rightarrow> string" where
  "manifest_name io = BranchManifestFileName (GetActiveBranch io) (ProcessTerm io)"

definition task_starts ::
  "nat \<Rightarrow> (bytes \<Rightarrow> uint64) \<Rightarrow> page_heap \<Rightarrow> IoMgr \<Rightarrow> directory \<Rightarrow> WriteTask \<Rightarrow> bool" where
  "task_starts al hash heap io dir wt \<longleftrightarrow> 0 < al \<and>
    (\<exists>s. task_tracks al heap s wt [] [] \<and>
      (manifest_size (cow_meta wt) > 0 \<longrightarrow>
        (\<exists>has_seg s0 ls bs. is_manifest al hash has_seg s0 ls bs \<and> dir (manifest_name io) = Some bs
          \<and> length bs = manifest_size (cow_meta wt) \<and> s = foldl apply_log s0 ls)))"

text \<open>The lengths of the sections are stored in 32 bits.\<close>

definition manifest_room :: "TableIdent \<Rightarrow> WriteTask \<Rightarrow> IoMgr \<Rightarrow> bool" where
  "manifest_room tbl wt io \<longleftrightarrow> md_fits (branch_metadata_of tbl io)
    \<and> mb_CurrentSize (wal_builder wt) + length (seg_mapping_deltas wt)
      + length (SerializeBranchManifestMetadata (branch_metadata_of tbl io)) + length (task_dict wt)
      + 10 * logical_size (mapping (mapper (cow_meta wt)))
      + (case segment_mapper (cow_meta wt) of None \<Rightarrow> 0 | Some m \<Rightarrow> 10 * logical_size (mapping m)) + 100 < 2 ^ 32"

definition task_log :: "TableIdent \<Rightarrow> WriteTask \<Rightarrow> IoMgr \<Rightarrow> (PageId \<times> uint64) list \<Rightarrow> (PageId \<times> uint64) list \<Rightarrow> log_record" where
  "task_log tbl wt io ds sds =
    \<lparr>lr_root = root_id (cow_meta wt), lr_ttl = ttl_root_id (cow_meta wt), lr_deltas = ds,
     lr_md = branch_metadata_of tbl io, lr_seg_deltas = sds\<rparr>"

lemma length_varints: "length (concat (map EncodeVarint64 vs)) \<le> 10 * length vs"
  by (induction vs) (use Varint64Size_bounds(2) in \<open>auto simp: length_EncodeVarint64 intro: add_mono\<close>)

lemma builder_size: "builder_ok al b ds \<Longrightarrow> length (concat (map enc_delta ds)) \<le> mb_CurrentSize b"
  using length_dio_view [of al "buff b"] by (auto simp: builder_ok_def mb_CurrentSize_def split: if_splits)

lemma task_log_fits:
  assumes t: "task_tracks al heap s wt ds sds" and room: "manifest_room tbl wt io"
  shows "log_fits (task_log tbl wt io ds sds)" "section_fits (log_payload_of (task_log tbl wt io ds sds))"
proof -
  have d: "builder_ok al (wal_builder wt) ds" "deltas_ok ds" "deltas_ok sds"
    "seg_mapping_deltas wt = concat (map enc_delta sds)"
    using t by (auto simp: task_tracks_def mapper_tracks_def segments_track_def deltas_ok_def split: option.splits)
  show "log_fits (task_log tbl wt io ds sds)" "section_fits (log_payload_of (task_log tbl wt io ds sds))"
    using room builder_size [OF d(1)] d(2-4)
    by (auto simp: log_fits_def task_log_def manifest_room_def section_fits_def log_payload_of_def log_payload_def)
qed

lemma task_log_view:
  assumes t: "task_tracks al heap s wt ds sds" and c: "\<not> dict_dirty (compression (cow_meta wt))"
  shows "state_view (apply_log s (task_log tbl wt io ds sds)) = task_view heap tbl wt io"
proof -
  obtain vs m where a: "foldl delta_spec (ms_values s, ms_max_fp s) ds = (vs, m)" by (metis surj_pair)
  obtain svs sm where b: "foldl delta_spec (ms_seg_values s, ms_max_seg s) sds = (svs, sm)" by (metis surj_pair)
  have "list_view vs = table_view heap (mapping (mapper (cow_meta wt)))"
    "m = fpa_MaxFilePageId (file_page_allocator (mapper (cow_meta wt)))"
    using t a list_view_deltas [of "(ms_values s, ms_max_fp s)" ds] by (simp_all add: task_tracks_def mapper_tracks_def)
  moreover have "list_view svs = (case segment_mapper (cow_meta wt) of None \<Rightarrow> Map.empty | Some m \<Rightarrow> table_view heap (mapping m))"
    "sm = max_seg_fp_id (cow_meta wt)"
    using t b list_view_deltas [of "(ms_seg_values s, ms_max_seg s)" sds]
    by (auto simp: task_tracks_def segments_track_def mapper_tracks_def max_seg_fp_id_def split: option.splits)
  ultimately show ?thesis using t c a b
    by (auto simp: state_view_def task_view_def apply_log_def task_log_def Let_def task_tracks_def)
qed

section \<open>The snapshot of a task\<close>

definition task_state :: "page_heap \<Rightarrow> TableIdent \<Rightarrow> WriteTask \<Rightarrow> IoMgr \<Rightarrow> mstate" where
  "task_state heap tbl wt io =
    \<lparr>ms_root = root_id (cow_meta wt), ms_ttl = ttl_root_id (cow_meta wt),
     ms_values = map (serialized_value heap) (tbl_list (mapping (mapper (cow_meta wt)))),
     ms_max_fp = fpa_MaxFilePageId (file_page_allocator (mapper (cow_meta wt))),
     ms_seg_values = map (serialized_value heap)
       (case segment_mapper (cow_meta wt) of None \<Rightarrow> [] | Some m \<Rightarrow> tbl_list (mapping m)),
     ms_max_seg = max_seg_fp_id (cow_meta wt), ms_dict = task_dict wt, ms_md = branch_metadata_of tbl io\<rparr>"

lemma tracks_table: "mapper_tracks heap m s ds \<Longrightarrow> table_is (mapping m) (tbl_list (mapping m))"
  by (simp add: mapper_tracks_def mapper_inv_def table_is_def)

lemma task_state_view:
  assumes "task_tracks al heap s wt ds sds"
  shows "state_view (task_state heap tbl wt io) = task_view heap tbl wt io"
proof -
  have "table_is (mapping (mapper (cow_meta wt))) (tbl_list (mapping (mapper (cow_meta wt))))"
    "\<And>sm. segment_mapper (cow_meta wt) = Some sm \<Longrightarrow> table_is (mapping sm) (tbl_list (mapping sm))"
    using assms tracks_table by (auto simp: task_tracks_def segments_track_def)
  then show ?thesis
    by (auto simp: state_view_def task_state_def task_view_def Let_def table_view_list split: option.splits)
qed

lemma task_snapshot_ok:
  assumes t: "task_tracks al heap s wt ds sds" and room: "manifest_room tbl wt io"
  shows "\<exists>blob b'. mb_Snapshot al hash heap (wal_builder wt) (root_id (cow_meta wt)) (ttl_root_id (cow_meta wt))
        (mapping (mapper (cow_meta wt))) (fpa_MaxFilePageId (file_page_allocator (mapper (cow_meta wt))))
        (task_dict wt) (branch_metadata_of tbl io) (seg_mapping (cow_meta wt)) (max_seg_fp_id (cow_meta wt))
      = Some (blob, b') \<and> (0 < al \<longrightarrow> is_manifest al hash (segment_mapper (cow_meta wt) \<noteq> None) (task_state heap tbl wt io) [] blob)"
proof -
  let ?st = "task_state heap tbl wt io" and ?seg = "seg_mapping (cow_meta wt)"
  have tbl: "table_is (mapping (mapper (cow_meta wt))) (tbl_list (mapping (mapper (cow_meta wt))))"
    using t tracks_table by (auto simp: task_tracks_def)
  have seg: "case ?seg of None \<Rightarrow> (case segment_mapper (cow_meta wt) of None \<Rightarrow> [] | Some m \<Rightarrow> tbl_list (mapping m)) = []
        \<and> max_seg_fp_id (cow_meta wt) = 0
      | Some st \<Rightarrow> table_is st (case segment_mapper (cow_meta wt) of None \<Rightarrow> [] | Some m \<Rightarrow> tbl_list (mapping m))"
    using t tracks_table by (auto simp: task_tracks_def segments_track_def seg_mapping_def max_seg_fp_id_def split: option.splits)
  have s: "length (ms_values ?st) = logical_size (mapping (mapper (cow_meta wt)))"
    "length (ms_seg_values ?st) = (case segment_mapper (cow_meta wt) of None \<Rightarrow> 0 | Some m \<Rightarrow> logical_size (mapping m))"
    "ms_dict ?st = task_dict wt" "ms_md ?st = branch_metadata_of tbl io"
    by (simp_all add: task_state_def split: option.splits)
  note l = length_varints [of "ms_values ?st"] length_varints [of "ms_seg_values ?st"]
  have c: "(case segment_mapper (cow_meta wt) of None \<Rightarrow> 0 | Some m \<Rightarrow> 10 * logical_size (mapping m)) = 10 * length (ms_seg_values ?st)"
    by (simp add: s split: option.splits)
  have sz: "10 * length (ms_values ?st) + 10 * length (ms_seg_values ?st) + length (task_dict wt)
      + length (SerializeBranchManifestMetadata (branch_metadata_of tbl io)) + 100 < 2 ^ 32"
    "md_fits (branch_metadata_of tbl io)"
    using room unfolding manifest_room_def c s(1) by simp_all
  have fits: "snapshot_fits ?st" using sz l by (simp add: snapshot_fits_def section_fits_def s(3,4))
  have v: "length (EncodeVarint64 w) \<le> 10" for w using Varint64Size_bounds(2) by (simp add: length_EncodeVarint64)
  have v32: "length (EncodeVarint32 w) \<le> 10" for w
    using Varint64Size_bounds(2) by (simp add: EncodeVarint32_64 length_EncodeVarint64)
  have pl: "section_fits (snapshot_payload_of (?seg \<noteq> None) ?st)"
    using sz(1) l v [of "ms_max_fp ?st"] v [of "ms_max_seg ?st"] v32 [of "of_nat (length (task_dict wt))"]
    by (simp add: section_fits_def snapshot_payload_of_def snapshot_payload_def s(3,4))
  have se: "(?seg \<noteq> None) = (segment_mapper (cow_meta wt) \<noteq> None)" by (simp add: seg_mapping_def)
  have inv: "dio_inv al (buff (wal_builder wt))" using t by (auto simp: task_tracks_def builder_ok_def)
  obtain blob b' where b: "mb_Snapshot al hash heap (wal_builder wt) (root_id (cow_meta wt)) (ttl_root_id (cow_meta wt))
        (mapping (mapper (cow_meta wt))) (fpa_MaxFilePageId (file_page_allocator (mapper (cow_meta wt))))
        (task_dict wt) (branch_metadata_of tbl io) ?seg (max_seg_fp_id (cow_meta wt)) = Some (blob, b')"
    "is_record al hash (root_id (cow_meta wt)) (ttl_root_id (cow_meta wt)) (snapshot_payload_of (?seg \<noteq> None) ?st) blob"
    using mb_Snapshot_ok [OF inv tbl seg task_state_def pl, of hash] by blast
  have "ms_root ?st = root_id (cow_meta wt)" "ms_ttl ?st = ttl_root_id (cow_meta wt)"
    "segment_mapper (cow_meta wt) = None \<longrightarrow> ms_seg_values ?st = [] \<and> ms_max_seg ?st = 0"
    by (auto simp: task_state_def max_seg_fp_id_def)
  then show ?thesis using b fits unfolding is_manifest_def se by auto
qed

section \<open>Commit\<close>

lemma task_dict_eq: "(if has_dictionary (compression (cow_meta wt)) then dictionary (compression (cow_meta wt)) else []) = task_dict wt"
  by (simp add: task_dict_def)

lemma switch_to_snapshot_ok:
  assumes t: "task_tracks al heap s wt ds sds" and room: "manifest_room tbl wt io" and al: "0 < al"
    and f: "switch_to_snapshot opts al hash heap res (branch_metadata_of tbl io) io wt dir = Some (err, wt', dir')"
  shows "restart_view al hash (dir' (manifest_name io)) = restart_view al hash (dir (manifest_name io))
      \<or> restart_view al hash (dir' (manifest_name io)) = Some (task_view heap tbl wt io)"
    and "err = NoError \<Longrightarrow> restart_view al hash (dir' (manifest_name io)) = Some (task_view heap tbl wt io)"
proof -
  obtain blob b' where b: "mb_Snapshot al hash heap (wal_builder wt) (root_id (cow_meta wt)) (ttl_root_id (cow_meta wt))
        (mapping (mapper (cow_meta wt))) (fpa_MaxFilePageId (file_page_allocator (mapper (cow_meta wt))))
        (task_dict wt) (branch_metadata_of tbl io) (seg_mapping (cow_meta wt)) (max_seg_fp_id (cow_meta wt)) = Some (blob, b')"
    "is_manifest al hash (segment_mapper (cow_meta wt) \<noteq> None) (task_state heap tbl wt io) [] blob"
    using task_snapshot_ok [OF t room, of hash] al by blast
  have new: "restart_view al hash (Some blob) = Some (task_view heap tbl wt io)"
    using restart_view_manifest [OF b(2)] task_state_view [OF t] by simp
  obtain err1 d where sw: "SwitchManifest (non_page_io_batch_size opts) res (GetActiveBranch io) (ProcessTerm io) dir blob = (err1, d)"
    by (metis surj_pair)
  have "err = err1" "dir' = d"
    using f b(1) sw by (auto simp: switch_to_snapshot_def task_dict_eq Let_def split: if_splits)
  then show "restart_view al hash (dir' (manifest_name io)) = restart_view al hash (dir (manifest_name io))
      \<or> restart_view al hash (dir' (manifest_name io)) = Some (task_view heap tbl wt io)"
    "err = NoError \<Longrightarrow> restart_view al hash (dir' (manifest_name io)) = Some (task_view heap tbl wt io)"
    using SwitchManifest_replaces [OF sw] new by (auto simp: manifest_name_def)
qed

lemma append_log_ok:
  assumes t: "task_tracks al heap (foldl apply_log s0 ls) wt ds sds" and room: "manifest_room tbl wt io"
    and c: "\<not> dict_dirty (compression (cow_meta wt))"
    and m: "is_manifest al hash has_seg s0 ls bs" "dir (manifest_name io) = Some bs" "length bs = manifest_size (cow_meta wt)"
    and f: "finish_log al hash (wal_builder wt) (branch_metadata_of tbl io) (seg_mapping_deltas wt)
        (root_id (cow_meta wt)) (ttl_root_id (cow_meta wt)) = Some (blob, wal)"
    and a: "AppendManifest al res (dir (manifest_name io)) blob (manifest_size (cow_meta wt)) = (err, content)"
  shows "restart_view al hash content = restart_view al hash (dir (manifest_name io))
      \<or> restart_view al hash content = Some (task_view heap tbl wt io)"
    and "err = NoError \<Longrightarrow> restart_view al hash content = Some (task_view heap tbl wt io)"
proof -
  let ?l = "task_log tbl wt io ds sds"
  note fits = task_log_fits [OF t room]
  have d: "builder_ok al (wal_builder wt) ds" "seg_mapping_deltas wt = concat (map enc_delta sds)"
    using t by (auto simp: task_tracks_def)
  have pl: "log_payload_of ?l = log_payload ds (branch_metadata_of tbl io) sds"
    and rt: "lr_root ?l = root_id (cow_meta wt)" "lr_ttl ?l = ttl_root_id (cow_meta wt)"
    by (simp_all add: log_payload_of_def task_log_def)
  have rec: "is_record al hash (lr_root ?l) (lr_ttl ?l) (log_payload_of ?l) blob"
    using finish_log_ok [OF d(1), of "branch_metadata_of tbl io" sds hash "root_id (cow_meta wt)" "ttl_root_id (cow_meta wt)"]
      fits(2) f d(2) unfolding pl rt by auto
  obtain n where n: "n \<le> length blob" "content = Some (bs @ take n blob)" "err = NoError \<longrightarrow> n = length blob"
    using AppendManifest_prefix [of al res bs blob err content] a m(2,3) by auto
  have "restart_view al hash content = Some (if n = length blob then task_view heap tbl wt io else state_view (foldl apply_log s0 ls))"
    using restart_view_partial [OF m(1) fits(1) rec n(1)] n(2) task_log_view [OF t c] by auto
  then show "restart_view al hash content = restart_view al hash (dir (manifest_name io))
      \<or> restart_view al hash content = Some (task_view heap tbl wt io)"
    "err = NoError \<Longrightarrow> restart_view al hash content = Some (task_view heap tbl wt io)"
    using restart_view_manifest [OF m(1)] m(2) n(3) by auto
qed

lemma FlushManifest_ok:
  assumes t: "task_tracks al heap s wt ds sds" and room: "manifest_room tbl wt io" and al: "0 < al"
    and m: "manifest_size (cow_meta wt) > 0 \<longrightarrow> (\<exists>has_seg s0 ls bs. is_manifest al hash has_seg s0 ls bs
        \<and> dir (manifest_name io) = Some bs \<and> length bs = manifest_size (cow_meta wt) \<and> s = foldl apply_log s0 ls)"
    and e: "mb_Empty (wal_builder wt) \<longrightarrow> root_id (cow_meta wt) = MaxPageId \<and> ttl_root_id (cow_meta wt) = MaxPageId
        \<and> manifest_size (cow_meta wt) > 0"
    and f: "FlushManifest opts al hash heap res tbl io wt dir = Some (err, wt', dir')"
  shows "(restart_view al hash (dir' (manifest_name io)) = restart_view al hash (dir (manifest_name io))
      \<or> restart_view al hash (dir' (manifest_name io)) = Some (task_view heap tbl wt io))
    \<and> (err = NoError \<longrightarrow> restart_view al hash (dir' (manifest_name io)) = Some (task_view heap tbl wt io))"
proof (cases "switch_to_snapshot opts al hash heap res (branch_metadata_of tbl io) io wt dir = Some (err, wt', dir')")
  case True
  then show ?thesis using switch_to_snapshot_ok [OF t room al True] by blast
next
  case False
  then obtain blob wal content where c: "\<not> dict_dirty (compression (cow_meta wt))" "manifest_size (cow_meta wt) > 0"
    and fl: "finish_log al hash (wal_builder wt) (branch_metadata_of tbl io) (seg_mapping_deltas wt)
        (root_id (cow_meta wt)) (ttl_root_id (cow_meta wt)) = Some (blob, wal)"
    and a: "AppendManifest al res (dir (manifest_name io)) blob (manifest_size (cow_meta wt)) = (err, content)"
    and d: "dir' = dir(manifest_name io := content)"
    using f e
    by (auto simp: FlushManifest_def Let_def manifest_name_def [symmetric] elim!: SomeEs split: if_splits prod.splits)
  obtain has_seg s0 ls bs where m: "is_manifest al hash has_seg s0 ls bs" "dir (manifest_name io) = Some bs"
    "length bs = manifest_size (cow_meta wt)" "s = foldl apply_log s0 ls" using m c(2) by blast
  note a_ok = append_log_ok [where dir = dir, OF t [unfolded m(4)] room c(1) m(1-3) fl a]
  show ?thesis using a_ok d by auto
qed

section \<open>An example task\<close>

lemma write_loop_all:
  "(\<And>i. 0 < res i) \<Longrightarrow> 0 < bsz \<Longrightarrow> fst (write_loop res bsz i src off written remaining content) = None"
proof (induction res bsz i src off written remaining content rule: write_loop.induct)
  case (1 res bsz i src off written remaining content)
  show ?case
  proof (cases "remaining = 0")
    case False
    then have "0 < Write_result (res i) (min bsz remaining)" using 1(2) [of i] 1(3) by (simp add: Write_result_def)
    then show ?thesis
      using 1(1) [OF False refl refl] 1(2,3) False by (subst write_loop.simps) (simp add: Let_def)
  qed (simp add: write_loop.simps)
qed

definition ex_io_results :: io_results where
  "ex_io_results = \<lparr>io_close = NoError, io_open = NoError, io_create = 3, io_write = (\<lambda>_. 4096), io_sync = 0,
     io_rename = 0, io_sync_dir = 0\<rparr>"

definition ex_tbl :: TableIdent where
  "ex_tbl = \<lparr>tbl_name = ''t'', partition_id = 1\<rparr>"

definition ex_io :: IoMgr where
  "ex_io = \<lparr>branch_mappings = [ex_tbl \<mapsto> [\<lparr>branch_name = ''main'', branch_term = 3, max_file_id = 0,
      max_segment_file_id = 0\<rparr>]], GetActiveBranch = ''main'', ProcessTerm = 3\<rparr>"

definition ex_page_mapper :: PageMapper where
  "ex_page_mapper = (PageMapper_of ex_table)\<lparr>file_page_allocator := AppendMode \<lparr>a_shift = 18, a_max_fp_id = 8,
      a_min_file_id = 0, a_empty_file_cnt = 0\<rparr>\<rparr>"

definition ex_task :: WriteTask where
  "ex_task = \<lparr>cow_meta = (CowRootMeta_new ex_page_mapper)\<lparr>root_id := 1, manifest_size := length ex_snapshot_bytes\<rparr>,
     wal_builder = ManifestBuilder_new 8, seg_mapping_deltas = [], last_seen_segment_file_id = None\<rparr>"

definition ex_dir :: directory where
  "ex_dir = [manifest_name ex_io \<mapsto> ex_snapshot_bytes]"

definition ex_options :: StoreOptions where
  "ex_options = default_store_options\<lparr>data_append_mode := True\<rparr>"

lemma ex_page_mapper:
  "mapper_tracks ex_heap ex_page_mapper (ms_values ex_state, ms_max_fp ex_state) []"
  "live_pages ex_page_mapper = {p. unat p < 3}" "mapping ex_page_mapper = ex_table"
proof -
  have l: "length (ms_values ex_state) = 3" "ms_max_fp ex_state = 8" by (simp_all add: ex_state_def)
  have v: "map (serialized_value ex_heap) (ms_values ex_state) = ms_values ex_state" by code_simp
  have tv: "table_view ex_heap ex_table = list_view (ms_values ex_state)"
    using table_view_list [OF ex_table, of ex_heap] v by simp
  have "length (ms_values ex_state) \<le> 2 ^ 29" using l by simp
  note i = PageMapper_of_inv [OF ex_table this]
  have "\<not> under_copying ex_table" using ex_table by (simp add: table_is_def)
  then show "mapper_tracks ex_heap ex_page_mapper (ms_values ex_state, ms_max_fp ex_state) []"
    using i(1) tv l(2) by (simp add: mapper_tracks_def ex_page_mapper_def deltas_ok_def) (simp add: PageMapper_of_def)
  show "live_pages ex_page_mapper = {p. unat p < 3}" "mapping ex_page_mapper = ex_table"
    using i(2) l(1) by (simp_all add: ex_page_mapper_def) (simp add: PageMapper_of_def)
qed

lemma ex_task_tracks: "task_tracks 8 ex_heap ex_state ex_task [] []"
  using builder_ok_new [of 8] ex_page_mapper(1)
  by (simp add: task_tracks_def ex_task_def CowRootMeta_new_def segments_track_def task_dict_def DictCompression_new_def)
    (simp add: ex_state_def)

lemma ex_task_starts: "task_starts 8 ex_hash ex_heap ex_io ex_dir ex_task"
  unfolding task_starts_def using ex_task_tracks ex_manifest(1)
  by (intro conjI exI [of _ ex_state] exI [of _ False] exI [of _ "[]"] exI [of _ ex_snapshot_bytes] impI)
    (simp_all add: ex_dir_def ex_task_def)

lemma ex_write:
  obtains wt m wal where "write_step ex_options 8 ex_heap ex_tbl (ex_task, ex_io) (wt, ex_io)"
    "wt = ex_task\<lparr>cow_meta := (cow_meta ex_task)\<lparr>mapper := m\<rparr>, wal_builder := wal\<rparr>"
    "builder_ok 8 wal [(0, EncodeFilePageId 8)]" "logical_size (mapping m) = 3"
    "table_view ex_heap (mapping m) 0 = Some 8"
proof -
  let ?a = "\<lparr>a_shift = 18, a_max_fp_id = 9, a_min_file_id = 0, a_empty_file_cnt = 0\<rparr>"
  let ?m1 = "ex_page_mapper\<lparr>file_page_allocator := AppendMode ?a\<rparr>"
  have inv: "mapper_inv ?m1" "0 \<in> live_pages ?m1"
    using ex_page_mapper(1,2) by (simp_all add: mapper_tracks_def)
  obtain m where m: "UpdateMapping ?m1 0 8 = Some m" using UpdateMapping_live [OF inv, of 8] by blast
  have tv: "table_view ex_heap (mapping m) 0 = Some 8" using UpdateMapping_view(3) [OF inv m, of ex_heap] by simp
  have "logical_size ex_table = 3" using ex_table by (auto simp: table_is_def ex_state_def dest: arg_cong [of _ _ length])
  then have sz: "logical_size (mapping m) = 3"
    using m tbl_Set_in [of ex_table 0 "EncodeFilePageId 8"] ex_table ex_page_mapper(3)
    by (auto simp: UpdateMapping_def table_is_def)
  obtain wal where w: "mb_UpdateMapping 8 (wal_builder ex_task) 0 8 = Some wal" "builder_ok 8 wal [(0, EncodeFilePageId 8)]"
    using mb_UpdateMapping_ok [of 8 "wal_builder ex_task" "[]" 0 8] ex_task_tracks by (auto simp: task_tracks_def)
  have "IouringMgr_GetBranchNameAndTerm (branch_mappings ex_io) ex_tbl (DataFileKey 0) = Some (''main'', 3)" by code_simp
  then have st: "stamp_data_files ex_tbl 0 0 ex_io = Some ex_io" by (simp add: stamp_data_files_def stamp_if_unknown_def)
  have al: "fpa_Allocate (file_page_allocator ex_page_mapper) = (8, AppendMode ?a)"
    "CurrentFileId (file_page_allocator ex_page_mapper) = 0" "CurrentFileId (AppendMode ?a) = 0"
    by (simp_all add: ex_page_mapper_def Append_Allocate_def CurrentFileId_def)
  have mt: "mapper (cow_meta ex_task) = ex_page_mapper" by (simp add: ex_task_def CowRootMeta_new_def)
  let ?wt = "ex_task\<lparr>cow_meta := (cow_meta ex_task)\<lparr>mapper := m\<rparr>, wal_builder := wal\<rparr>"
  have "AllocatePage ex_options 8 ex_heap ex_tbl 0 ex_task ex_io = Some ((0, 8), ?wt, ex_io)"
    using al st m w(1) mt by (simp add: AllocatePage_def ex_options_def Let_def MaxPageId_def)
  moreover have "page_available (mapper (cow_meta ex_task)) 0" "file_ids_left (mapper (cow_meta ex_task))"
    using ex_page_mapper(2) mt by (simp_all add: page_available_def file_ids_left_def MaxPageId_def ex_page_mapper_def)
  ultimately have "write_step ex_options 8 ex_heap ex_tbl (ex_task, ex_io) (?wt, ex_io)"
    by (rule write_step.allocate_page)
  then show thesis using that w(2) sz tv by blast
qed

lemma task_some: "task_tracks al heap s wt ds sds \<Longrightarrow> task_tracks_some al heap s wt"
  by (auto simp: task_tracks_some_def)


lemma ex_flush:
  assumes wt: "wt = ex_task\<lparr>cow_meta := (cow_meta ex_task)\<lparr>mapper := m\<rparr>, wal_builder := wal\<rparr>"
    and b: "builder_ok 8 wal [(0, EncodeFilePageId 8)]" and sz: "logical_size (mapping m) = 3"
  shows "\<not> mb_Empty (wal_builder wt)" "manifest_room ex_tbl wt ex_io"
    and "\<exists>wt' dir'. FlushManifest ex_options 8 ex_hash ex_heap ex_io_results ex_tbl ex_io wt ex_dir = Some (NoError, wt', dir')"
proof -
  have len: "length (enc_delta (0, EncodeFilePageId 8)) = 2" by code_simp
  have "dio_size (buff wal) = 26"
    using b len length_dio_view [of 8 "buff wal"] by (auto simp: builder_ok_def split: if_splits)
  then have s26: "mb_CurrentSize (wal_builder wt) = 26" by (simp add: mb_CurrentSize_def wt)
  have md: "length (SerializeBranchManifestMetadata (branch_metadata_of ex_tbl ex_io)) = 56"
    "list_all range_fits (md_file_ranges (branch_metadata_of ex_tbl ex_io))"
    "length (md_file_ranges (branch_metadata_of ex_tbl ex_io)) = 1"
    by (code_simp, simp add: branch_metadata_of_def ex_io_def GetBranchFileMapping_def range_fits_def name_fits_def,
        code_simp)
  show e: "\<not> mb_Empty (wal_builder wt)" using s26 by (simp add: mb_Empty_def mb_CurrentSize_def)
  show "manifest_room ex_tbl wt ex_io" using s26 md sz
    by (simp add: manifest_room_def md_fits_def section_fits_def)
      (simp add: wt ex_task_def CowRootMeta_new_def task_dict_def DictCompression_new_def branch_metadata_of_def ex_io_def name_fits_def)
  have "section_fits (log_payload [(0, EncodeFilePageId 8)] (branch_metadata_of ex_tbl ex_io) [])"
    using md(1) len by (simp add: section_fits_def log_payload_def)
  then obtain blob wal' where fl: "finish_log 8 ex_hash wal (branch_metadata_of ex_tbl ex_io) [] 1 MaxPageId = Some (blob, wal')"
    using finish_log_ok [OF b, of "branch_metadata_of ex_tbl ex_io" "[]" ex_hash 1 MaxPageId] by auto
  have c: "cow_meta wt = (cow_meta ex_task)\<lparr>mapper := m\<rparr>" "wal_builder wt = wal" "seg_mapping_deltas wt = []"
    "root_id (cow_meta wt) = 1" "ttl_root_id (cow_meta wt) = MaxPageId" "\<not> dict_dirty (compression (cow_meta wt))"
    "manifest_size (cow_meta wt) = length ex_snapshot_bytes"
    by (simp_all add: wt ex_task_def CowRootMeta_new_def DictCompression_new_def)
  have "AlignSize 8 57 = 64" by code_simp
  then have n: "length ex_snapshot_bytes = 64" by (simp add: ex_snapshot_bytes_def pad_record_def ex_lengths)
  have "AlignSize 8 (26 + 4 + 56 + (4 + 0)) = 96" by code_simp
  then have lim: "64 + AlignSize 8 (26 + 4 + 56 + (4 + 0)) \<le> manifest_limit ex_options"
    by (simp add: ex_options_def default_store_options_def)
  have "fst (AppendManifest 8 ex_io_results (Some ex_snapshot_bytes) blob 64) = NoError"
    using write_loop_all [of "io_write ex_io_results" 8 0 blob 64 0 "length blob" ex_snapshot_bytes]
    by (auto simp: AppendManifest_def ex_io_results_def ToKvError_def split: prod.splits)
  then obtain content where "AppendManifest 8 ex_io_results (Some ex_snapshot_bytes) blob 64 = (NoError, content)"
    by (metis prod.collapse)
  moreover have "ex_dir (manifest_name ex_io) = Some ex_snapshot_bytes" by (simp add: ex_dir_def)
  ultimately show "\<exists>wt' dir'. FlushManifest ex_options 8 ex_hash ex_heap ex_io_results ex_tbl ex_io wt ex_dir = Some (NoError, wt', dir')"
    using e s26 c fl n lim md(1)
    by (simp add: FlushManifest_def Let_def manifest_name_def)
qed


section \<open>The generation of the first segment file\<close>

lemma std_lower_bound_first: "(\<And>x. \<not> is_less x) \<Longrightarrow> std_lower_bound is_less xs first len = first"
  by (induction is_less xs first len rule: std_lower_bound.induct)
    (subst std_lower_bound.simps, simp add: Let_def)

lemma segment_file_0: "ToFileId (SegmentFileKey 0) = 0" "IsSegmentFile (SegmentFileKey 0)"
  by code_simp+

text \<open>C16: The first segment file of a partition is not stamped with the generation that writes it. When
  the partition has data files, segment file 0 counts as known whatever the ranges say, because their
  segment limit starts at 0, and it is attributed to the oldest generation. A task of a later term or
  of another branch writes the file under its own name, but reads look it up under the oldest one.\<close>

theorem first_segment_file_misattributed:
  assumes "segment_mapper (cow_meta wt) = None" "tbl_inv (MappingTbl_new arena)"
    and "0 < segments_per_file_shift opts" "branch_mappings io tbl = Some (r # rs)"
  shows "\<exists>p wt'. AllocateSegment tbl MaxPageId (EnsureSegmentMapper opts arena wt) io = Some ((p, 0), wt', io)
    \<and> IouringMgr_GetBranchNameAndTerm (branch_mappings io) tbl (SegmentFileKey 0) = Some (branch_name r, branch_term r)"
proof -
  define alloc where "alloc = \<lparr>a_shift = segments_per_file_shift opts, a_max_fp_id = 0, a_min_file_id = 0,
     a_empty_file_cnt = 0\<rparr>"
  define m where "m = (PageMapper_new arena (data_append_mode opts) (KvOptions.truncate opts))
      \<lparr>file_page_allocator := AppendMode alloc\<rparr>"
  have e: "EnsureSegmentMapper opts arena wt = wt\<lparr>cow_meta := (cow_meta wt)\<lparr>segment_mapper := Some m\<rparr>\<rparr>"
    using assms(1) by (simp add: EnsureSegmentMapper_def m_def alloc_def)
  have inv: "mapper_inv m" "0 < page_room m"
    using mapper_inv_new [OF assms(2)] by (simp_all add: m_def) (simp add: PageMapper_new_def MappingTbl_new_def page_room_def)
  obtain p m1 where g: "GetPage m = Some (p, m1)" "mapper_inv m1" "live_pages m1 = insert p (live_pages m)"
    using GetPage_fresh [OF inv] by blast
  have a1: "file_page_allocator m1 = AppendMode alloc" using GetPage_view(3) [OF inv(1) g(1) inv(2)] by (simp add: m_def)
  let ?a = "alloc\<lparr>a_max_fp_id := 1\<rparr>"
  have one: "drop_bit (segments_per_file_shift opts) (1 :: uint64) = 0"
    using assms(3) by (cases "segments_per_file_shift opts") (simp_all add: drop_bit_Suc)
  have al: "fpa_Allocate (AppendMode alloc) = (0, AppendMode ?a)" "CurrentFileId (AppendMode alloc) = 0"
    "CurrentFileId (AppendMode ?a) = 0"
    using one by (simp_all add: alloc_def Append_Allocate_def CurrentFileId_def)
  obtain m2 where u: "UpdateMapping (m1\<lparr>file_page_allocator := AppendMode ?a\<rparr>) p 0 = Some m2"
    using UpdateMapping_live [of "m1\<lparr>file_page_allocator := AppendMode ?a\<rparr>" p 0] g(2,3) by auto
  have "\<not> range_less (SegmentFileKey 0) x" for x by (simp add: range_less_def segment_file_0)
  then have "FindBranchRange (r # rs) (SegmentFileKey 0) = 0" by (simp add: FindBranchRange_def std_lower_bound_first)
  then have known: "IouringMgr_GetBranchNameAndTerm (branch_mappings io) tbl (SegmentFileKey 0) = Some (branch_name r, branch_term r)"
    using assms(4) by (simp add: IouringMgr_GetBranchNameAndTerm_def GetBranchNameAndTerm_def)
  then have "\<exists>l. stamp_segment_files tbl 0 0 (last_seen_segment_file_id wt) io = Some (l, io)"
    by (simp add: stamp_segment_files_def stamp_if_unknown_def)
  then show ?thesis using g(1) a1 al u e known by (auto simp: AllocateSegment_def Let_def)
qed

definition ex_io_later :: IoMgr where
  "ex_io_later = ex_io\<lparr>ProcessTerm := 5\<rparr>"

theorem first_segment_file_misattributed_witness:
  "\<exists>p wt'. AllocateSegment ex_tbl MaxPageId (EnsureSegmentMapper ex_options None ex_task) ex_io_later
      = Some ((p, 0), wt', ex_io_later)
    \<and> IouringMgr_GetBranchNameAndTerm (branch_mappings ex_io_later) ex_tbl (SegmentFileKey 0) = Some (''main'', 3)
    \<and> ProcessTerm ex_io_later = 5"
proof -
  have "tbl_inv (MappingTbl_new None)" by (rule tbl_inv_new) simp
  then have "segment_mapper (cow_meta ex_task) = None" "tbl_inv (MappingTbl_new None)" "0 < segments_per_file_shift ex_options"
    by (simp_all add: ex_task_def CowRootMeta_new_def ex_options_def default_store_options_def)
  from first_segment_file_misattributed [OF this, of ex_io_later ex_tbl] show ?thesis
    by (simp add: ex_io_later_def ex_io_def)
qed

end
