(* ===== verification/Cow_Props.thy ===== *)
theory Cow_Props
  imports Cow_Snapshots Write_Props
begin

text \<open>
  What copy on write guarantees to readers, and what it loses: reachable states of a partition, from
  a partition at rest.  The example run has a reader, a writer that replaces a page, and a second
  writer.
\<close>

declare InvalidValue_def [simp del]

section \<open>Properties\<close>

text \<open>A partition at rest: one snapshot, no readers, no writer.\<close>

definition at_rest :: "page_heap \<Rightarrow> Partition \<Rightarrow> bool" where
  "at_rest heap p \<longleftrightarrow>
    (\<exists>a. file_page_allocator (mapper (meta p)) = PooledMode a \<and> pooled_inv a
      \<and> ran (table_view heap (mapping (mapper (meta p)))) \<subseteq> pooled_live a)
    \<and> mapper_inv (mapper (meta p)) \<and> \<not> under_copying (mapping (mapper (meta p)))
    \<and> inj_on (table_view heap (mapping (mapper (meta p)))) (dom (table_view heap (mapping (mapper (meta p)))))
    \<and> snapshots p = [meta_snapshot p \<mapsto> \<lparr>sn_view = table_view heap (mapping (mapper (meta p))), to_free_file_pages = [],
                                         next_snapshot = None\<rparr>]
    \<and> readers p = [] \<and> writer p = None"

lemma at_rest_inv: "at_rest heap p \<Longrightarrow> cow_inv heap p"
  by (auto simp: at_rest_def cow_inv_def chain_ok_def frees_ok_def meta_ok_def all_pages_def all_frees_def)

text \<open>C2: Readers never see a page that is written after they started. In every interleaving of
  readers, commits, aborts and destructions of snapshots, the file page that a writer allocates belongs
  to no snapshot that a reader holds, nor to the current one, although file pages are reused.\<close>

theorem snapshot_pages_not_overwritten:
  assumes "at_rest heap p0" "(cow_step opts al heap tbl)\<^sup>*\<^sup>* p0 p" "\<not> data_append_mode opts" "heap_ok heap"
    and "writer p = Some wt" "pool_ids_left wt" "page_available (mapper (cow_meta wt)) q"
    and "AllocatePage opts al heap tbl q wt (io_mgr p) = Some ((q', fp), wt', io')"
    and "i \<in> set (readers p) \<or> i = meta_snapshot p"
  shows "\<exists>s. snapshots p i = Some s \<and> fp \<notin> ran (sn_view s)"
proof -
  have inv: "cow_inv heap p" using cow_steps_inv [OF assms(2) at_rest_inv [OF assms(1)] assms(3,4)] .
  obtain s where s: "snapshots p i = Some s" using inv assms(9) by (auto simp: cow_inv_def chain_ok_def meta_ok_def)
  have "fp \<notin> all_pages p"
    using AllocatePage_ok(2) [OF _ assms(8,7,6,3,4)] inv assms(5) by (auto simp: cow_inv_def)
  then show ?thesis using s all_pages_mem [OF s] by blast
qed

section \<open>An example run\<close>

lemma MakeCowRoot_some:
  assumes inv: "cow_inv heap p" and h: "heap_ok heap" and seg: "segment_mapper (meta p) = None"
  shows "\<exists>p' wt. MakeCowRoot al heap p = Some p' \<and> snapshots p' = snapshots p \<and> meta_snapshot p' = meta_snapshot p
    \<and> readers p' = readers p \<and> io_mgr p' = io_mgr p \<and> segment_mapper (meta p') = None \<and> writer p' = Some wt
    \<and> table_view heap (mapping (mapper (cow_meta wt))) = table_view heap (mapping (mapper (meta p)))
    \<and> live_pages (mapper (cow_meta wt)) = live_pages (mapper (meta p))
    \<and> file_page_allocator (mapper (cow_meta wt)) = file_page_allocator (mapper (meta p))
    \<and> segment_mapper (cow_meta wt) = None \<and> wal_builder wt = ManifestBuilder_new al \<and> old_to_free (cow_meta wt) = []"
proof -
  have m: "mapper_inv (mapper (meta p))" "\<not> under_copying (mapping (mapper (meta p)))"
    "\<exists>s. snapshots p (meta_snapshot p) = Some s \<and> to_free_file_pages s = []"
    using inv by (auto simp: cow_inv_def meta_ok_def frees_ok_def)
  have "\<forall>k. \<forall>p\<in>fst ` set (quiet_env k). p \<in> ({} :: PageId set)" by (simp add: quiet_env_def)
  from PageMapper_copy_ok [OF m(1,2) this, of "\<lambda>_. heap"]
  obtain m1 m2 where c: "copy_mapper heap (mapper (meta p)) = Some (m1, m2)" "live_pages m2 = live_pages (mapper (meta p))"
    unfolding copy_mapper_def by auto
  show ?thesis using c m(3) seg copy_mapper_view(6,8) [OF m(1,2) h c(1)]
    by (auto simp: MakeCowRoot_def Let_def CowRootMeta_new_def)
qed

lemma view_ToFilePage:
  assumes "table_view heap t q = Some fp" "heap_ok heap" "q \<noteq> MaxPageId"
  shows "ToFilePage heap t q = Some fp"
proof -
  obtain v where v: "tbl_Get t q = Some v" "value_page (serialized_value heap v) = Some fp"
    using assms(1) by (auto simp: table_view_def bind_eq_Some_conv)
  have "ToFilePage_val heap v = fp"
  proof (cases "IsSwizzlingPointer v")
    case True
    then show ?thesis using v(2) assms(2) [unfolded heap_ok_def, rule_format, of v]
      by (simp add: serialized_value_def ToFilePage_val_def IsSwizzlingPointer_def)
  next
    case False
    then show ?thesis using v(2)
      by (auto simp: serialized_value_def ToFilePage_val_def value_page_def IsFilePageId_def split: if_splits)
  qed
  then show ?thesis using v(1) assms(3) by (simp add: ToFilePage_def)
qed

lemma AllocatePage_some:
  assumes t: "task_ok heap A R wt" and al: "file_page_allocator (mapper (cow_meta wt)) = PooledMode a" "p_free_ids a = []"
      "unat (p_max_fp_id a) < 2 ^ 32"
    and q: "q \<in> live_pages (mapper (cow_meta wt))" "table_view heap (mapping (mapper (cow_meta wt))) q = Some old"
    and w: "builder_ok n (wal_builder wt) ds" and h: "heap_ok heap" "\<not> data_append_mode opts"
    and st: "stamp_data_files tbl (CurrentFileId (PooledMode a)) (CurrentFileId (PooledMode (a\<lparr>p_max_fp_id := p_max_fp_id a + 1\<rparr>))) io = Some io"
  shows "\<exists>wt'. AllocatePage opts n heap tbl q wt io = Some ((q, p_max_fp_id a), wt', io)
    \<and> old_to_free (cow_meta wt') = old_to_free (cow_meta wt) @ [old] \<and> segment_mapper (cow_meta wt') = segment_mapper (cow_meta wt)"
proof -
  let ?m = "mapper (cow_meta wt)" and ?a = "a\<lparr>p_max_fp_id := p_max_fp_id a + 1\<rparr>"
  have x: "mapper_inv ?m" "pooled_inv a" "ran (table_view heap (mapping ?m)) \<subseteq> pooled_live a" using t al(1) by (auto simp: task_ok_def)
  have live: "mapper_inv (?m\<lparr>file_page_allocator := PooledMode ?a\<rparr>)" "q \<in> live_pages (?m\<lparr>file_page_allocator := PooledMode ?a\<rparr>)"
    using x(1) q(1) by simp_all
  have qm: "q \<noteq> MaxPageId" using live_page_small [OF x(1) q(1)] unat_MaxPageId by auto
  have "old \<in> pooled_live a" using x(3) q(2) by (auto intro: ranI)
  then have "unat old < 2 ^ 61" using fpa_PooledMode_small [OF x(2)] by simp
  moreover have "unat MaxFilePageId = 2 ^ 64 - 1" by (simp add: MaxFilePageId_def unsigned_minus_1_eq_mask mask_eq_exp_minus_1)
  ultimately have "old \<noteq> MaxFilePageId" by auto
  then have o: "ToFilePage heap (mapping ?m) q = Some old" "AddFreeFilePage (old_to_free (cow_meta wt)) old = Some (old_to_free (cow_meta wt) @ [old])"
    using view_ToFilePage [OF q(2) h(1) qm] by (simp_all add: AddFreeFilePage_def)
  obtain m where "UpdateMapping (?m\<lparr>file_page_allocator := PooledMode ?a\<rparr>) q (p_max_fp_id a) = Some m"
    using UpdateMapping_live [OF live] by blast
  moreover obtain wal where "mb_UpdateMapping n (wal_builder wt) q (p_max_fp_id a) = Some wal"
    using mb_UpdateMapping_ok [OF w] by blast
  ultimately show ?thesis using o qm al h(2) st
    by (simp add: AllocatePage_def Let_def Pooled_Allocate_def \<open>old \<noteq> MaxFilePageId\<close>)
qed

definition ex_pool :: PooledFilePages where
  "ex_pool = \<lparr>p_shift = 18, p_max_fp_id = 8, p_free_ids = []\<rparr>"

definition ex_pool_mapper :: PageMapper where
  "ex_pool_mapper = (PageMapper_of ex_table)\<lparr>file_page_allocator := PooledMode ex_pool\<rparr>"

definition ex_partition :: Partition where
  "ex_partition = \<lparr>snapshots = [0 \<mapsto> \<lparr>sn_view = table_view ex_heap ex_table, to_free_file_pages = [], next_snapshot = None\<rparr>],
     meta_snapshot = 0, meta = CowRootMeta_new ex_pool_mapper, readers = [], writer = None, io_mgr = ex_io\<rparr>"

lemma ex_heap_ok: "heap_ok ex_heap"
  by (simp add: heap_ok_def ex_heap_def)

lemma ex_view: "table_view ex_heap ex_table = [0 \<mapsto> 4, 1 \<mapsto> 7]"
proof -
  have v: "map (serialized_value ex_heap) (ms_values ex_state) = ms_values ex_state" by code_simp
  have l: "length (ms_values ex_state) = 3" by (simp add: ex_state_def)
  have p: "value_page (ms_values ex_state ! 0) = Some 4" "value_page (ms_values ex_state ! 1) = Some 7"
    "value_page (ms_values ex_state ! 2) = None" by code_simp+
  have u: "unat q = 0 \<longleftrightarrow> q = 0" "unat q = 1 \<longleftrightarrow> q = 1" for q :: PageId
    by (metis unsigned_0 unsigned_word_eqI) (metis unsigned_1 unsigned_word_eqI)
  show ?thesis
  proof (rule ext)
    fix q :: PageId
    consider "unat q = 0" | "unat q = 1" | "unat q = 2" | "unat q \<ge> 3" by linarith
    then show "table_view ex_heap ex_table q = ([0 \<mapsto> 4, 1 \<mapsto> 7]) q"
      unfolding table_view_list [OF ex_table] v list_view_def l using p u [of q] by cases auto
  qed
qed

lemma ex_partition_rest: "at_rest ex_heap ex_partition"
proof -
  have m: "mapper (meta ex_partition) = ex_pool_mapper" "mapping ex_pool_mapper = ex_table"
    by (simp_all add: ex_partition_def CowRootMeta_new_def ex_pool_mapper_def PageMapper_of_def)
  have "length (ms_values ex_state) \<le> 2 ^ 29" by (simp add: ex_state_def)
  then have i: "mapper_inv ex_pool_mapper" using PageMapper_of_inv(1) [OF ex_table] by (simp add: ex_pool_mapper_def)
  have p: "pooled_inv ex_pool" "{4, 7} \<subseteq> pooled_live ex_pool" by (simp_all add: pooled_inv_def pooled_live_def ex_pool_def)
  have r: "ran (table_view ex_heap ex_table) \<subseteq> pooled_live ex_pool"
    using p(2) by (auto simp: ex_view ran_def split: if_splits)
  have "\<not> under_copying ex_table" using ex_table by (simp add: table_is_def)
  moreover have "inj_on (table_view ex_heap ex_table) (dom (table_view ex_heap ex_table))"
    by (auto simp: ex_view inj_on_def split: if_splits)
  ultimately show ?thesis unfolding at_rest_def m using i p(1) r
    by (auto simp: ex_partition_def ex_pool_mapper_def)
qed

text \<open>A reader starts, then a writer.\<close>

lemma ex_run_write:
  obtains p wt where "(cow_step default_store_options 8 ex_heap ex_tbl)\<^sup>*\<^sup>* ex_partition p" "cow_inv ex_heap p"
    "snapshots p = snapshots ex_partition" "meta_snapshot p = 0" "readers p = [0]" "io_mgr p = ex_io"
    "segment_mapper (meta p) = None" "writer p = Some wt"
    "table_view ex_heap (mapping (mapper (cow_meta wt))) = [0 \<mapsto> 4, 1 \<mapsto> 7]"
    "0 \<in> live_pages (mapper (cow_meta wt))" "file_page_allocator (mapper (cow_meta wt)) = PooledMode ex_pool"
    "segment_mapper (cow_meta wt) = None" "wal_builder wt = ManifestBuilder_new 8" "old_to_free (cow_meta wt) = []"
proof -
  let ?S = "cow_step default_store_options 8 ex_heap ex_tbl"
  define p1 where "p1 = ex_partition\<lparr>readers := [0]\<rparr>"
  have s1: "?S ex_partition p1"
    using cow_step.begin_read [of default_store_options 8 ex_heap ex_tbl ex_partition] by (simp add: p1_def ex_partition_def)
  have opts: "\<not> data_append_mode default_store_options" by (simp add: default_store_options_def)
  have i1: "cow_inv ex_heap p1" using cow_step_inv [OF s1 at_rest_inv [OF ex_partition_rest] opts ex_heap_ok] .
  have m: "mapper (meta p1) = ex_pool_mapper" "segment_mapper (meta p1) = None" "mapping ex_pool_mapper = ex_table" "writer p1 = None"
    by (simp_all add: p1_def ex_partition_def CowRootMeta_new_def ex_pool_mapper_def PageMapper_of_def)
  have "length (ms_values ex_state) \<le> 2 ^ 29" by (simp add: ex_state_def)
  then have l: "0 \<in> live_pages ex_pool_mapper"
    using PageMapper_of_inv(2) [OF ex_table] by (simp add: ex_pool_mapper_def) (simp add: ex_state_def)
  obtain p wt where p: "MakeCowRoot 8 ex_heap p1 = Some p" "snapshots p = snapshots p1" "meta_snapshot p = meta_snapshot p1"
    "readers p = readers p1" "io_mgr p = io_mgr p1" "segment_mapper (meta p) = None" "writer p = Some wt"
    "table_view ex_heap (mapping (mapper (cow_meta wt))) = table_view ex_heap (mapping (mapper (meta p1)))"
    "live_pages (mapper (cow_meta wt)) = live_pages (mapper (meta p1))"
    "file_page_allocator (mapper (cow_meta wt)) = file_page_allocator (mapper (meta p1))"
    "segment_mapper (cow_meta wt) = None" "wal_builder wt = ManifestBuilder_new 8" "old_to_free (cow_meta wt) = []"
    using MakeCowRoot_some [OF i1 ex_heap_ok m(2), of 8] by blast
  have s2: "?S p1 p" by (rule cow_step.begin_write [OF m(4) p(1)])
  show thesis
  proof (rule that [of p wt])
    show "(?S)\<^sup>*\<^sup>* ex_partition p" using s1 s2 by (meson converse_rtranclp_into_rtranclp rtranclp.rtrancl_refl)
    show "cow_inv ex_heap p" by (rule cow_step_inv [OF s2 i1 opts ex_heap_ok])
  qed (use p m l in \<open>simp_all add: p1_def ex_view ex_partition_def ex_pool_mapper_def\<close>)
qed

lemma ex_allocate:
  assumes "cow_inv ex_heap p" "writer p = Some wt" "table_view ex_heap (mapping (mapper (cow_meta wt))) = [0 \<mapsto> 4, 1 \<mapsto> 7]"
    "0 \<in> live_pages (mapper (cow_meta wt))" "file_page_allocator (mapper (cow_meta wt)) = PooledMode ex_pool"
    "wal_builder wt = ManifestBuilder_new 8"
  shows "\<exists>wt'. AllocatePage default_store_options 8 ex_heap ex_tbl 0 wt ex_io = Some ((0, 8), wt', ex_io)
    \<and> old_to_free (cow_meta wt') = old_to_free (cow_meta wt) @ [4] \<and> segment_mapper (cow_meta wt') = segment_mapper (cow_meta wt)"
proof -
  have "task_ok ex_heap (all_pages p) (all_frees p) wt" using assms(1,2) by (auto simp: cow_inv_def)
  moreover have "p_free_ids ex_pool = []" "unat (p_max_fp_id ex_pool) < 2 ^ 32" by (simp_all add: ex_pool_def)
  moreover have "table_view ex_heap (mapping (mapper (cow_meta wt))) 0 = Some 4" using assms(3) by simp
  moreover have "builder_ok 8 (wal_builder wt) []" using assms(6) builder_ok_new [of 8] by simp
  moreover have "\<not> data_append_mode default_store_options" by (simp add: default_store_options_def)
  moreover have "stamp_data_files ex_tbl (CurrentFileId (PooledMode ex_pool))
      (CurrentFileId (PooledMode (ex_pool\<lparr>p_max_fp_id := p_max_fp_id ex_pool + 1\<rparr>))) ex_io = Some ex_io"
  proof -
    have "IouringMgr_GetBranchNameAndTerm (branch_mappings ex_io) ex_tbl (DataFileKey 0) = Some (''main'', 3)" by code_simp
    then show ?thesis by (simp add: stamp_data_files_def stamp_if_unknown_def CurrentFileId_def ex_pool_def)
  qed
  ultimately show ?thesis
    using AllocatePage_some [OF _ assms(5) _ _ assms(4) _ _ ex_heap_ok] by (simp add: ex_pool_def)
qed

theorem snapshot_pages_not_overwritten_witness:
  "\<exists>p wt wt' io'. (cow_step default_store_options 8 ex_heap ex_tbl)\<^sup>*\<^sup>* ex_partition p \<and> writer p = Some wt \<and> 0 \<in> set (readers p)
    \<and> AllocatePage default_store_options 8 ex_heap ex_tbl 0 wt (io_mgr p) = Some ((0, 8), wt', io')
    \<and> (\<exists>s. snapshots p 0 = Some s \<and> 8 \<notin> ran (sn_view s))"
proof -
  obtain p wt where p: "(cow_step default_store_options 8 ex_heap ex_tbl)\<^sup>*\<^sup>* ex_partition p" "cow_inv ex_heap p"
    "readers p = [0]" "io_mgr p = ex_io" "writer p = Some wt"
    "table_view ex_heap (mapping (mapper (cow_meta wt))) = [0 \<mapsto> 4, 1 \<mapsto> 7]"
    "0 \<in> live_pages (mapper (cow_meta wt))" "file_page_allocator (mapper (cow_meta wt)) = PooledMode ex_pool"
    "wal_builder wt = ManifestBuilder_new 8"
    using ex_run_write by blast
  obtain wt' where a: "AllocatePage default_store_options 8 ex_heap ex_tbl 0 wt (io_mgr p) = Some ((0, 8), wt', ex_io)"
    using ex_allocate [OF p(2,5-9)] p(4) by auto
  have opts: "\<not> data_append_mode default_store_options" by (simp add: default_store_options_def)
  have left: "pool_ids_left wt" "page_available (mapper (cow_meta wt)) 0"
    using p(7,8) by (simp_all add: pool_ids_left_def ex_pool_def page_available_def MaxPageId_def)
  have "0 \<in> set (readers p) \<or> 0 = meta_snapshot p" using p(3) by simp
  from snapshot_pages_not_overwritten [OF ex_partition_rest p(1) opts ex_heap_ok p(5) left a this] p(1,3,5) a
  show ?thesis by auto
qed

text \<open>C17: File pages are lost when a snapshot is destroyed while a writer is active: they go back to the
  allocator of the current mapper, but the commit replaces it by the copy that the writer made before.
  Afterwards the allocator takes the page for used, no snapshot uses it, and none will free it.\<close>

theorem frees_lost_during_write:
  assumes "at_rest heap p0" "(cow_step opts al heap tbl)\<^sup>*\<^sup>* p0 p" "\<not> data_append_mode opts" "heap_ok heap"
    and "writer p = Some wt" "\<not> referenced p i" "snapshots p i = Some s" "f \<in> set (to_free_file_pages s)"
    and "FreeMappingSnapshot opts i p = Some p'" "UpdateRoot opts heap p' = Some p''"
  shows "(\<exists>a. file_page_allocator (mapper (meta p'')) = PooledMode a \<and> f \<in> pooled_live a)
    \<and> f \<notin> all_pages p'' \<and> f \<notin> all_frees p''"
proof -
  have inv: "cow_inv heap p" using cow_steps_inv [OF assms(2) at_rest_inv [OF assms(1)] assms(3,4)] .
  have inv': "cow_inv heap p'" by (rule destroy_inv [OF inv assms(6,9)])
  have f: "f \<in> all_frees p" using all_frees_mem [OF assms(7,8)] .
  obtain a where a: "file_page_allocator (mapper (cow_meta wt)) = PooledMode a" "all_frees p \<subseteq> pooled_live a"
    "(set (old_to_free (cow_meta wt)) \<union> all_frees p) \<inter> ran (table_view heap (mapping (mapper (cow_meta wt)))) = {}"
    "all_frees p \<inter> set (old_to_free (cow_meta wt)) = {}"
    using inv assms(5) by (auto simp: cow_inv_def task_ok_def)
  have sp: "snapshots p' = (snapshots p)(i := None)" "meta_snapshot p' = meta_snapshot p" "writer p' = Some wt"
    using assms(5,9) by (auto simp: FreeMappingSnapshot_def bind_eq_Some_conv)
  have gone: "f \<notin> all_pages p'" "f \<notin> all_frees p'"
  proof -
    have "f \<notin> ran (sn_view u) \<union> set (to_free_file_pages u)" if u: "snapshots p' j = Some u" for j u
    proof -
      have j: "snapshots p j = Some u" "j \<noteq> i" using u sp(1) by (auto split: if_splits)
      have "i < j" using destroyed_oldest [OF inv assms(6,7) j(1)] j(2) by simp
      then show ?thesis using inv assms(7,8) j(1) unfolding cow_inv_def frees_ok_def by blast
    qed
    then show "f \<notin> all_pages p'" "f \<notin> all_frees p'" by (auto simp: all_pages_def all_frees_def ran_def)
  qed
  have "mapper (meta p'') = mapper (cow_meta wt)"
    "all_pages p'' \<subseteq> all_pages p' \<union> ran (table_view heap (mapping (mapper (cow_meta wt))))"
    "all_frees p'' \<subseteq> all_frees p' \<union> set (old_to_free (cow_meta wt))"
    by (rule UpdateRoot_parts [OF assms(10,3)]; use sp(3) in simp)+
  then show ?thesis using gone f a by auto
qed

lemma UpdateRoot_some:
  assumes "writer p = Some wt" "snapshots p (meta_snapshot p) = Some s" "segment_mapper (meta p) = None" "segment_mapper (cow_meta wt) = None"
  shows "\<exists>p'. UpdateRoot opts heap p = Some p' \<and> segment_mapper (meta p') = None \<and> io_mgr p' = io_mgr p"
  using assms by (simp add: UpdateRoot_def Let_def)

text \<open>The writer replaces page 0 and commits, a second writer starts, the reader ends.\<close>

lemma ex_run_free:
  obtains p wt where "(cow_step default_store_options 8 ex_heap ex_tbl)\<^sup>*\<^sup>* ex_partition p" "cow_inv ex_heap p"
    "writer p = Some wt" "segment_mapper (meta p) = None" "segment_mapper (cow_meta wt) = None" "\<not> referenced p 0"
    "\<exists>s. snapshots p 0 = Some s \<and> to_free_file_pages s = [4]" "\<exists>s. snapshots p (meta_snapshot p) = Some s" "meta_snapshot p \<noteq> 0"
proof -
  let ?S = "cow_step default_store_options 8 ex_heap ex_tbl"
  have opts: "\<not> data_append_mode default_store_options" by (simp add: default_store_options_def)
  obtain p wt where p: "?S\<^sup>*\<^sup>* ex_partition p" "cow_inv ex_heap p" "snapshots p = snapshots ex_partition" "meta_snapshot p = 0"
    "readers p = [0]" "io_mgr p = ex_io" "segment_mapper (meta p) = None" "writer p = Some wt"
    "table_view ex_heap (mapping (mapper (cow_meta wt))) = [0 \<mapsto> 4, 1 \<mapsto> 7]"
    "0 \<in> live_pages (mapper (cow_meta wt))" "file_page_allocator (mapper (cow_meta wt)) = PooledMode ex_pool"
    "segment_mapper (cow_meta wt) = None" "wal_builder wt = ManifestBuilder_new 8" "old_to_free (cow_meta wt) = []"
    by (rule ex_run_write)
  obtain wt' where a: "AllocatePage default_store_options 8 ex_heap ex_tbl 0 wt ex_io = Some ((0, 8), wt', ex_io)"
    "old_to_free (cow_meta wt') = [4]" "segment_mapper (cow_meta wt') = None"
    using ex_allocate [OF p(2,8-11,13)] p(12,14) by auto
  have "page_available (mapper (cow_meta wt)) 0" "file_ids_left (mapper (cow_meta wt))" and left: "pool_ids_left wt"
    using p(10,11) by (simp_all add: page_available_def file_ids_left_def pool_ids_left_def MaxPageId_def ex_pool_def)
  then have ws: "write_step default_store_options 8 ex_heap ex_tbl (wt, io_mgr p) (wt', ex_io)"
    using a(1) p(6) by (auto intro: write_step.allocate_page)
  define p3 where "p3 = p\<lparr>writer := Some wt', io_mgr := ex_io\<rparr>"
  have s3: "?S p p3" unfolding p3_def by (rule cow_step.write_op [OF p(8) left ws])
  have i3: "cow_inv ex_heap p3" by (rule cow_step_inv [OF s3 p(2) opts ex_heap_ok])
  obtain s0 where s0: "snapshots ex_partition = [0 \<mapsto> s0]" by (auto simp: ex_partition_def)
  obtain p4 where p4: "UpdateRoot default_store_options ex_heap p3 = Some p4" "segment_mapper (meta p4) = None"
    using UpdateRoot_some [of p3 wt' s0] a(3) p(3,4,7) s0 by (auto simp: p3_def)
  have s4: "?S p3 p4" by (rule cow_step.commit [OF p4(1)])
  have i4: "cow_inv ex_heap p4" by (rule cow_step_inv [OF s4 i3 opts ex_heap_ok])
  obtain wtx prev where u: "writer p3 = Some wtx" "snapshots p3 (meta_snapshot p3) = Some prev"
    "snapshots p4 = (snapshots p3)
      (meta_snapshot p3 \<mapsto> prev\<lparr>to_free_file_pages := old_to_free (cow_meta wtx), next_snapshot := Some (Suc (meta_snapshot p3))\<rparr>,
       Suc (meta_snapshot p3) \<mapsto> \<lparr>sn_view = table_view ex_heap (mapping (mapper (cow_meta wtx))), to_free_file_pages = [], next_snapshot = None\<rparr>)"
    "meta_snapshot p4 = Suc (meta_snapshot p3)" "readers p4 = readers p3" "writer p4 = None"
    by (rule UpdateRoot_parts [OF p4(1) opts])
  have p3: "meta_snapshot p3 = 0" "snapshots p3 = [0 \<mapsto> s0]" "readers p3 = [0]" "wtx = wt'"
    using p(3-5) s0 u(1) by (simp_all add: p3_def)
  have q4: "writer p4 = None" "meta_snapshot p4 = 1" "readers p4 = [0]" using u p3 by simp_all
  define t where "t = prev\<lparr>to_free_file_pages := [4], next_snapshot := Some 1\<rparr>"
  define v where "v = \<lparr>sn_view = table_view ex_heap (mapping (mapper (cow_meta wt'))), to_free_file_pages = [], next_snapshot = None\<rparr>"
  have sn4: "snapshots p4 = [0 \<mapsto> t, 1 \<mapsto> v]" using u(3) p3 a(2) by (simp add: t_def v_def)
  have tv: "to_free_file_pages t = [4]" "next_snapshot t = Some 1" "next_snapshot v = None" by (simp_all add: t_def v_def)
  obtain p5 wt5 where p5: "MakeCowRoot 8 ex_heap p4 = Some p5" "snapshots p5 = snapshots p4" "meta_snapshot p5 = meta_snapshot p4"
    "readers p5 = readers p4" "segment_mapper (meta p5) = None" "writer p5 = Some wt5" "segment_mapper (cow_meta wt5) = None"
    using MakeCowRoot_some [OF i4 ex_heap_ok p4(2), of 8] by blast
  have s5: "?S p4 p5" by (rule cow_step.begin_write [OF q4(1) p5(1)])
  have i5: "cow_inv ex_heap p5" by (rule cow_step_inv [OF s5 i4 opts ex_heap_ok])
  define p6 where "p6 = p5\<lparr>readers := remove1 0 (readers p5)\<rparr>"
  have s6: "?S p5 p6" unfolding p6_def by (rule cow_step.end_read) (simp add: p5(4) q4(3))
  have i6: "cow_inv ex_heap p6" by (rule cow_step_inv [OF s6 i5 opts ex_heap_ok])
  have "?S\<^sup>*\<^sup>* ex_partition p6" using p(1) s3 s4 s5 s6 by (meson rtranclp.rtrancl_into_rtrancl)
  moreover have "\<not> referenced p6 0"
    using q4 sn4 tv p5(2-4) by (auto simp: referenced_def p6_def split: if_splits)
  moreover have "\<exists>s. snapshots p6 0 = Some s \<and> to_free_file_pages s = [4]" "\<exists>s. snapshots p6 (meta_snapshot p6) = Some s"
    "meta_snapshot p6 \<noteq> 0" using q4(2) sn4 tv(1) p5(2,3) by (simp_all add: p6_def)
  ultimately show thesis using that [of p6 wt5] i6 p5 by (simp add: p6_def)
qed

theorem frees_lost_during_write_witness:
  "\<exists>p p' p''. (cow_step default_store_options 8 ex_heap ex_tbl)\<^sup>*\<^sup>* ex_partition p
    \<and> FreeMappingSnapshot default_store_options 0 p = Some p' \<and> UpdateRoot default_store_options ex_heap p' = Some p''
    \<and> (\<exists>a. file_page_allocator (mapper (meta p'')) = PooledMode a \<and> 4 \<in> pooled_live a) \<and> 4 \<notin> all_pages p'' \<and> 4 \<notin> all_frees p''"
proof -
  have opts: "\<not> data_append_mode default_store_options" by (simp add: default_store_options_def)
  obtain p wt where p: "(cow_step default_store_options 8 ex_heap ex_tbl)\<^sup>*\<^sup>* ex_partition p" "cow_inv ex_heap p"
    "writer p = Some wt" "segment_mapper (meta p) = None" "segment_mapper (cow_meta wt) = None" "\<not> referenced p 0"
    "\<exists>s. snapshots p 0 = Some s \<and> to_free_file_pages s = [4]" "\<exists>s. snapshots p (meta_snapshot p) = Some s" "meta_snapshot p \<noteq> 0"
    by (rule ex_run_free)
  obtain s where s: "snapshots p 0 = Some s" "to_free_file_pages s = [4]" using p(7) by blast
  obtain a where "file_page_allocator (mapper (meta p)) = PooledMode a" using p(2) by (auto simp: cow_inv_def meta_ok_def)
  then obtain p' where p': "FreeMappingSnapshot default_store_options 0 p = Some p'" "writer p' = Some wt"
    "segment_mapper (meta p') = None" "\<exists>u. snapshots p' (meta_snapshot p') = Some u"
    using s opts p(3,4,8,9) by (auto simp: FreeMappingSnapshot_def)
  then obtain p'' where p'': "UpdateRoot default_store_options ex_heap p' = Some p''"
    using UpdateRoot_some [OF p'(2) _ p'(3) p(5)] by blast
  have "4 \<in> set (to_free_file_pages s)" by (simp add: s(2))
  from frees_lost_during_write [OF ex_partition_rest p(1) opts ex_heap_ok p(3,6) s(1) this p'(1) p''] p(1) p'(1) p''
  show ?thesis by blast
qed

end
