(* ===== verification/Branch_Props.thy ===== *)
theory Branch_Props
  imports Branch_Files
begin

text \<open>
  The guarantees of file naming and of the branch file mapping: names parse back, the generation
  that wrote a file is the one a lookup returns, and the mapping survives serialization.
\<close>

lemma branch_file_name_inject:
  assumes "IsValidBranchName b" "IsValidBranchName c" "FileNameSeparator \<notin> set kind"
  shows "branch_file_name kind i b t = branch_file_name kind j c u
    \<longleftrightarrow> i = j \<and> NormalizeBranchName b = NormalizeBranchName c \<and> t = u"
    (is "?l = ?r \<longleftrightarrow> _")
proof
  assume eq: "?l = ?r"
  obtain s1 s2 where "ParseFileName ?l = (kind, s1)" "ParseDataFileSuffix s1 = Some (i, NormalizeBranchName b, t)"
    "ParseFileName ?r = (kind, s2)" "ParseDataFileSuffix s2 = Some (j, NormalizeBranchName c, u)"
    using branch_file_name_parse assms by metis
  then show "i = j \<and> NormalizeBranchName b = NormalizeBranchName c \<and> t = u" using eq by simp
qed (simp add: branch_file_name_def)

text \<open>C29: a data or segment file name built for a valid branch name parses back to its kind, the
  file id, the lower-case branch name and the term it was built from, and two names are equal only
  when these parts are.\<close>

theorem file_name_roundtrip:
  assumes "IsValidBranchName b" "IsValidBranchName c"
  shows "(\<exists>sfx. ParseFileName (BranchDataFileName i b t) = (FileNameData, sfx)
           \<and> ParseDataFileSuffix sfx = Some (i, NormalizeBranchName b, t))
    \<and> (\<exists>sfx. ParseFileName (SegmentFileName i b t) = (FileNameSegment, sfx)
           \<and> ParseSegmentFileSuffix sfx = Some (i, NormalizeBranchName b, t))
    \<and> (BranchDataFileName i b t = BranchDataFileName j c u
         \<longleftrightarrow> i = j \<and> NormalizeBranchName b = NormalizeBranchName c \<and> t = u)
    \<and> (SegmentFileName i b t = SegmentFileName j c u
         \<longleftrightarrow> i = j \<and> NormalizeBranchName b = NormalizeBranchName c \<and> t = u)"
  using assms branch_file_name_parse [OF assms(1)]
  by (simp add: BranchDataFileName_def SegmentFileName_def ParseSegmentFileSuffix_def
      branch_file_name_inject)

definition ex_branch :: string where
  "ex_branch = ''Feature-a3''"

lemma ex_branch_valid: "IsValidBranchName ex_branch"
  by (simp add: ex_branch_def IsValidBranchName_def branch_char_def is_lower_def is_upper_def is_digit_def)

lemma main_valid: "IsValidBranchName ''main''"
  by (simp add: IsValidBranchName_def branch_char_def is_lower_def)

lemma NormalizeBranchName_examples:
  "NormalizeBranchName ex_branch = ''feature-a3''" "NormalizeBranchName ''main'' = ''main''"
  by code_simp+

theorem file_name_roundtrip_witness:
  "BranchDataFileName 3 ex_branch 5 \<noteq> BranchDataFileName 3 ''main'' 5
    \<and> (\<exists>sfx. ParseFileName (BranchDataFileName 3 ex_branch 5) = (FileNameData, sfx)
           \<and> ParseDataFileSuffix sfx = Some (3, ''feature-a3'', 5))"
  using file_name_roundtrip [OF ex_branch_valid main_valid, of 3 5 3 5]
  by (simp add: NormalizeBranchName_examples)

text \<open>C30: a manifest name and an archive name of a valid branch parse back to the branch, the term
  and the tag, provided the branch name is not itself a number; a name of the first kind is a
  branch manifest and no archive, one of the second an archive and no manifest.\<close>

theorem manifest_name_roundtrip:
  assumes "IsValidBranchName b" "ParseUint64 (NormalizeBranchName b) = None" "tag \<noteq> []"
  shows "ParseManifestFileSuffix (snd (ParseFileName (BranchManifestFileName b t)))
      = Some (NormalizeBranchName b, t, None)
    \<and> ParseManifestFileSuffix (snd (ParseFileName (BranchArchiveName b t tag)))
      = Some (NormalizeBranchName b, t, Some tag)
    \<and> ManifestTermFromFilename (BranchManifestFileName b t) = t
    \<and> IsBranchManifest (BranchManifestFileName b t) \<and> \<not> IsArchiveFile (BranchManifestFileName b t)
    \<and> IsArchiveFile (BranchArchiveName b t tag) \<and> \<not> IsBranchManifest (BranchArchiveName b t tag)"
  using assms NormalizeBranchName_valid [OF assms(1)]
  by (simp add: BranchManifestFileName_def BranchArchiveName_def ParseFileName_append
      ParseManifestFileSuffix_name ParseManifestFileSuffix_tag ManifestTermFromFilename_def
      IsBranchManifest_def IsArchiveFile_def)

theorem manifest_name_roundtrip_witness:
  "ParseUint64 ''feature-a3'' = None
    \<and> ParseManifestFileSuffix (snd (ParseFileName (BranchArchiveName ex_branch 5 ''x_1'')))
      = Some (''feature-a3'', 5, Some ''x_1'')"
proof -
  have n: "ParseUint64 ''feature-a3'' = None"
    by (simp add: ParseUint64_def strtoull_def is_space_def is_digit_def)
  show ?thesis
    using n manifest_name_roundtrip [OF ex_branch_valid, of "''x_1''" 5]
    by (simp add: NormalizeBranchName_examples)
qed

text \<open>C31: a branch whose name consists of digits is accepted as valid, but the name of its manifest
  is not recognised as a manifest and its term reads as 0.\<close>

theorem numeric_branch_manifest_lost:
  assumes "b \<noteq> []" "list_all is_digit b" "decimal b < 2 ^ 64"
  shows "IsValidBranchName b \<and> BranchManifestFileName b t \<noteq> []
    \<and> \<not> IsBranchManifest (BranchManifestFileName b t)
    \<and> ManifestTermFromFilename (BranchManifestFileName b t) = 0"
proof -
  have v: "IsValidBranchName b"
    using assms by (auto simp: IsValidBranchName_def list_all_iff branch_char_def)
  have nu: "\<not> is_upper c" if "is_digit c" for c using that by (auto simp: is_digit_def is_upper_def)
  have "map to_lower b = map (\<lambda>c. c) b"
    using assms(2) nu by (intro map_cong) (auto simp: to_lower_def list_all_iff)
  then have "NormalizeBranchName b = b" using v by (simp add: NormalizeBranchName_eq)
  moreover note ParseUint64_digits [OF assms]
  ultimately show ?thesis using v assms(1)
    by (simp add: BranchManifestFileName_def ParseFileName_append ParseManifestFileSuffix_name
        IsBranchManifest_def ManifestTermFromFilename_def)
qed

theorem numeric_branch_manifest_lost_witness:
  "IsValidBranchName ''2024'' \<and> \<not> IsBranchManifest (BranchManifestFileName ''2024'' 7)
    \<and> ManifestTermFromFilename (BranchManifestFileName ''2024'' 7) = 0"
proof -
  have "list_all is_digit ''2024''" "decimal ''2024'' < 2 ^ 64"
    by (simp_all add: is_digit_def decimal_def digit_val_def)
  from numeric_branch_manifest_lost [OF _ this, of 7] show ?thesis by simp
qed

text \<open>C32: the name of a term file parses back to its branch and partition group, its content parses
  back to the term, and the content parser accepts exactly the decimal numbers below \<open>2 ^ 64\<close>.\<close>

theorem term_file_roundtrip:
  assumes "IsValidBranchName b"
  shows "ParseCurrentTermFilename (CurrentTermFileNameForBranchAndPartitionGroup b pg)
      = Some (NormalizeBranchName b, pg)
    \<and> ParseBranchTerm (TermToString t) = Some t
    \<and> ParseBranchTerm s = (if s \<noteq> [] \<and> list_all is_digit s \<and> decimal s < 2 ^ 64
         then Some (of_nat (decimal s)) else None)"
  using CurrentTerm_parse [OF assms] parse_digits_to_string [of t]
  by (simp add: TermToString_def ParseBranchTerm_exact) (simp add: ParseBranchTerm_def to_string_digits unat_lt_64 [simplified])

theorem term_file_roundtrip_witness:
  "ParseCurrentTermFilename (CurrentTermFileNameForBranchAndPartitionGroup ''main'' 4) = Some (''main'', 4)"
  using term_file_roundtrip [OF main_valid, of 4] by (simp add: NormalizeBranchName_examples)

text \<open>C28: recording a file whose id is above all ids of its class keeps the mapping ordered, makes
  the recorded branch and term the answer of the binary search for that file, and changes no answer
  given before.\<close>

theorem branch_lookup:
  assumes "branch_sorted m" "m \<noteq> [] \<longrightarrow> class_max fid (last m) < ToFileId fid"
  shows "\<exists>m'. SetBranchFileIdTerm m fid b t = Some m' \<and> branch_sorted m'
    \<and> GetBranchNameAndTerm m' fid = Some (b, t)
    \<and> (\<forall>k g. GetBranchNameAndTerm m k = Some g \<longrightarrow> GetBranchNameAndTerm m' k = Some g)"
proof -
  have "m \<noteq> [] \<longrightarrow> class_max fid (last m) \<le> ToFileId fid" using assms(2) by auto
  from SetBranchFileIdTerm_sorted [OF assms(1) this, of b t] show ?thesis
    using SetBranchFileIdTerm_lookup [OF assms] by auto
qed

definition ex_ranges :: BranchFileMapping where
  "ex_ranges =
    [\<lparr>branch_name = ''main'', branch_term = 1, max_file_id = 4, max_segment_file_id = 0\<rparr>,
     \<lparr>branch_name = ''dev'', branch_term = 2, max_file_id = 7, max_segment_file_id = 3\<rparr>]"

theorem branch_lookup_witness:
  "\<exists>m'. SetBranchFileIdTerm ex_ranges (DataFileKey 8) ''dev'' 3 = Some m'
    \<and> GetBranchNameAndTerm m' (DataFileKey 8) = Some (''dev'', 3)"
proof -
  have "branch_sorted ex_ranges" by (simp add: branch_sorted_def ex_ranges_def range_le_def)
  moreover have "ex_ranges \<noteq> [] \<longrightarrow> class_max (DataFileKey 8) (last ex_ranges) < ToFileId (DataFileKey 8)"
    by (simp add: DataFileKey_class class_max_def) (simp add: ex_ranges_def)
  ultimately show ?thesis using branch_lookup [of ex_ranges "DataFileKey 8" "''dev''" 3] by blast
qed

text \<open>data and segment files of the same number have different keys, each key keeps its class
  and gives back the number, for every number that leaves room for the reserved keys.\<close>

lemma file_key_classes:
  assumes "i < 2 ^ 63 - 1" "j < 2 ^ 63 - 1"
  shows "IsDataFile (DataFileKey i) \<and> IsSegmentFile (SegmentFileKey j)
    \<and> ToFileId (DataFileKey i) = i \<and> ToFileId (SegmentFileKey j) = j
    \<and> DataFileKey i \<noteq> SegmentFileKey j \<and> DataFileKey i \<noteq> ManifestFileId
    \<and> SegmentFileKey j \<noteq> ManifestFileId"
  using DataFileKey_class [OF assms(1)] SegmentFileKey_class [OF assms(2)]
  by (auto simp: ManifestFileId_def IsDataFile_def IsSegmentFile_def kMinReserved_def)

text \<open>C33: the metadata a manifest carries about its branch, file ranges included, is restored by the
  parser, whatever bytes follow it.\<close>

theorem branch_metadata_roundtrip:
  assumes "name_fits (md_branch_name md)" "list_all range_fits (md_file_ranges md)"
    "length (md_file_ranges md) < 2 ^ 64"
  shows "DeserializeBranchManifestMetadata (SerializeBranchManifestMetadata md @ rest) = Some md"
  by (rule DeserializeBranchManifestMetadata_Serialize [OF assms])

theorem branch_metadata_roundtrip_witness:
  "DeserializeBranchManifestMetadata (SerializeBranchManifestMetadata
      \<lparr>md_branch_name = ''dev'', md_term = 2, md_file_ranges = ex_ranges\<rparr> @ [1, 2])
    = Some \<lparr>md_branch_name = ''dev'', md_term = 2, md_file_ranges = ex_ranges\<rparr>"
  by (rule branch_metadata_roundtrip) (simp_all add: ex_ranges_def range_fits_def name_fits_def)

text \<open>the printed form of a table identifier reads back as the same identifier, dots in the
  table name included.\<close>

lemma table_ident_roundtrip: "TableIdent_FromString (TableIdent_ToString t) = t"
  by (rule TableIdent_roundtrip)

end
