(* ===== verification/Queues.thy ===== *)
theory Queues
  imports Eloq_Prelude
begin

text \<open>
  The queues of the sources and the interface they share: the ring buffer
  \<open>CircularQueue\<close> (\<open>include/circular_queue.h\<close>), the list of pending writes of a partition that is
  threaded through the requests (\<open>Shard::PendingWriteQueue\<close>, \<open>src/storage/shard.cpp\<close>), and the list
  of waiting tasks that is threaded through the tasks (\<open>WaitingZone\<close>, \<open>src/tasks/task.cpp\<close>).
  The locales \<open>fifo\<close> and \<open>deque\<close> state what a client relies on; each queue is an instance.
\<close>

section \<open>The interface of a queue\<close>

text \<open>\<open>rep s xs\<close>: the state \<open>s\<close> holds the items \<open>xs\<close>, the front first.  \<open>fresh\<close> is what a push asks of the
  item; a failed assertion of the code is \<open>None\<close>.\<close>

fun push_all :: "('a \<Rightarrow> 's \<Rightarrow> 's option) \<Rightarrow> 'a list \<Rightarrow> 's \<Rightarrow> 's option" where
  "push_all push [] s = Some s"
| "push_all push (x # xs) s = Option.bind (push x s) (push_all push xs)"

fun pop_n :: "('s \<Rightarrow> ('a option \<times> 's) option) \<Rightarrow> nat \<Rightarrow> 's \<Rightarrow> ('a list \<times> 's) option" where
  "pop_n pop 0 s = Some ([], s)"
| "pop_n pop (Suc n) s =
    (case pop s of
       None \<Rightarrow> None
     | Some (None, s) \<Rightarrow> Some ([], s)
     | Some (Some x, s) \<Rightarrow> map_option (\<lambda>(xs, s). (x # xs, s)) (pop_n pop n s))"

locale fifo =
  fixes rep :: "'s \<Rightarrow> 'a list \<Rightarrow> bool"
    and push :: "'a \<Rightarrow> 's \<Rightarrow> 's option"
    and pop :: "'s \<Rightarrow> ('a option \<times> 's) option"
    and fresh :: "'a \<Rightarrow> 'a list \<Rightarrow> bool"
  assumes rep_unique: "rep s xs \<Longrightarrow> rep s ys \<Longrightarrow> xs = ys"
    and push_back: "rep s xs \<Longrightarrow> fresh x xs \<Longrightarrow> \<exists>s'. push x s = Some s' \<and> rep s' (xs @ [x])"
    and pop_nil: "rep s [] \<Longrightarrow> \<exists>s'. pop s = Some (None, s') \<and> rep s' []"
    and pop_cons: "rep s (x # xs) \<Longrightarrow> \<exists>s'. pop s = Some (Some x, s') \<and> rep s' xs"
begin

lemma push_all_ok:
  assumes "rep s xs" "\<forall>i < length ys. fresh (ys ! i) (xs @ take i ys)"
  shows "\<exists>s'. push_all push ys s = Some s' \<and> rep s' (xs @ ys)"
  using assms
proof (induction ys arbitrary: s xs)
  case Nil
  then show ?case by simp
next
  case (Cons y ys)
  have "fresh y xs" using Cons.prems(2) by (auto dest: spec [of _ 0])
  then obtain s1 where s1: "push y s = Some s1" "rep s1 (xs @ [y])"
    using push_back Cons.prems(1) by blast
  have "\<forall>i < length ys. fresh (ys ! i) ((xs @ [y]) @ take i ys)"
    using Cons.prems(2) by (auto dest: spec [of _ "Suc _"])
  then show ?case using Cons.IH [OF s1(2)] s1(1) by simp
qed

lemma pop_n_ok:
  "rep s xs \<Longrightarrow> \<exists>s'. pop_n pop n s = Some (take n xs, s') \<and> rep s' (drop n xs)"
proof (induction n arbitrary: s xs)
  case 0
  then show ?case by simp
next
  case (Suc n)
  show ?case
  proof (cases xs)
    case Nil
    then show ?thesis using pop_nil Suc.prems by fastforce
  next
    case (Cons x xs')
    then obtain s1 where "pop s = Some (Some x, s1)" "rep s1 xs'"
      using pop_cons Suc.prems by blast
    then show ?thesis using Suc.IH Cons by fastforce
  qed
qed

text \<open>What is pushed is popped in the same order, behind what was there.\<close>

lemma fifo_order:
  assumes "rep s xs" "\<forall>i < length ys. fresh (ys ! i) (xs @ take i ys)"
  shows "\<exists>s1 s2. push_all push ys s = Some s1 \<and> pop_n pop (length xs + length ys) s1 = Some (xs @ ys, s2)
    \<and> rep s2 []"
proof -
  obtain s1 where s1: "push_all push ys s = Some s1" "rep s1 (xs @ ys)"
    using push_all_ok [OF assms] by blast
  then show ?thesis using pop_n_ok [OF s1(2), of "length xs + length ys"] by auto
qed

end

text \<open>A queue that also takes items at its front.\<close>

locale deque = fifo +
  fixes push_first :: "'b \<Rightarrow> 'a \<Rightarrow> 'a option"
  assumes push_front: "rep s xs \<Longrightarrow> fresh x xs \<Longrightarrow> \<exists>s'. push_first x s = Some s' \<and> rep s' (x # xs)"
begin

text \<open>An item that was popped and is put back is the next to be popped again.\<close>

lemma undo_pop:
  assumes "rep s (x # xs)" "fresh x xs"
  shows "\<exists>s1 s2. pop s = Some (Some x, s1) \<and> push_first x s1 = Some s2 \<and> rep s2 (x # xs)"
  using pop_cons [OF assms(1)] push_front assms(2) by blast

end

section \<open>The ring buffer\<close>

record 'a CircularQueue =
  cq_vec :: "'a list"
  cq_head :: nat
  cq_cnt :: nat
  cq_capacity :: nat
  cq_mask :: nat

text \<open>\<open>std::invalid_argument\<close> is \<open>None\<close>; \<open>dflt\<close> is the value-initialised item.\<close>

definition ValidateCapacity :: "nat \<Rightarrow> bool" where
  "ValidateCapacity capacity = (\<not> (capacity = 0 \<or> capacity AND (capacity - 1) \<noteq> 0))"

definition CircularQueue_new :: "'a \<Rightarrow> nat \<Rightarrow> 'a CircularQueue option" where
  "CircularQueue_new dflt capacity =
    (if ValidateCapacity capacity
     then Some \<lparr>cq_vec = replicate capacity dflt, cq_head = 0, cq_cnt = 0, cq_capacity = capacity,
                cq_mask = capacity - 1\<rparr>
     else None)"

definition cq_Reset :: "'a \<Rightarrow> nat \<Rightarrow> 'a CircularQueue \<Rightarrow> 'a CircularQueue option" where
  "cq_Reset dflt new_cap q =
    (if ValidateCapacity new_cap
     then Some (q\<lparr>cq_head := 0, cq_cnt := 0, cq_capacity := new_cap, cq_mask := new_cap - 1,
                  cq_vec := replicate new_cap dflt\<rparr>)
     else None)"

text \<open>The items from the head to the end of the array, then those before the head, at the start of an
  array of twice the size.\<close>

definition cq_grown :: "'a \<Rightarrow> 'a CircularQueue \<Rightarrow> 'a list" where
  "cq_grown dflt q =
    drop (cq_head q) (cq_vec q) @ take (cq_head q) (cq_vec q)
    @ replicate (2 * cq_capacity q - length (cq_vec q)) dflt"

definition Enqueue :: "'a \<Rightarrow> 'a \<Rightarrow> 'a CircularQueue \<Rightarrow> 'a CircularQueue" where
  "Enqueue dflt item q =
    (let q = (if cq_cnt q \<noteq> cq_capacity q then q
              else q\<lparr>cq_vec := cq_grown dflt q, cq_capacity := 2 * cq_capacity q,
                     cq_mask := 2 * cq_capacity q - 1, cq_head := 0\<rparr>);
         tail = (cq_head q + cq_cnt q) AND cq_mask q
     in q\<lparr>cq_vec := (cq_vec q)[tail := item], cq_cnt := cq_cnt q + 1\<rparr>)"

definition EnqueueAsFirst :: "'a \<Rightarrow> 'a \<Rightarrow> 'a CircularQueue \<Rightarrow> 'a CircularQueue" where
  "EnqueueAsFirst dflt item q =
    (if cq_cnt q = 0 then q\<lparr>cq_vec := (cq_vec q)[0 := item], cq_head := 0, cq_cnt := 1\<rparr>
     else if cq_cnt q = cq_capacity q then
       let new_capacity = 2 * cq_capacity q
       in q\<lparr>cq_vec := (cq_grown dflt q)[new_capacity - 1 := item], cq_head := new_capacity - 1,
            cq_cnt := cq_capacity q + 1, cq_capacity := new_capacity, cq_mask := new_capacity - 1\<rparr>
     else
       let h = (if cq_head q \<noteq> 0 then cq_head q - 1 else cq_capacity q - 1)
       in q\<lparr>cq_vec := (cq_vec q)[h := item], cq_head := h, cq_cnt := cq_cnt q + 1\<rparr>)"

definition Dequeue :: "'a CircularQueue \<Rightarrow> 'a CircularQueue option" where
  "Dequeue q =
    (if cq_cnt q = 0 then None
     else Some (q\<lparr>cq_head := (cq_head q + 1) AND cq_mask q, cq_cnt := cq_cnt q - 1\<rparr>))"

definition Peek :: "'a CircularQueue \<Rightarrow> 'a" where
  "Peek q = cq_vec q ! cq_head q"

definition cq_Get :: "nat \<Rightarrow> 'a CircularQueue \<Rightarrow> 'a" where
  "cq_Get index q = cq_vec q ! ((cq_head q + index) AND cq_mask q)"

text \<open>Every later item moves one slot towards the front.\<close>

function Erase_loop :: "nat \<Rightarrow> 'a CircularQueue \<Rightarrow> 'a CircularQueue" where
  "Erase_loop index q =
    (if index < cq_cnt q - 1
     then Erase_loop (index + 1)
       (q\<lparr>cq_vec := (cq_vec q)[(cq_head q + index) AND cq_mask q := cq_Get (index + 1) q]\<rparr>)
     else q)"
  by pat_completeness auto
termination
  by (relation "measure (\<lambda>(index, q). cq_cnt q - index)") auto

declare Erase_loop.simps [simp del]

text \<open>On an empty queue the bound \<open>cnt_ - 1\<close> wraps around and the loop leaves the array: \<open>None\<close>.\<close>

definition Erase :: "nat \<Rightarrow> 'a CircularQueue \<Rightarrow> 'a CircularQueue option" where
  "Erase index q =
    (if cq_cnt q = 0 then None
     else
       let q = Erase_loop index q; n = cq_cnt q - 1
       in Some (q\<lparr>cq_cnt := n, cq_head := (if n = 0 then 0 else cq_head q)\<rparr>))"

text \<open>The loops of the clients: look at the front and remove it while there is something.\<close>

definition cq_pop :: "'a CircularQueue \<Rightarrow> ('a option \<times> 'a CircularQueue) option" where
  "cq_pop q = (if cq_cnt q > 0 then map_option (Pair (Some (Peek q))) (Dequeue q) else Some (None, q))"

subsection \<open>The items of the ring\<close>

definition cq_ok :: "'a CircularQueue \<Rightarrow> bool" where
  "cq_ok q = ((\<exists>k. cq_capacity q = 2 ^ k) \<and> cq_mask q = cq_capacity q - 1 \<and> length (cq_vec q) = cq_capacity q
    \<and> cq_head q < cq_capacity q \<and> cq_cnt q \<le> cq_capacity q)"

definition cq_items :: "'a CircularQueue \<Rightarrow> 'a list" where
  "cq_items q = map (\<lambda>i. cq_Get i q) [0..<cq_cnt q]"

definition cq_rep :: "'a CircularQueue \<Rightarrow> 'a list \<Rightarrow> bool" where
  "cq_rep q xs = (cq_ok q \<and> cq_items q = xs)"

lemma and_mask_mod: "c = 2 ^ k \<Longrightarrow> (n :: nat) AND (c - 1) = n mod c"
  by (metis mask_eq_exp_minus_1 take_bit_eq_mask take_bit_eq_mod)

lemma power_of_two_and: "(2 ^ k :: nat) AND (2 ^ k - 1) = 0"
  by (metis and_mask_mod mod_self)

lemma and_pred_zero: "0 < n \<Longrightarrow> n AND (n - 1) = 0 \<Longrightarrow> \<exists>k. n = (2 :: nat) ^ k"
proof (induction n rule: less_induct)
  case (less n)
  show ?case
  proof (cases "even n")
    case True
    then obtain m where m: "n = 2 * m" by blast
    have "n AND (n - 1) = 2 * (m AND (m - 1))"
    proof -
      have "(n - 1) div 2 = m - 1" using less.prems(1) m by simp
      then show ?thesis by (subst and_rec) (simp add: m)
    qed
    then have "m AND (m - 1) = 0" using less.prems(2) by simp
    then obtain k where "m = 2 ^ k" using less.IH [of m] less.prems(1) m by auto
    then show ?thesis using m by (intro exI [of _ "Suc k"]) simp
  next
    case False
    then obtain m where m: "n = 2 * m + 1" by (blast elim: oddE)
    have "n AND (n - 1) = 2 * m" by (subst and_rec) (simp add: m)
    then show ?thesis using less.prems(2) m by (intro exI [of _ 0]) simp
  qed
qed

lemma ValidateCapacity_iff: "ValidateCapacity n \<longleftrightarrow> (\<exists>k. n = 2 ^ k)"
  unfolding ValidateCapacity_def using and_pred_zero power_of_two_and by (metis gr0I power_eq_0_iff zero_neq_numeral)

lemma cq_mod: "cq_ok q \<Longrightarrow> n AND cq_mask q = n mod cq_capacity q"
  unfolding cq_ok_def using and_mask_mod by metis

lemma cq_ok_pos: "cq_ok q \<Longrightarrow> 0 < cq_capacity q"
  by (auto simp: cq_ok_def)

lemma cq_Get_ok: "cq_ok q \<Longrightarrow> cq_Get i q = cq_vec q ! ((cq_head q + i) mod cq_capacity q)"
  by (simp add: cq_Get_def cq_mod)

text \<open>Slots of the ring, counted from the head.\<close>

lemma ring_slot: "h < c \<Longrightarrow> i < c \<Longrightarrow> (h + i) mod c = (if h + i < c then h + i else h + i - (c :: nat))"
  by (simp add: le_mod_geq)

lemma ring_slot_eq: "h < c \<Longrightarrow> i < c \<Longrightarrow> j < c \<Longrightarrow> (h + i) mod c = (h + j) mod (c :: nat) \<longleftrightarrow> i = j"
  by (auto simp: ring_slot split: if_splits)

lemma cq_items_length [simp]: "length (cq_items q) = cq_cnt q"
  by (simp add: cq_items_def)

lemma cq_items_nth: "i < cq_cnt q \<Longrightarrow> cq_items q ! i = cq_Get i q"
  by (simp add: cq_items_def)

lemma cq_items_slot:
  "cq_ok q \<Longrightarrow> i < cq_cnt q \<Longrightarrow> cq_items q ! i = cq_vec q ! ((cq_head q + i) mod cq_capacity q)"
  by (simp add: cq_items_nth cq_Get_ok)

lemma cq_grown_ok:
  assumes "cq_ok q"
  shows "length (cq_grown dflt q) = 2 * cq_capacity q"
    and "i < cq_capacity q \<Longrightarrow> cq_grown dflt q ! i = cq_Get i q"
proof -
  have l: "length (cq_vec q) = cq_capacity q" "cq_head q < cq_capacity q"
    using assms by (auto simp: cq_ok_def)
  then show "length (cq_grown dflt q) = 2 * cq_capacity q"
    by (simp add: cq_grown_def)
  show "cq_grown dflt q ! i = cq_Get i q" if "i < cq_capacity q"
    using l that by (auto simp: cq_grown_def cq_Get_ok [OF assms] ring_slot nth_append add.commute)
qed

text \<open>A full ring is replaced by one that has room and holds the same items.\<close>

definition cq_double :: "'a \<Rightarrow> 'a CircularQueue \<Rightarrow> 'a CircularQueue" where
  "cq_double dflt q =
    q\<lparr>cq_vec := cq_grown dflt q, cq_capacity := 2 * cq_capacity q, cq_mask := 2 * cq_capacity q - 1, cq_head := 0\<rparr>"

lemma cq_double_ok:
  assumes "cq_ok q"
  shows "cq_ok (cq_double dflt q)" "cq_items (cq_double dflt q) = cq_items q"
    "cq_cnt (cq_double dflt q) < cq_capacity (cq_double dflt q)"
proof -
  obtain k where k: "cq_capacity q = 2 ^ k" using assms by (auto simp: cq_ok_def)
  show ok: "cq_ok (cq_double dflt q)"
    using assms k cq_grown_ok(1) [OF assms, of dflt]
    by (auto simp: cq_ok_def cq_double_def intro!: exI [of _ "Suc k"])
  show "cq_items (cq_double dflt q) = cq_items q"
  proof (rule nth_equalityI)
    show "length (cq_items (cq_double dflt q)) = length (cq_items q)"
      by (simp add: cq_double_def)
    fix i assume "i < length (cq_items (cq_double dflt q))"
    then have i: "i < cq_cnt q" by (simp add: cq_double_def)
    then have "i < cq_capacity q" using assms by (auto simp: cq_ok_def)
    then show "cq_items (cq_double dflt q) ! i = cq_items q ! i"
      using i cq_grown_ok(2) [OF assms, of i dflt] cq_items_slot [OF ok, of i] cq_items_nth [of i q]
      by (simp add: cq_double_def)
  qed
  show "cq_cnt (cq_double dflt q) < cq_capacity (cq_double dflt q)"
    using assms k by (auto simp: cq_double_def cq_ok_def)
qed

lemma cq_push_room:
  assumes "cq_ok q" "cq_cnt q < cq_capacity q"
  shows "cq_rep (q\<lparr>cq_vec := (cq_vec q)[(cq_head q + cq_cnt q) mod cq_capacity q := x], cq_cnt := cq_cnt q + 1\<rparr>)
    (cq_items q @ [x])" (is "cq_rep ?q' _")
proof -
  have ok: "cq_ok ?q'" using assms by (auto simp: cq_ok_def)
  have h: "cq_head q < cq_capacity q" "length (cq_vec q) = cq_capacity q"
    using assms by (auto simp: cq_ok_def)
  have "cq_items ?q' ! i = (cq_items q @ [x]) ! i" if "i < cq_cnt q + 1" for i
    using that assms(2) h ring_slot_eq [OF h(1), of i "cq_cnt q"] cq_items_slot [OF ok, of i]
      cq_items_slot [OF assms(1), of i]
    by (auto simp: nth_append nth_list_update less_Suc_eq)
  then show ?thesis using ok by (auto simp: cq_rep_def intro: nth_equalityI)
qed

lemma Enqueue_ok:
  assumes "cq_rep q xs"
  shows "cq_rep (Enqueue dflt x q) (xs @ [x])"
proof (cases "cq_cnt q = cq_capacity q")
  case True
  have d: "Enqueue dflt x q =
    (let q = cq_double dflt q in q\<lparr>cq_vec := (cq_vec q)[(cq_head q + cq_cnt q) AND cq_mask q := x], cq_cnt := cq_cnt q + 1\<rparr>)"
    using True by (simp add: Enqueue_def cq_double_def Let_def)
  have ok: "cq_ok q" "cq_items q = xs" using assms by (auto simp: cq_rep_def)
  show ?thesis
    using cq_push_room [OF cq_double_ok(1,3) [OF ok(1), of dflt], of x] cq_double_ok(2) [OF ok(1), of dflt] ok(2)
    by (simp add: d Let_def cq_mod [OF cq_double_ok(1) [OF ok(1)]])
next
  case False
  have ok: "cq_ok q" "cq_items q = xs" using assms by (auto simp: cq_rep_def)
  then have "cq_cnt q < cq_capacity q" using False by (auto simp: cq_ok_def)
  then show ?thesis
    using cq_push_room [OF ok(1), of x] False by (simp add: Enqueue_def Let_def cq_mod [OF ok(1)] ok(2))
qed

lemma cq_rep_Nil: "cq_rep q [] \<longleftrightarrow> cq_ok q \<and> cq_cnt q = 0"
  by (auto simp: cq_rep_def cq_items_def)

lemma cq_pop_ok:
  assumes "cq_rep q (x # xs)"
  shows "\<exists>q'. cq_pop q = Some (Some x, q') \<and> cq_rep q' xs"
proof -
  have ok: "cq_ok q" "cq_items q = x # xs" using assms by (auto simp: cq_rep_def)
  have n: "cq_cnt q = Suc (length xs)" using cq_items_length [of q] ok(2) by simp
  have h: "cq_head q < cq_capacity q" using ok(1) by (auto simp: cq_ok_def)
  have px: "Peek q = x"
    using cq_items_nth [of 0 q] ok(2) n h by (simp add: Peek_def cq_Get_ok [OF ok(1)])
  let ?q' = "q\<lparr>cq_head := (cq_head q + 1) mod cq_capacity q, cq_cnt := cq_cnt q - 1\<rparr>"
  have ok': "cq_ok ?q'" using ok(1) by (auto simp: cq_ok_def)
  have "cq_items ?q' ! i = xs ! i" if "i < length xs" for i
  proof -
    have "cq_items ?q' ! i = cq_items q ! Suc i"
      using that n cq_items_slot [OF ok', of i] cq_items_slot [OF ok(1), of "Suc i"] by (simp add: mod_add_left_eq)
    then show ?thesis using ok(2) by simp
  qed
  then have "cq_items ?q' = xs" using n by (auto intro: nth_equalityI)
  then show ?thesis
    using ok' px n by (auto simp: cq_pop_def Dequeue_def cq_mod [OF ok(1)] cq_rep_def)
qed

lemma cq_push_front_room:
  assumes "cq_ok q" "cq_cnt q < cq_capacity q" "h < cq_capacity q" "(h + 1) mod cq_capacity q = cq_head q"
  shows "cq_rep (q\<lparr>cq_vec := (cq_vec q)[h := x], cq_head := h, cq_cnt := cq_cnt q + 1\<rparr>) (x # cq_items q)"
    (is "cq_rep ?q' _")
proof -
  have ok: "cq_ok ?q'" using assms by (auto simp: cq_ok_def)
  have l: "length (cq_vec q) = cq_capacity q" using assms by (auto simp: cq_ok_def)
  have "cq_items ?q' ! i = (x # cq_items q) ! i" if "i < cq_cnt q + 1" for i
  proof (cases i)
    case 0
    then show ?thesis using cq_items_slot [OF ok, of 0] assms(3) l by simp
  next
    case (Suc j)
    have "(h + Suc j) mod cq_capacity q = (cq_head q + j) mod cq_capacity q"
      using assms(4) by (metis add.assoc add.commute mod_add_left_eq plus_1_eq_Suc)
    moreover have "(h + Suc j) mod cq_capacity q \<noteq> h"
      using ring_slot_eq [OF assms(3), of "Suc j" 0] Suc that assms(2,3) by simp
    ultimately show ?thesis
      using cq_items_slot [OF ok, of "Suc j"] cq_items_slot [OF assms(1), of j] Suc that by simp
  qed
  then show ?thesis using ok by (auto simp: cq_rep_def intro: nth_equalityI)
qed

lemma EnqueueAsFirst_ok:
  assumes "cq_rep q xs"
  shows "cq_rep (EnqueueAsFirst dflt x q) (x # xs)"
proof -
  have ok: "cq_ok q" "cq_items q = xs" using assms by (auto simp: cq_rep_def)
  have h: "cq_head q < cq_capacity q" "cq_cnt q \<le> cq_capacity q" "length (cq_vec q) = cq_capacity q"
    using ok(1) by (auto simp: cq_ok_def)
  consider "cq_cnt q = 0" | "cq_cnt q \<noteq> 0" "cq_cnt q = cq_capacity q" | "cq_cnt q \<noteq> 0" "cq_cnt q < cq_capacity q"
    using h(2) by linarith
  then show ?thesis
  proof cases
    case 1
    have ok': "cq_ok (EnqueueAsFirst dflt x q)"
      using ok(1) 1 cq_ok_pos [OF ok(1)] by (auto simp: EnqueueAsFirst_def cq_ok_def)
    have "cq_items (EnqueueAsFirst dflt x q) = [x]"
      using cq_items_slot [OF ok', of 0] 1 h cq_ok_pos [OF ok(1)]
      by (intro nth_equalityI) (simp_all add: EnqueueAsFirst_def)
    then show ?thesis using ok' ok(2) 1 by (auto simp: cq_rep_def cq_items_def)
  next
    case 2
    have d: "EnqueueAsFirst dflt x q =
      (let q = cq_double dflt q; h = cq_capacity q - 1
       in q\<lparr>cq_vec := (cq_vec q)[h := x], cq_head := h, cq_cnt := cq_cnt q + 1\<rparr>)"
      using 2 by (simp add: EnqueueAsFirst_def cq_double_def Let_def)
    have "(cq_capacity (cq_double dflt q) - 1 + 1) mod cq_capacity (cq_double dflt q) = cq_head (cq_double dflt q)"
      "cq_capacity (cq_double dflt q) - 1 < cq_capacity (cq_double dflt q)"
      using cq_ok_pos [OF ok(1)] by (simp_all add: cq_double_def)
    then show ?thesis
      using cq_push_front_room [OF cq_double_ok(1,3) [OF ok(1), of dflt]] cq_double_ok(2) [OF ok(1), of dflt] ok(2)
      by (simp add: d Let_def)
  next
    case 3
    let ?h = "if cq_head q \<noteq> 0 then cq_head q - 1 else cq_capacity q - 1"
    have "?h < cq_capacity q" "(?h + 1) mod cq_capacity q = cq_head q" using h(1) by auto
    then show ?thesis
      using cq_push_front_room [OF ok(1) 3(2), of ?h x] 3 ok(2) by (simp add: EnqueueAsFirst_def Let_def)
  qed
qed

lemma Erase_loop_ok:
  assumes "cq_ok q" "i < cq_cnt q"
  shows "cq_ok (Erase_loop i q) \<and> cq_cnt (Erase_loop i q) = cq_cnt q
    \<and> take (cq_cnt q - 1) (cq_items (Erase_loop i q)) = take i (cq_items q) @ drop (Suc i) (cq_items q)"
  using assms
proof (induction i q rule: Erase_loop.induct)
  case (1 i q)
  show ?case
  proof (cases "i < cq_cnt q - 1")
    case False
    then have i: "Suc i = cq_cnt q" using 1(3) by simp
    then show ?thesis using 1(2) False by (subst (1 2 3) Erase_loop.simps) (auto simp: i [symmetric])
  next
    case True
    let ?s = "(cq_head q + i) mod cq_capacity q"
    let ?q1 = "q\<lparr>cq_vec := (cq_vec q)[(cq_head q + i) AND cq_mask q := cq_Get (i + 1) q]\<rparr>"
    have ok1: "cq_ok ?q1" using 1(2) by (auto simp: cq_ok_def)
    have h: "cq_head q < cq_capacity q" "cq_cnt q \<le> cq_capacity q" "length (cq_vec q) = cq_capacity q"
      using 1(2) by (auto simp: cq_ok_def)
    have items1: "cq_items ?q1 = (cq_items q)[i := cq_items q ! Suc i]"
    proof (rule nth_equalityI)
      fix j assume "j < length (cq_items ?q1)"
      then have j: "j < cq_cnt q" by simp
      have "(cq_head q + j) mod cq_capacity q = ?s \<longleftrightarrow> j = i"
        using ring_slot_eq [OF h(1), of j i] j True h(2) by simp
      then show "cq_items ?q1 ! j = (cq_items q)[i := cq_items q ! Suc i] ! j"
        using cq_items_slot [OF ok1, of j] cq_items_slot [OF 1(2), of j] cq_items_nth [of "Suc i" q] j True h
        by (auto simp: cq_mod [OF 1(2)] nth_list_update)
    qed simp
    have e: "Erase_loop i q = Erase_loop (i + 1) ?q1"
      using True by (subst Erase_loop.simps) simp
    have "take (i + 1) (cq_items ?q1) @ drop (Suc (i + 1)) (cq_items ?q1) = take i (cq_items q) @ drop (Suc i) (cq_items q)"
      unfolding items1 using True by (simp add: take_Suc_conv_app_nth Cons_nth_drop_Suc)
    then show ?thesis
      using 1(1) [OF True ok1] True by (simp add: e)
  qed
qed

lemma Erase_ok:
  assumes "cq_rep q xs" "i < length xs"
  shows "\<exists>q'. Erase i q = Some q' \<and> cq_rep q' (take i xs @ drop (Suc i) xs)"
proof -
  have ok: "cq_ok q" "cq_items q = xs" "i < cq_cnt q" using assms by (auto simp: cq_rep_def)
  let ?q = "Erase_loop i q"
  have l: "cq_ok ?q" "cq_cnt ?q = cq_cnt q" "take (cq_cnt q - 1) (cq_items ?q) = take i xs @ drop (Suc i) xs"
    using Erase_loop_ok [OF ok(1,3)] ok(2) by auto
  let ?r = "?q\<lparr>cq_cnt := cq_cnt ?q - 1, cq_head := (if cq_cnt ?q - 1 = 0 then 0 else cq_head ?q)\<rparr>"
  have ok': "cq_ok ?r" using l(1) by (auto simp: cq_ok_def)
  have "cq_items ?r = take (cq_cnt q - 1) (cq_items ?q)"
  proof (rule nth_equalityI)
    fix j assume "j < length (cq_items ?r)"
    then have "j < cq_cnt q - 1" using l(2) by simp
    then show "cq_items ?r ! j = take (cq_cnt q - 1) (cq_items ?q) ! j"
      using cq_items_slot [OF ok', of j] cq_items_slot [OF l(1), of j] l(2) by simp
  qed (simp add: l(2))
  then show ?thesis using ok' l ok(3) by (auto simp: Erase_def Let_def cq_rep_def)
qed

interpretation ring: deque cq_rep "\<lambda>x q. Some (Enqueue dflt x q)" cq_pop "\<lambda>_ _. True"
  "\<lambda>x q. Some (EnqueueAsFirst dflt x q)" for dflt
proof unfold_locales
  show "cq_rep s xs \<Longrightarrow> cq_rep s ys \<Longrightarrow> xs = ys" for s :: "'a CircularQueue" and xs ys
    by (simp add: cq_rep_def)
  show "\<exists>s'. cq_pop s = Some (None, s') \<and> cq_rep s' []" if "cq_rep s []" for s :: "'a CircularQueue"
    using that by (auto simp: cq_rep_Nil cq_pop_def)
qed (auto intro: Enqueue_ok EnqueueAsFirst_ok cq_pop_ok)

section \<open>Lists threaded through their items\<close>

text \<open>\<open>links\<close> is the field \<open>next_\<close> of all objects.  \<open>linked nx h xs\<close>: following the links from \<open>h\<close>
  gives \<open>xs\<close> and ends.\<close>

type_synonym 'a links = "'a \<Rightarrow> 'a option"

fun linked :: "'a links \<Rightarrow> 'a option \<Rightarrow> 'a list \<Rightarrow> bool" where
  "linked nx h [] = (h = None)"
| "linked nx h (x # xs) = (h = Some x \<and> linked nx (nx x) xs)"

lemma linked_unique: "linked nx h xs \<Longrightarrow> linked nx h ys \<Longrightarrow> xs = ys"
proof (induction xs arbitrary: h ys)
  case Nil
  then show ?case by (cases ys) auto
next
  case (Cons x xs)
  then show ?case by (cases ys) auto
qed

lemma linked_update: "x \<notin> set xs \<Longrightarrow> linked (nx(x := v)) h xs = linked nx h xs"
  by (induction xs arbitrary: h) auto

lemma linked_append:
  assumes "linked nx h (xs @ [l])" "nx x = None" "x \<notin> set (xs @ [l])" "distinct (xs @ [l])"
  shows "linked (nx(l := Some x)) h (xs @ [l, x])"
  using assms
proof (induction xs arbitrary: h)
  case Nil
  then show ?case by auto
next
  case (Cons y xs)
  then show ?case by auto
qed

subsection \<open>The pending writes of a partition\<close>

record 'a PendingWriteQueue =
  pq_running :: bool
  pq_head :: "'a option"
  pq_tail :: "'a option"

definition PendingWriteQueue_new :: "'a PendingWriteQueue" where
  "PendingWriteQueue_new = \<lparr>pq_running = False, pq_head = None, pq_tail = None\<rparr>"

definition PushBack :: "'a \<Rightarrow> 'a PendingWriteQueue \<times> 'a links \<Rightarrow> ('a PendingWriteQueue \<times> 'a links) option" where
  "PushBack req = (\<lambda>(q, nx).
    let nx = nx(req := None) in
    case pq_tail q of
      None \<Rightarrow> (if pq_head q \<noteq> None then None else Some (q\<lparr>pq_head := Some req, pq_tail := Some req\<rparr>, nx))
    | Some t \<Rightarrow> (if pq_head q = None then None else Some (q\<lparr>pq_tail := Some req\<rparr>, nx(t := Some req))))"

definition PushFront :: "'a \<Rightarrow> 'a PendingWriteQueue \<times> 'a links \<Rightarrow> 'a PendingWriteQueue \<times> 'a links" where
  "PushFront req = (\<lambda>(q, nx).
    if pq_head q = None then (q\<lparr>pq_head := Some req, pq_tail := Some req\<rparr>, nx(req := None))
    else (q\<lparr>pq_head := Some req\<rparr>, nx(req := pq_head q)))"

definition PopFront :: "'a PendingWriteQueue \<times> 'a links \<Rightarrow> 'a option \<times> ('a PendingWriteQueue \<times> 'a links)" where
  "PopFront = (\<lambda>(q, nx).
    case pq_head q of
      None \<Rightarrow> (None, (q, nx))
    | Some req \<Rightarrow>
        (Some req, (q\<lparr>pq_head := nx req, pq_tail := (if nx req = None then None else pq_tail q)\<rparr>, nx(req := None))))"

definition pwq_Empty :: "'a PendingWriteQueue \<Rightarrow> bool" where
  "pwq_Empty q = (pq_head q = None)"

definition pwq_rep :: "'a PendingWriteQueue \<times> 'a links \<Rightarrow> 'a list \<Rightarrow> bool" where
  "pwq_rep = (\<lambda>(q, nx) xs.
    linked nx (pq_head q) xs \<and> distinct xs \<and> pq_tail q = (if xs = [] then None else Some (last xs)))"

text \<open>The lists of different partitions share the links; a list only changes those of its own items.\<close>

lemma PushBack_ok:
  assumes "pwq_rep (q, nx) xs" "req \<notin> set xs"
  shows "\<exists>q' nx'. PushBack req (q, nx) = Some (q', nx') \<and> pwq_rep (q', nx') (xs @ [req])
    \<and> pq_running q' = pq_running q \<and> (\<forall>y. y \<notin> set xs \<and> y \<noteq> req \<longrightarrow> nx' y = nx y)"
proof (cases xs rule: rev_cases)
  case Nil
  then show ?thesis using assms by (auto simp: pwq_rep_def PushBack_def)
next
  case (snoc ys l)
  have r: "linked nx (pq_head q) (ys @ [l])" "distinct (ys @ [l])" "pq_tail q = Some l"
    using assms(1) snoc by (auto simp: pwq_rep_def)
  have h: "pq_head q \<noteq> None" using r(1) by (cases ys) auto
  have "linked (nx(req := None)) (pq_head q) (ys @ [l])"
    using r(1) assms(2) snoc by (simp add: linked_update)
  from linked_append [OF this] have "linked (nx(req := None, l := Some req)) (pq_head q) (ys @ [l, req])"
    using r(2) assms(2) snoc by auto
  then show ?thesis using r h assms(2) snoc by (auto simp: pwq_rep_def PushBack_def)
qed

lemma PushFront_ok:
  assumes "pwq_rep (q, nx) xs" "req \<notin> set xs"
  shows "\<exists>q' nx'. PushFront req (q, nx) = (q', nx') \<and> pwq_rep (q', nx') (req # xs)
    \<and> pq_running q' = pq_running q \<and> (\<forall>y. y \<noteq> req \<longrightarrow> nx' y = nx y)"
  using assms by (cases xs) (auto simp: pwq_rep_def PushFront_def linked_update)

lemma PopFront_ok:
  assumes "pwq_rep (q, nx) (req # xs)"
  shows "\<exists>q' nx'. PopFront (q, nx) = (Some req, (q', nx')) \<and> pwq_rep (q', nx') xs
    \<and> pq_running q' = pq_running q \<and> (\<forall>y. y \<noteq> req \<longrightarrow> nx' y = nx y)"
  using assms by (cases xs) (auto simp: pwq_rep_def PopFront_def linked_update)

lemma pwq_Empty_iff: "pwq_rep (q, nx) xs \<Longrightarrow> pwq_Empty q \<longleftrightarrow> xs = []"
  by (cases xs) (auto simp: pwq_rep_def pwq_Empty_def)

lemma pwq_rep_frame:
  "pwq_rep (q, nx) xs \<Longrightarrow> \<forall>y \<in> set xs. nx' y = nx y \<Longrightarrow> pwq_rep (q, nx') xs"
proof -
  have "linked nx h xs \<Longrightarrow> \<forall>y \<in> set xs. nx' y = nx y \<Longrightarrow> linked nx' h xs" for h
    by (induction xs arbitrary: h) auto
  then show "pwq_rep (q, nx) xs \<Longrightarrow> \<forall>y \<in> set xs. nx' y = nx y \<Longrightarrow> pwq_rep (q, nx') xs"
    by (auto simp: pwq_rep_def)
qed

lemma pwq_rep_unique: "pwq_rep (q, nx) xs \<Longrightarrow> pwq_rep (q, nx) ys \<Longrightarrow> xs = ys"
  using linked_unique [of nx "pq_head q" xs ys] by (simp add: pwq_rep_def)

interpretation pending: deque pwq_rep PushBack "\<lambda>s. Some (PopFront s)" "\<lambda>x xs. x \<notin> set xs" "\<lambda>x s. Some (PushFront x s)"
proof unfold_locales
  show "pwq_rep s xs \<Longrightarrow> pwq_rep s ys \<Longrightarrow> xs = ys" for s :: "'a PendingWriteQueue \<times> 'a links" and xs ys
    using pwq_rep_unique [of "fst s" "snd s" xs ys] by simp
  show "\<exists>s'. PushBack x s = Some s' \<and> pwq_rep s' (xs @ [x])" if "pwq_rep s xs" "x \<notin> set xs"
    for s :: "'a PendingWriteQueue \<times> 'a links" and x xs
    using PushBack_ok [of "fst s" "snd s" xs x] that by auto
  show "\<exists>s'. Some (PopFront s) = Some (None, s') \<and> pwq_rep s' []" if "pwq_rep s []"
    for s :: "'a PendingWriteQueue \<times> 'a links"
    using that by (cases s) (auto simp: PopFront_def pwq_rep_def)
  show "\<exists>s'. Some (PopFront s) = Some (Some x, s') \<and> pwq_rep s' xs" if "pwq_rep s (x # xs)"
    for s :: "'a PendingWriteQueue \<times> 'a links" and x xs
    using PopFront_ok [of "fst s" "snd s" x xs] that by auto
  show "\<exists>s'. Some (PushFront x s) = Some s' \<and> pwq_rep s' (x # xs)" if "pwq_rep s xs" "x \<notin> set xs"
    for s :: "'a PendingWriteQueue \<times> 'a links" and x xs
    using PushFront_ok [of "fst s" "snd s" xs x] that by auto
qed

end
