(* ===== verification/Shard.thy ===== *)
theory Shard
  imports Queues Branch_Files Store_Options "HOL-Library.Monad_Syntax"
begin

text \<open>
  How a shard turns requests into tasks (\<open>src/storage/shard.cpp\<close>, \<open>include/storage/shard.h\<close>,
  \<open>src/tasks/task_manager.cpp\<close>): reads start at once, writes of a partition wait in its
  \<open>PendingWriteQueue\<close> and run one at a time, requests that ran out of memory or missed a resource are
  tried again.

  Everything runs on the thread of the shard.  A task is a coroutine, so its body may end inside
  \<open>StartTask\<close> or at any later time; what the body does to pages and files is the subject of other
  theories, here it only ends with an error code and may add one of the internal requests of its
  partition.  The C++ calls that are still to return are a stack of values of type \<open>call\<close>: each operation
  returns the calls it makes last, and \<open>shard_step\<close> executes the topmost one.
\<close>

section \<open>Requests and tasks\<close>

datatype RequestType =
    RT_Read | RT_Floor | RT_Scan | RT_ListObject | RT_ListStandbyPartition
  | RT_BatchWrite | RT_Reopen | RT_Truncate | RT_Drop | RT_DropTable | RT_Archive | RT_Compact | RT_LocalGc
  | RT_CleanExpired | RT_GlobalArchive | RT_GlobalReopen | RT_GlobalListArchiveTags | RT_CreateBranch
  | RT_DeleteBranch | RT_GlobalCreateBranch

text \<open>The requests of the clients, the three that are part of a pending queue, and the one that
  \<open>EnqueueForAutoReopen\<close> owns.\<close>

datatype req_ref =
    User nat | CompactReq TableIdent | LocalGcReq TableIdent | ExpireReq TableIdent | ReopenReq TableIdent

record KvRequest =
  rq_type :: RequestType
  rq_tbl :: TableIdent
  rq_batch_empty :: bool
  reopen_retry_remaining :: nat
  oom_retry_remaining :: nat
  rq_done :: bool
  rq_err :: KvError

definition ReadOnly :: "RequestType \<Rightarrow> bool" where
  "ReadOnly ty = (ty \<in> {RT_Read, RT_Floor, RT_Scan, RT_ListObject, RT_ListStandbyPartition})"

definition AutoReopenRetry :: "RequestType \<Rightarrow> bool" where
  "AutoReopenRetry ty = (ty \<in> {RT_Read, RT_Floor, RT_Scan})"

text \<open>Requests that \<open>SendRequest\<close> handles itself.\<close>

definition handled_by_store :: "RequestType \<Rightarrow> bool" where
  "handled_by_store ty =
    (ty \<in> {RT_DropTable, RT_GlobalArchive, RT_GlobalReopen, RT_GlobalListArchiveTags, RT_GlobalCreateBranch})"

definition KvRequest_new :: "RequestType \<Rightarrow> TableIdent \<Rightarrow> KvRequest" where
  "KvRequest_new ty tbl =
    \<lparr>rq_type = ty, rq_tbl = tbl, rq_batch_empty = True, reopen_retry_remaining = 0, oom_retry_remaining = 0,
     rq_done = True, rq_err = NoError\<rparr>"

datatype TaskType =
  TT_Read | TT_Scan | TT_EvictFile | TT_Prewarm | TT_ListObject | TT_ListStandbyPartition | TT_BatchWrite | TT_Reopen
  | TT_BackgroundWrite

definition task_ReadOnly :: "TaskType \<Rightarrow> bool" where
  "task_ReadOnly ty = (ty \<notin> {TT_BatchWrite, TT_Reopen, TT_BackgroundWrite})"

type_synonym task_ref = "TaskType \<times> nat"

record KvTask =
  tk_tbl :: TableIdent
  tk_req :: req_ref
  needs_auto_reopen :: bool
  needs_oom_retry :: bool

section \<open>Pools of tasks\<close>

record TaskPool =
  tp_free :: "nat list"
  tp_created :: nat
  tp_growth :: bool

definition TaskPool_new :: "nat \<Rightarrow> bool \<Rightarrow> TaskPool" where
  "TaskPool_new n growth = \<lparr>tp_free = rev [0..<n], tp_created = n, tp_growth = growth\<rparr>"

definition pool_GetTask :: "TaskPool \<Rightarrow> (nat \<times> TaskPool) option" where
  "pool_GetTask p =
    (case tp_free p of
       t # ts \<Rightarrow> Some (t, p\<lparr>tp_free := ts\<rparr>)
     | [] \<Rightarrow> if tp_growth p then Some (tp_created p, p\<lparr>tp_created := tp_created p + 1\<rparr>) else None)"

definition pool_FreeTask :: "nat \<Rightarrow> TaskPool \<Rightarrow> TaskPool" where
  "pool_FreeTask t p = p\<lparr>tp_free := t # tp_free p\<rparr>"

record TaskManager =
  tm_pool :: "TaskType \<Rightarrow> TaskPool"
  num_active :: nat
  num_active_write :: nat
  max_write_concurrency_limit :: nat

definition unlimited :: nat where
  "unlimited = 2 ^ 64 - 1"

definition TaskManager_new :: "nat \<Rightarrow> TaskManager" where
  "TaskManager_new opt =
    \<lparr>tm_pool = (\<lambda>ty. case ty of
        TT_BatchWrite \<Rightarrow> if opt > 0 then TaskPool_new opt False else TaskPool_new 1024 True
      | TT_BackgroundWrite \<Rightarrow> if opt > 0 then TaskPool_new opt False else TaskPool_new 1024 True
      | TT_Read \<Rightarrow> TaskPool_new 2048 True
      | TT_Scan \<Rightarrow> TaskPool_new 2048 True
      | TT_ListObject \<Rightarrow> TaskPool_new 512 True
      | TT_ListStandbyPartition \<Rightarrow> TaskPool_new 128 True
      | TT_Reopen \<Rightarrow> TaskPool_new 256 True
      | _ \<Rightarrow> TaskPool_new 0 True),
     num_active = 0, num_active_write = 0, max_write_concurrency_limit = (if opt > 0 then opt else unlimited)\<rparr>"

definition take_task :: "TaskType \<Rightarrow> TaskManager \<Rightarrow> (nat \<times> TaskManager) option" where
  "take_task ty tm =
    map_option (\<lambda>(t, p). (t, tm\<lparr>tm_pool := (tm_pool tm)(ty := p)\<rparr>)) (pool_GetTask (tm_pool tm ty))"

text \<open>\<open>GetBatchWriteTask\<close> and \<open>GetBackgroundWrite\<close> differ in the pool; the getters of the other tasks
  do not look at the limit.\<close>

definition GetWriteTask :: "TaskType \<Rightarrow> TaskManager \<Rightarrow> (nat \<times> TaskManager) option" where
  "GetWriteTask ty tm =
    (if num_active_write tm \<ge> max_write_concurrency_limit tm then None
     else map_option (\<lambda>(t, tm). (t, tm\<lparr>num_active := num_active tm + 1, num_active_write := num_active_write tm + 1\<rparr>))
       (take_task ty tm))"

definition GetOtherTask :: "TaskType \<Rightarrow> TaskManager \<Rightarrow> (nat \<times> TaskManager) option" where
  "GetOtherTask ty tm = take_task ty (tm\<lparr>num_active := num_active tm + 1\<rparr>)"

definition counts_as_write :: "TaskType \<Rightarrow> bool" where
  "counts_as_write ty = (ty = TT_BatchWrite \<or> ty = TT_BackgroundWrite)"

definition FreeTask :: "task_ref \<Rightarrow> TaskManager \<Rightarrow> TaskManager option" where
  "FreeTask t tm =
    (let ty = fst t;
         tm1 = tm\<lparr>num_active := num_active tm - 1, tm_pool := (tm_pool tm)(ty := pool_FreeTask (snd t) (tm_pool tm ty))\<rparr>
     in if ty = TT_EvictFile \<or> ty = TT_Prewarm then None
        else if counts_as_write ty then
          if num_active_write tm > 0 then Some (tm1\<lparr>num_active_write := num_active_write tm - 1\<rparr>) else None
        else Some tm1)"

section \<open>The shard\<close>

record PendingReopenState =
  inflight :: bool
  waiters :: "req_ref list"

text \<open>\<open>reqs\<close> and \<open>links\<close> are the fields of the request objects, \<open>tasks\<close> the tasks that were started
  and have not ended, \<open>requests\<close> the queue that other threads fill.\<close>

record Shard =
  reqs :: "req_ref \<Rightarrow> KvRequest"
  links :: "req_ref links"
  requests :: "req_ref list"
  pending_queues :: "TableIdent \<Rightarrow> req_ref PendingWriteQueue option"
  pending_reopens :: "TableIdent \<Rightarrow> PendingReopenState option"
  task_mgr :: TaskManager
  tasks :: "task_ref \<Rightarrow> KvTask option"

datatype call =
    TryStart TableIdent
  | Dispatch
  | Retry req_ref bool bool

definition set_req :: "req_ref \<Rightarrow> (KvRequest \<Rightarrow> KvRequest) \<Rightarrow> Shard \<Rightarrow> Shard" where
  "set_req r f s = s\<lparr>reqs := (reqs s)(r := f (reqs s r))\<rparr>"

text \<open>The concurrent queue accepts every request: it fails only when memory cannot be allocated.\<close>

definition AddKvRequest :: "req_ref \<Rightarrow> Shard \<Rightarrow> Shard" where
  "AddKvRequest r s = s\<lparr>requests := requests s @ [r]\<rparr>"

definition SendRequest :: "bool \<Rightarrow> req_ref \<Rightarrow> Shard \<Rightarrow> bool \<times> Shard" where
  "SendRequest running r s =
    (if \<not> running then (False, s)
     else (True, AddKvRequest r (set_req r (\<lambda>q. q\<lparr>rq_err := NoError, rq_done := False\<rparr>) s)))"

text \<open>\<open>SetDone\<close> of a request without a callback, and the callback of the request that reopens a
  partition: the requests that wait for it fail as well or are sent again.  \<open>running\<close> tells, for each of
  them, whether the store still accepts requests.\<close>

definition set_done :: "req_ref \<Rightarrow> KvError \<Rightarrow> Shard \<Rightarrow> Shard" where
  "set_done r err = set_req r (\<lambda>q. q\<lparr>rq_err := err, rq_done := True\<rparr>)"

definition resume_waiter :: "(req_ref \<Rightarrow> bool) \<Rightarrow> KvError \<Rightarrow> req_ref \<Rightarrow> Shard \<Rightarrow> Shard" where
  "resume_waiter running reopen_err r s =
    (if reopen_err \<noteq> NoError then set_done r reopen_err s
     else case SendRequest (running r) r s of (True, s) \<Rightarrow> s | (False, s) \<Rightarrow> set_done r NotRunning s)"

definition reopen_callback :: "(req_ref \<Rightarrow> bool) \<Rightarrow> TableIdent \<Rightarrow> KvError \<Rightarrow> Shard \<Rightarrow> Shard" where
  "reopen_callback running tbl reopen_err s =
    (case pending_reopens s tbl of
       None \<Rightarrow> s
     | Some st \<Rightarrow>
        fold (resume_waiter running reopen_err) (waiters st) (s\<lparr>pending_reopens := (pending_reopens s)(tbl := None)\<rparr>))"

definition SetDone :: "(req_ref \<Rightarrow> bool) \<Rightarrow> req_ref \<Rightarrow> KvError \<Rightarrow> Shard \<Rightarrow> Shard" where
  "SetDone running r err s =
    (let s = set_done r err s in
     case r of ReopenReq tbl \<Rightarrow> reopen_callback running tbl err s | _ \<Rightarrow> s)"

section \<open>Starting requests\<close>

definition StartTask :: "task_ref \<Rightarrow> TableIdent \<Rightarrow> req_ref \<Rightarrow> Shard \<Rightarrow> Shard" where
  "StartTask t tbl r s =
    s\<lparr>tasks := (tasks s)(t \<mapsto> \<lparr>tk_tbl = tbl, tk_req = r, needs_auto_reopen = False, needs_oom_retry = False\<rparr>)\<rparr>"

definition start_other :: "TaskType \<Rightarrow> req_ref \<Rightarrow> Shard \<Rightarrow> (bool \<times> Shard) option" where
  "start_other ty r s = do {
     (t, tm) \<leftarrow> GetOtherTask ty (task_mgr s);
     Some (True, StartTask (ty, t) (rq_tbl (reqs s r)) r (s\<lparr>task_mgr := tm\<rparr>)) }"

definition start_write :: "TaskType \<Rightarrow> req_ref \<Rightarrow> Shard \<Rightarrow> (bool \<times> Shard) option" where
  "start_write ty r s =
    (case GetWriteTask ty (task_mgr s) of
       None \<Rightarrow> Some (False, s)
     | Some (t, tm) \<Rightarrow> Some (True, StartTask (ty, t) (rq_tbl (reqs s r)) r (s\<lparr>task_mgr := tm\<rparr>)))"

text \<open>A task is taken for a batch without entries, too, but it is not started.\<close>

definition ProcessReq :: "req_ref \<Rightarrow> Shard \<Rightarrow> (bool \<times> Shard) option" where
  "ProcessReq r s =
    (case rq_type (reqs s r) of
       RT_Read \<Rightarrow> start_other TT_Read r s
     | RT_Floor \<Rightarrow> start_other TT_Read r s
     | RT_Scan \<Rightarrow> start_other TT_Scan r s
     | RT_ListObject \<Rightarrow> start_other TT_ListObject r s
     | RT_ListStandbyPartition \<Rightarrow> start_other TT_ListStandbyPartition r s
     | RT_Reopen \<Rightarrow> start_other TT_Reopen r s
     | RT_BatchWrite \<Rightarrow>
        (case GetWriteTask TT_BatchWrite (task_mgr s) of
           None \<Rightarrow> Some (False, s)
         | Some (t, tm) \<Rightarrow>
            let s = s\<lparr>task_mgr := tm\<rparr>
            in Some (True, if rq_batch_empty (reqs s r) then s else StartTask (TT_BatchWrite, t) (rq_tbl (reqs s r)) r s))
     | RT_Truncate \<Rightarrow> start_write TT_BatchWrite r s
     | RT_Drop \<Rightarrow> start_write TT_BatchWrite r s
     | RT_CleanExpired \<Rightarrow> start_write TT_BatchWrite r s
     | RT_Archive \<Rightarrow> start_write TT_BackgroundWrite r s
     | RT_Compact \<Rightarrow> start_write TT_BackgroundWrite r s
     | RT_LocalGc \<Rightarrow> start_write TT_BackgroundWrite r s
     | RT_CreateBranch \<Rightarrow> start_write TT_BackgroundWrite r s
     | RT_DeleteBranch \<Rightarrow> start_write TT_BackgroundWrite r s
     | _ \<Rightarrow> Some (True, set_done r InvalidArgs s))"

definition put_queue :: "TableIdent \<Rightarrow> req_ref PendingWriteQueue \<times> req_ref links \<Rightarrow> Shard \<Rightarrow> Shard" where
  "put_queue tbl = (\<lambda>(q, nx) s. s\<lparr>pending_queues := (pending_queues s)(tbl \<mapsto> q), links := nx\<rparr>)"

definition TryStartPendingWrite :: "TableIdent \<Rightarrow> Shard \<Rightarrow> Shard option" where
  "TryStartPendingWrite tbl s =
    (case pending_queues s tbl of
       None \<Rightarrow> Some s
     | Some q \<Rightarrow>
        if pq_running q \<or> pwq_Empty q then Some s
        else
          (case PopFront (q, links s) of
             (None, _) \<Rightarrow> None
           | (Some req, (q, nx)) \<Rightarrow> do {
               (started, s) \<leftarrow> ProcessReq req (put_queue tbl (q\<lparr>pq_running := True\<rparr>, nx) s);
               if started then Some s
               else do {
                 q \<leftarrow> pending_queues s tbl;
                 Some (put_queue tbl (PushFront req (q\<lparr>pq_running := False\<rparr>, links s)) s) } }))"

text \<open>\<open>table_ids\<close> is the order in which the unordered map of the queues is traversed.\<close>

definition TryDispatchPendingWrites :: "TableIdent list \<Rightarrow> call list" where
  "TryDispatchPendingWrites table_ids = map TryStart table_ids"

text \<open>A new queue comes with its three internal requests.\<close>

definition try_emplace :: "TableIdent \<Rightarrow> Shard \<Rightarrow> req_ref PendingWriteQueue \<times> Shard" where
  "try_emplace tbl s =
    (case pending_queues s tbl of
       Some q \<Rightarrow> (q, s)
     | None \<Rightarrow>
        (PendingWriteQueue_new,
         s\<lparr>pending_queues := (pending_queues s)(tbl \<mapsto> PendingWriteQueue_new),
           reqs := (reqs s)(CompactReq tbl := KvRequest_new RT_Compact tbl,
                            LocalGcReq tbl := KvRequest_new RT_LocalGc tbl,
                            ExpireReq tbl := KvRequest_new RT_CleanExpired tbl)\<rparr>))"

definition OnReceivedReq :: "req_ref \<Rightarrow> Shard \<Rightarrow> (Shard \<times> call list) option" where
  "OnReceivedReq r s =
    (if \<not> ReadOnly (rq_type (reqs s r)) then
       let tbl = rq_tbl (reqs s r);
           (q, s) = try_emplace tbl s
       in map_option (\<lambda>qn. (put_queue tbl qn s, [TryStart tbl])) (PushBack r (q, links s))
     else map_option (\<lambda>(_, s). (s, [])) (ProcessReq r s))"

section \<open>The end of a task\<close>

definition EnqueueForAutoReopen :: "req_ref \<Rightarrow> Shard \<Rightarrow> Shard \<times> call list" where
  "EnqueueForAutoReopen r s =
    (let tbl = rq_tbl (reqs s r);
         st = (case pending_reopens s tbl of None \<Rightarrow> \<lparr>inflight = False, waiters = []\<rparr> | Some st \<Rightarrow> st);
         st1 = st\<lparr>waiters := waiters st @ [r]\<rparr>
     in if inflight st then (s\<lparr>pending_reopens := (pending_reopens s)(tbl \<mapsto> st1)\<rparr>, [])
        else
          let (q, s) = try_emplace tbl (s\<lparr>pending_reopens := (pending_reopens s)(tbl \<mapsto> st1\<lparr>inflight := True\<rparr>)\<rparr>);
              s = s\<lparr>reqs := (reqs s)(ReopenReq tbl := KvRequest_new RT_Reopen tbl)\<rparr>
          in (put_queue tbl (PushFront (ReopenReq tbl) (q, links s)) s, [TryStart tbl]))"

text \<open>What \<open>StartTask\<close> does when the body of the task has returned \<open>err\<close>.\<close>

definition FinishTask :: "StoreMode \<Rightarrow> (req_ref \<Rightarrow> bool) \<Rightarrow> task_ref \<Rightarrow> KvError \<Rightarrow> Shard \<Rightarrow> Shard option" where
  "FinishTask mode running t err s = do {
     tk \<leftarrow> tasks s t;
     let r = tk_req tk;
     if err = OutOfMem \<and> oom_retry_remaining (reqs s r) > 0 then
       Some ((set_req r (\<lambda>q. q\<lparr>oom_retry_remaining := oom_retry_remaining q - 1\<rparr>) s)
               \<lparr>tasks := (tasks s)(t \<mapsto> tk\<lparr>needs_oom_retry := True\<rparr>)\<rparr>)
     else if err \<noteq> ResourceMissing then Some (SetDone running r err s)
     else if AutoReopenRetry (rq_type (reqs s r)) \<and> reopen_retry_remaining (reqs s r) > 0
       \<and> (mode = Cloud \<or> mode = StandbyReplica) then
       if TableIdent_IsValid (rq_tbl (reqs s r)) then
         Some ((set_req r (\<lambda>q. q\<lparr>reopen_retry_remaining := reopen_retry_remaining q - 1\<rparr>) s)
                 \<lparr>tasks := (tasks s)(t \<mapsto> tk\<lparr>needs_auto_reopen := True\<rparr>)\<rparr>)
       else None
     else Some (SetDone running r err s) }"

definition OnTaskFinished :: "task_ref \<Rightarrow> Shard \<Rightarrow> (Shard \<times> call list) option" where
  "OnTaskFinished t s = do {
     tk \<leftarrow> tasks s t;
     let retry = Retry (tk_req tk) (needs_oom_retry tk) (needs_auto_reopen tk);
     if \<not> task_ReadOnly (fst t) then do {
       q \<leftarrow> pending_queues s (tk_tbl tk);
       tm \<leftarrow> FreeTask t (task_mgr s);
       Some (s\<lparr>task_mgr := tm, tasks := (tasks s)(t := None),
               pending_queues := (pending_queues s)(tk_tbl tk :=
                 (if pwq_Empty q then None else Some (q\<lparr>pq_running := False\<rparr>)))\<rparr>, [Dispatch, retry]) }
     else do {
       tm \<leftarrow> FreeTask t (task_mgr s);
       Some (s\<lparr>task_mgr := tm, tasks := (tasks s)(t := None)\<rparr>, [retry]) } }"

definition retry_request :: "req_ref \<Rightarrow> bool \<Rightarrow> bool \<Rightarrow> Shard \<Rightarrow> Shard \<times> call list" where
  "retry_request r oom_retry auto_reopen s =
    (if oom_retry then (AddKvRequest r (set_req r (\<lambda>q. q\<lparr>rq_err := NoError, rq_done := False\<rparr>) s), [])
     else if \<not> auto_reopen then (s, [])
     else EnqueueForAutoReopen r s)"

section \<open>Internal requests\<close>

text \<open>A write task asks for compaction, for the removal of expired keys or for a collection of files of
  its partition, unless one is pending.\<close>

definition HasPending :: "req_ref \<Rightarrow> TableIdent \<Rightarrow> Shard \<Rightarrow> bool option" where
  "HasPending r tbl s = map_option (\<lambda>_. \<not> rq_done (reqs s r)) (pending_queues s tbl)"

definition AddPending :: "req_ref \<Rightarrow> TableIdent \<Rightarrow> Shard \<Rightarrow> Shard option" where
  "AddPending r tbl s = do {
     pending \<leftarrow> HasPending r tbl s;
     q \<leftarrow> pending_queues s tbl;
     if pending then None
     else do {
       let s = set_req r (\<lambda>q. q\<lparr>rq_tbl := tbl, rq_done := False\<rparr>) s;
       qn \<leftarrow> PushBack r (q, links s);
       Some (put_queue tbl qn s) } }"

definition request_internal :: "req_ref \<Rightarrow> TableIdent \<Rightarrow> Shard \<Rightarrow> Shard option" where
  "request_internal r tbl s = do {
     pending \<leftarrow> HasPending r tbl s;
     if pending then Some s else AddPending r tbl s }"

section \<open>Steps of the shard\<close>

definition Shard_new :: "nat \<Rightarrow> (req_ref \<Rightarrow> KvRequest) \<Rightarrow> Shard" where
  "Shard_new max_write rq =
    \<lparr>reqs = rq, links = (\<lambda>_. None), requests = [], pending_queues = Map.empty, pending_reopens = Map.empty,
     task_mgr = TaskManager_new max_write, tasks = Map.empty\<rparr>"

text \<open>The calls of the stack are executed one after the other; a call returns the calls it makes.\<close>

inductive call_step :: "call list \<times> Shard \<Rightarrow> call list \<times> Shard \<Rightarrow> bool" where
  try_start: "TryStartPendingWrite tbl s = Some s' \<Longrightarrow> call_step (TryStart tbl # cs, s) (cs, s')"
| dispatch: "distinct ts \<Longrightarrow> set ts = dom (pending_queues s) \<Longrightarrow>
    call_step (Dispatch # cs, s) (TryDispatchPendingWrites ts @ cs, s)"
| retry: "retry_request r oom reopen s = (s', cs') \<Longrightarrow> call_step (Retry r oom reopen # cs, s) (cs' @ cs, s')"

text \<open>What the shard does without new work: it executes calls, takes received requests and runs its
  tasks, whose bodies end one after the other.\<close>

inductive drain_step :: "StoreMode \<Rightarrow> call list \<times> Shard \<Rightarrow> call list \<times> Shard \<Rightarrow> bool" for mode where
  call: "call_step c c' \<Longrightarrow> drain_step mode c c'"
| receive: "requests s = xs @ r # ys \<Longrightarrow> OnReceivedReq r (s\<lparr>requests := xs @ ys\<rparr>) = Some (s', cs) \<Longrightarrow>
    drain_step mode ([], s) (cs, s')"
| finish: "FinishTask mode running t err s = Some s1 \<Longrightarrow> OnTaskFinished t s1 = Some (s2, cs') \<Longrightarrow>
    drain_step mode (cs, s) (cs' @ cs, s2)"

text \<open>New work comes from the clients, who do not touch a request that is not done, and from the write
  tasks.\<close>

inductive shard_step :: "StoreMode \<Rightarrow> call list \<times> Shard \<Rightarrow> call list \<times> Shard \<Rightarrow> bool" for mode where
  drain: "drain_step mode c c' \<Longrightarrow> shard_step mode c c'"
| send: "rq_done (reqs s (User n)) \<Longrightarrow> \<not> handled_by_store (rq_type q) \<Longrightarrow> TableIdent_IsValid (rq_tbl q) \<Longrightarrow>
    SendRequest True (User n) (set_req (User n) (\<lambda>_. q) s) = (True, s') \<Longrightarrow> shard_step mode (cs, s) (cs, s')"
| internal: "tasks s t = Some tk \<Longrightarrow> \<not> task_ReadOnly (fst t) \<Longrightarrow>
    r \<in> {CompactReq (tk_tbl tk), LocalGcReq (tk_tbl tk), ExpireReq (tk_tbl tk)} \<Longrightarrow>
    request_internal r (tk_tbl tk) s = Some s' \<Longrightarrow> shard_step mode (cs, s) (cs, s')"

end
