(* ===== verification/Shard_Correct.thy ===== *)
theory Shard_Correct
  imports Shard
begin

text \<open>
  The invariant of the shard.  Two ghosts describe a state: \<open>loc\<close> tells for every request where it is,
  \<open>Q\<close> gives the items of the queue of every partition.  Each operation of \<open>Shard\<close> moves one request
  from one place to another; the lemmas of this theory are one per move, and the steps are composed of
  them.
\<close>

section \<open>Where a request is\<close>

text \<open>\<open>Popped\<close>, \<open>InHand\<close> and \<open>Ending\<close> are places during an operation.  \<open>Stuck\<close> is the request of an empty
  batch after \<open>ProcessReq\<close>: its queue stays marked as running, but there is no task.\<close>

datatype place =
    Nowhere | Received | Queued TableIdent | Popped | InHand | Running task_ref | Ending task_ref
  | Waiting TableIdent | Retrying | Stuck TableIdent

definition waiting :: "Shard \<Rightarrow> TableIdent \<Rightarrow> req_ref list" where
  "waiting s tbl = (case pending_reopens s tbl of None \<Rightarrow> [] | Some st \<Rightarrow> waiters st)"

fun retried :: "call \<Rightarrow> req_ref list" where
  "retried (Retry r oom reopen) = (if oom \<or> reopen then [r] else [])"
| "retried _ = []"

definition retries :: "call list \<Rightarrow> req_ref list" where
  "retries cs = concat (map retried cs)"

lemma retries_simps [simp]:
  "retries [] = []" "retries (c # cs) = retried c @ retries cs" "retries (cs @ cs') = retries cs @ retries cs'"
  by (simp_all add: retries_def)

lemma retries_dispatch [simp]: "retries (TryDispatchPendingWrites ts) = []"
  by (induction ts) (auto simp: TryDispatchPendingWrites_def)

text \<open>Type and partition of the requests that belong to the shard.\<close>

fun owned :: "req_ref \<Rightarrow> (RequestType \<times> TableIdent) option" where
  "owned (User n) = None"
| "owned (CompactReq tbl) = Some (RT_Compact, tbl)"
| "owned (LocalGcReq tbl) = Some (RT_LocalGc, tbl)"
| "owned (ExpireReq tbl) = Some (RT_CleanExpired, tbl)"
| "owned (ReopenReq tbl) = Some (RT_Reopen, tbl)"

definition internal_of :: "TableIdent \<Rightarrow> req_ref set" where
  "internal_of tbl = {CompactReq tbl, LocalGcReq tbl, ExpireReq tbl}"

definition owned_ok :: "req_ref \<Rightarrow> KvRequest \<Rightarrow> bool" where
  "owned_ok r q = (case owned r of None \<Rightarrow> True | Some (ty, tbl) \<Rightarrow>
     rq_type q = ty \<and> rq_tbl q = tbl \<and> oom_retry_remaining q = 0 \<and> reopen_retry_remaining q = 0)"

lemma owned_ok_upd [simp]:
  "owned_ok r (q\<lparr>rq_err := e\<rparr>) = owned_ok r q" "owned_ok r (q\<lparr>rq_done := d\<rparr>) = owned_ok r q"
  by (auto simp: owned_ok_def split: option.split)

section \<open>The parts of the invariant\<close>

definition inv_queues :: "(TableIdent \<Rightarrow> req_ref list) \<Rightarrow> Shard \<Rightarrow> bool" where
  "inv_queues Q s =
    (finite (dom (pending_queues s)) \<and>
     (\<forall>tbl. pending_queues s tbl = None \<longrightarrow> Q tbl = []) \<and>
     (\<forall>tbl q. pending_queues s tbl = Some q \<longrightarrow> pwq_rep (q, links s) (Q tbl)))"

definition inv_places :: "(req_ref \<Rightarrow> place) \<Rightarrow> (TableIdent \<Rightarrow> req_ref list) \<Rightarrow> req_ref list \<Rightarrow> Shard \<Rightarrow> bool" where
  "inv_places loc Q R s =
    (finite {r. loc r \<noteq> Nowhere}
     \<and> distinct (requests s) \<and> (\<forall>r. r \<in> set (requests s) \<longleftrightarrow> loc r = Received)
     \<and> (\<forall>r tbl. r \<in> set (Q tbl) \<longleftrightarrow> loc r = Queued tbl)
     \<and> (\<forall>r t. (\<exists>tk. tasks s t = Some tk \<and> tk_req tk = r) \<longleftrightarrow> loc r = Running t \<or> loc r = Ending t)
     \<and> (\<forall>tbl. distinct (waiting s tbl)) \<and> (\<forall>r tbl. r \<in> set (waiting s tbl) \<longleftrightarrow> loc r = Waiting tbl)
     \<and> distinct R \<and> (\<forall>r. r \<in> set R \<longleftrightarrow> loc r = Retrying))"

text \<open>The request is done, or about to be: its task ends.\<close>

fun gone :: "place \<Rightarrow> bool" where
  "gone Nowhere = True"
| "gone (Ending t) = True"
| "gone _ = False"

fun is_stuck :: "place \<Rightarrow> bool" where
  "is_stuck (Stuck tbl) = True"
| "is_stuck _ = False"

text \<open>Where the requests of the shard itself can be.\<close>

fun owned_place :: "place \<Rightarrow> bool" where
  "owned_place Received = False"
| "owned_place (Waiting tbl) = False"
| "owned_place Retrying = False"
| "owned_place (Stuck tbl) = False"
| "owned_place _ = True"

fun write_place :: "place \<Rightarrow> bool" where
  "write_place (Queued tbl) = True"
| "write_place Popped = True"
| "write_place (Stuck tbl) = True"
| "write_place _ = False"

definition req_ok :: "req_ref \<Rightarrow> place \<Rightarrow> KvRequest \<Rightarrow> bool" where
  "req_ok r p q =
    ((owned r = None \<longrightarrow> (rq_done q \<longleftrightarrow> gone p)
        \<and> (p \<noteq> Nowhere \<longrightarrow> TableIdent_IsValid (rq_tbl q) \<and> \<not> handled_by_store (rq_type q)))
     \<and> (owned r \<noteq> None \<longrightarrow> owned_place p \<and> (rq_done q \<longrightarrow> gone p \<or> r \<in> range ReopenReq))
     \<and> (p \<noteq> Nowhere \<longrightarrow> owned_ok r q)
     \<and> (write_place p \<longrightarrow> \<not> ReadOnly (rq_type q))
     \<and> (\<forall>tbl. p = Queued tbl \<or> p = Waiting tbl \<or> p = Stuck tbl \<longrightarrow> rq_tbl q = tbl)
     \<and> (is_stuck p \<longrightarrow> rq_type q = RT_BatchWrite \<and> rq_batch_empty q)
     \<and> (\<forall>t. p = Running t \<or> p = Ending t \<longrightarrow> task_ReadOnly (fst t) = ReadOnly (rq_type q)))"

definition inv_requests :: "(req_ref \<Rightarrow> place) \<Rightarrow> Shard \<Rightarrow> bool" where
  "inv_requests loc s =
    ((\<forall>r. req_ok r (loc r) (reqs s r))
     \<and> (\<forall>tbl r. r \<in> internal_of tbl \<longrightarrow> pending_queues s tbl = None \<longrightarrow> loc r = Nowhere)
     \<and> (\<forall>tbl r. r \<in> internal_of tbl \<longrightarrow> pending_queues s tbl \<noteq> None \<longrightarrow> owned_ok r (reqs s r))
     \<and> (\<forall>tbl. pending_reopens s tbl = None \<longleftrightarrow> gone (loc (ReopenReq tbl)))
     \<and> (\<forall>tbl st. pending_reopens s tbl = Some st \<longrightarrow> inflight st))"

text \<open>A partition is busy when one of its write tasks exists or a request was popped and not started.\<close>

fun busy_place :: "place \<Rightarrow> bool" where
  "busy_place Popped = True"
| "busy_place (Stuck tbl) = True"
| "busy_place (Running t) = (\<not> task_ReadOnly (fst t))"
| "busy_place (Ending t) = (\<not> task_ReadOnly (fst t))"
| "busy_place _ = False"

lemma stuck_busy: "is_stuck p \<Longrightarrow> busy_place p"
  by (cases p) auto

definition busy_with :: "(req_ref \<Rightarrow> place) \<Rightarrow> Shard \<Rightarrow> TableIdent \<Rightarrow> req_ref \<Rightarrow> bool" where
  "busy_with loc s tbl r = (rq_tbl (reqs s r) = tbl \<and> busy_place (loc r))"

definition is_running :: "Shard \<Rightarrow> TableIdent \<Rightarrow> bool" where
  "is_running s tbl = (\<exists>q. pending_queues s tbl = Some q \<and> pq_running q)"

definition inv_writers :: "(req_ref \<Rightarrow> place) \<Rightarrow> Shard \<Rightarrow> bool" where
  "inv_writers loc s =
    ((\<forall>t tk. tasks s t = Some tk \<longrightarrow> tk_tbl tk = rq_tbl (reqs s (tk_req tk)))
     \<and> (\<forall>tbl r1 r2. busy_with loc s tbl r1 \<longrightarrow> busy_with loc s tbl r2 \<longrightarrow> r1 = r2)
     \<and> (\<forall>tbl. is_running s tbl \<longleftrightarrow> (\<exists>r. busy_with loc s tbl r)))"

definition live_tasks :: "Shard \<Rightarrow> TaskType \<Rightarrow> nat set" where
  "live_tasks s ty = {i. tasks s (ty, i) \<noteq> None}"

definition stuck :: "(req_ref \<Rightarrow> place) \<Rightarrow> nat" where
  "stuck loc = card {r. is_stuck (loc r)}"

definition pool_ok :: "nat \<Rightarrow> TaskType \<Rightarrow> TaskPool \<Rightarrow> nat set \<Rightarrow> nat \<Rightarrow> bool" where
  "pool_ok limit ty p live lost =
    (finite live \<and> distinct (tp_free p) \<and> set (tp_free p) \<inter> live = {}
     \<and> (\<forall>i \<in> set (tp_free p) \<union> live. i < tp_created p)
     \<and> (\<not> tp_growth p \<longrightarrow> counts_as_write ty \<and> limit \<le> tp_created p
          \<and> tp_created p = length (tp_free p) + card live + (if ty = TT_BatchWrite then lost else 0))
     \<and> (ty = TT_EvictFile \<or> ty = TT_Prewarm \<longrightarrow> live = {}))"

definition inv_pools :: "(req_ref \<Rightarrow> place) \<Rightarrow> Shard \<Rightarrow> bool" where
  "inv_pools loc s =
    ((\<forall>ty. pool_ok (max_write_concurrency_limit (task_mgr s)) ty (tm_pool (task_mgr s) ty) (live_tasks s ty) (stuck loc))
     \<and> 0 < max_write_concurrency_limit (task_mgr s)
     \<and> num_active_write (task_mgr s) =
         card (live_tasks s TT_BatchWrite) + card (live_tasks s TT_BackgroundWrite) + stuck loc
     \<and> num_active_write (task_mgr s) \<le> max_write_concurrency_limit (task_mgr s))"

definition core :: "(req_ref \<Rightarrow> place) \<Rightarrow> (TableIdent \<Rightarrow> req_ref list) \<Rightarrow> req_ref list \<Rightarrow> Shard \<Rightarrow> bool" where
  "core loc Q R s =
    (inv_queues Q s \<and> inv_places loc Q R s \<and> inv_requests loc s \<and> inv_writers loc s \<and> inv_pools loc s)"

text \<open>A write that could start but was not started: the limit is reached, or a call that will try again
  is on the stack.\<close>

definition waits :: "(TableIdent \<Rightarrow> req_ref list) \<Rightarrow> call list \<Rightarrow> Shard \<Rightarrow> bool" where
  "waits Q cs s =
    (\<forall>tbl q. pending_queues s tbl = Some q \<longrightarrow> Q tbl \<noteq> [] \<longrightarrow> \<not> pq_running q \<longrightarrow>
       max_write_concurrency_limit (task_mgr s) \<le> num_active_write (task_mgr s) \<or> TryStart tbl \<in> set cs \<or> Dispatch \<in> set cs)"

definition settled :: "(req_ref \<Rightarrow> place) \<Rightarrow> Shard \<Rightarrow> bool" where
  "settled loc s =
    ((\<forall>r. loc r \<noteq> Popped \<and> loc r \<noteq> InHand \<and> (\<forall>t. loc r \<noteq> Ending t))
     \<and> (\<forall>t tk. tasks s t = Some tk \<longrightarrow> \<not> needs_oom_retry tk \<and> \<not> needs_auto_reopen tk))"

lemmas core_defs = core_def inv_queues_def inv_places_def inv_requests_def inv_writers_def inv_pools_def

section \<open>Moves\<close>

declare split_paired_All [simp del] split_paired_Ex [simp del]

lemma internal_owned: "r \<in> internal_of tbl \<Longrightarrow> \<exists>ty. owned r = Some (ty, tbl)"
  by (auto simp: internal_of_def)

lemma owned_None: "owned r = None \<longleftrightarrow> (\<exists>n. r = User n)"
  by (cases r) auto

lemma not_internal_Reopen [simp]: "ReopenReq tbl \<notin> internal_of tbl'" "User n \<notin> internal_of tbl'"
  by (simp_all add: internal_of_def)

lemma finite_move: "finite {r. loc r \<noteq> Nowhere} \<Longrightarrow> finite {r. (loc(r0 := p)) r \<noteq> Nowhere}"
  by (rule finite_subset [of _ "insert r0 {r. loc r \<noteq> Nowhere}"]) auto

lemma stuck_move: "\<not> is_stuck (loc r) \<Longrightarrow> \<not> is_stuck p \<Longrightarrow> stuck (loc(r := p)) = stuck loc"
  unfolding stuck_def by (rule arg_cong [of _ _ card]) auto

text \<open>Moves that do not touch tasks and pools leave \<open>inv_pools\<close> alone.\<close>

lemma inv_pools_cong:
  assumes "inv_pools loc s" "stuck loc' = stuck loc" "task_mgr s' = task_mgr s" "tasks s' = tasks s"
  shows "inv_pools loc' s'"
  using assms by (simp add: inv_pools_def live_tasks_def)

lemma inv_places_task:
  assumes "inv_places loc Q R s" "tasks s t = Some tk"
  shows "loc (tk_req tk) = Running t \<or> loc (tk_req tk) = Ending t"
proof -
  have "\<forall>r t. (\<exists>tk. tasks s t = Some tk \<and> tk_req tk = r) \<longleftrightarrow> loc r = Running t \<or> loc r = Ending t"
    using assms(1) by (simp add: inv_places_def)
  then show ?thesis using assms(2) by blast
qed

lemma inv_writers_cong:
  assumes "inv_writers loc s" "inv_places loc Q R s" "tasks s' = tasks s"
    "\<And>tbl. is_running s' tbl = is_running s tbl" "\<And>r tbl. busy_with loc' s' tbl r = busy_with loc s tbl r"
    "\<And>r t. loc r = Running t \<or> loc r = Ending t \<Longrightarrow> rq_tbl (reqs s' r) = rq_tbl (reqs s r)"
  shows "inv_writers loc' s'"
  unfolding inv_writers_def
proof (intro conjI allI impI)
  fix t tk assume "tasks s' t = Some tk"
  then show "tk_tbl tk = rq_tbl (reqs s' (tk_req tk))"
    using assms(1,3) assms(6) [OF inv_places_task [OF assms(2), of t tk]] by (simp add: inv_writers_def)
qed (use assms(1,4,5) in \<open>auto simp: inv_writers_def\<close>)

lemma received_user: "inv_requests loc s \<Longrightarrow> loc r = Received \<Longrightarrow> owned r = None"
  unfolding inv_requests_def req_ok_def by (metis owned_place.simps(1))

lemma coreE:
  assumes "core loc Q R s"
  obtains "inv_queues Q s" "inv_places loc Q R s" "inv_requests loc s" "inv_writers loc s" "inv_pools loc s"
  using assms by (simp add: core_def)

lemma core_req_ok: "core loc Q R s \<Longrightarrow> req_ok r (loc r) (reqs s r)"
  by (simp add: core_def inv_requests_def)

text \<open>A move between places that do not make a partition busy only concerns queues, places and
  requests.\<close>

lemma core_quiet:
  assumes c: "core loc Q R s" and "\<not> busy_place (loc r)" "\<not> busy_place p"
    and s': "tasks s' = tasks s" "task_mgr s' = task_mgr s" "\<And>tbl. is_running s' tbl = is_running s tbl"
      "\<And>r'. r' \<noteq> r \<Longrightarrow> busy_place (loc r') \<or> (\<exists>t. loc r' = Running t \<or> loc r' = Ending t) \<Longrightarrow> rq_tbl (reqs s' r') = rq_tbl (reqs s r')"
      "\<And>t. loc r = Running t \<or> loc r = Ending t \<Longrightarrow> rq_tbl (reqs s' r) = rq_tbl (reqs s r)"
    and "inv_queues Q' s'" "inv_places (loc(r := p)) Q' R' s'" "inv_requests (loc(r := p)) s'"
  shows "core (loc(r := p)) Q' R' s'"
proof (rule coreE [OF c])
  assume i: "inv_writers loc s" "inv_places loc Q R s" "inv_pools loc s"
  have "busy_with (loc(r := p)) s' tbl r' = busy_with loc s tbl r'" for tbl r'
    using assms(2,3) s'(4) [of r'] by (auto simp: busy_with_def)
  moreover have "rq_tbl (reqs s' r') = rq_tbl (reqs s r')" if "loc r' = Running t \<or> loc r' = Ending t" for r' t
    using s'(4) [of r'] s'(5) that by (cases "r' = r") auto
  ultimately have "inv_writers (loc(r := p)) s'"
    using inv_writers_cong [OF i(1,2) s'(1,3)] by blast
  moreover have "inv_pools (loc(r := p)) s'"
    using assms(2,3) by (intro inv_pools_cong [OF i(3) _ s'(2,1)] stuck_move) (auto dest: stuck_busy)
  ultimately show ?thesis using assms by (simp add: core_def)
qed

lemma inv_requests_upd:
  assumes "inv_requests loc s" "req_ok r p q" "owned r = None"
    "reqs s' = (reqs s)(r := q)" "pending_queues s' = pending_queues s" "pending_reopens s' = pending_reopens s"
  shows "inv_requests (loc(r := p)) s'"
  using assms by (auto simp: inv_requests_def owned_None)

text \<open>Users' requests that are in nobody's list.\<close>

lemma take_received:
  assumes c: "core loc Q R s" and "requests s = xs @ r # ys"
  shows "core (loc(r := InHand)) Q R (s\<lparr>requests := xs @ ys\<rparr>)" "loc r = Received"
proof -
  show l: "loc r = Received" using assms by (auto simp: core_def inv_places_def)
  then have u: "owned r = None" using assms(1) received_user by (auto simp: core_def)
  have ok: "req_ok r InHand (reqs s r)" using core_req_ok [OF c, of r] l u by (simp add: req_ok_def)
  have "inv_places (loc(r := InHand)) Q R (s\<lparr>requests := xs @ ys\<rparr>)"
    using assms l finite_move [of loc r InHand] by (auto simp: core_def inv_places_def waiting_def)
  then show "core (loc(r := InHand)) Q R (s\<lparr>requests := xs @ ys\<rparr>)"
    using c l inv_requests_upd [of loc s r InHand "reqs s r"] ok u
    by (intro core_quiet [OF c]) (auto simp: is_running_def core_def inv_queues_def)
qed

lemma inv_requests_emplace:
  assumes "inv_requests loc s" "pending_queues s tbl = None"
  shows "inv_requests loc (snd (try_emplace tbl s))"
proof -
  have l: "loc r = Nowhere" if "r \<in> internal_of tbl" for r
    using assms that by (auto simp: inv_requests_def)
  have o: "owned_ok r (reqs (snd (try_emplace tbl s)) r)" if "r \<in> internal_of tbl" for r
    using assms(2) that by (auto simp: try_emplace_def internal_of_def owned_ok_def KvRequest_new_def)
  have n: "reqs (snd (try_emplace tbl s)) r = reqs s r" if "r \<notin> internal_of tbl" for r
    using assms(2) that by (auto simp: try_emplace_def internal_of_def)
  have d: "r \<in> internal_of tbl \<Longrightarrow> r \<in> internal_of tbl' \<Longrightarrow> tbl = tbl'" for r tbl'
    by (auto simp: internal_of_def)
  have q: "pending_queues (snd (try_emplace tbl s)) tbl' = None \<longleftrightarrow> pending_queues s tbl' = None \<and> tbl' \<noteq> tbl"
      "pending_reopens (snd (try_emplace tbl s)) = pending_reopens s" for tbl'
    using assms(2) by (auto simp: try_emplace_def)
  have ok: "req_ok r (loc r) (reqs (snd (try_emplace tbl s)) r)" for r
  proof (cases "r \<in> internal_of tbl")
    case True
    then show ?thesis using l [OF True] internal_owned [OF True] by (auto simp: req_ok_def)
  next
    case False
    then show ?thesis using n [OF False] assms(1) by (simp add: inv_requests_def)
  qed
  show ?thesis
    unfolding inv_requests_def q
  proof (intro conjI allI impI)
    fix tbl' r assume r: "r \<in> internal_of tbl'" "\<not> (pending_queues s tbl' = None \<and> tbl' \<noteq> tbl)"
    show "owned_ok r (reqs (snd (try_emplace tbl s)) r)"
      using r d [of r tbl'] o n assms(1) by (cases "r \<in> internal_of tbl") (auto simp: inv_requests_def)
  qed (use assms(1) ok l in \<open>auto simp: inv_requests_def\<close>)
qed

lemma emplace:
  assumes c: "core loc Q R s"
  shows "core loc Q R (snd (try_emplace tbl s))"
    "pending_queues (snd (try_emplace tbl s)) tbl = Some (fst (try_emplace tbl s))"
    "requests (snd (try_emplace tbl s)) = requests s" "tasks (snd (try_emplace tbl s)) = tasks s"
    "task_mgr (snd (try_emplace tbl s)) = task_mgr s" "pending_reopens (snd (try_emplace tbl s)) = pending_reopens s"
    "loc r \<noteq> Nowhere \<Longrightarrow> reqs (snd (try_emplace tbl s)) r = reqs s r"
    "tbl' \<noteq> tbl \<Longrightarrow> pending_queues (snd (try_emplace tbl s)) tbl' = pending_queues s tbl'"
    "owned r = None \<Longrightarrow> reqs (snd (try_emplace tbl s)) r = reqs s r"
proof -
  show s: "pending_queues (snd (try_emplace tbl s)) tbl = Some (fst (try_emplace tbl s))"
    "requests (snd (try_emplace tbl s)) = requests s" "tasks (snd (try_emplace tbl s)) = tasks s"
    "task_mgr (snd (try_emplace tbl s)) = task_mgr s" "pending_reopens (snd (try_emplace tbl s)) = pending_reopens s"
    "tbl' \<noteq> tbl \<Longrightarrow> pending_queues (snd (try_emplace tbl s)) tbl' = pending_queues s tbl'"
    "owned r = None \<Longrightarrow> reqs (snd (try_emplace tbl s)) r = reqs s r" for tbl' r
    by (auto simp: try_emplace_def owned_None split: option.split)
  have l: "loc r = Nowhere" if "r \<in> internal_of tbl" "pending_queues s tbl = None" for r
    using c that by (auto simp: core_def inv_requests_def)
  show n: "reqs (snd (try_emplace tbl s)) r = reqs s r" if "loc r \<noteq> Nowhere" for r
    using l [of r] that by (auto simp: try_emplace_def internal_of_def split: option.split)
  show "core loc Q R (snd (try_emplace tbl s))"
  proof (cases "pending_queues s tbl")
    case (Some q)
    then show ?thesis using c by (simp add: try_emplace_def)
  next
    case None
    have "inv_queues Q (snd (try_emplace tbl s))"
      using c None by (auto simp: core_def inv_queues_def try_emplace_def pwq_rep_def PendingWriteQueue_new_def)
    moreover have "inv_places loc Q R (snd (try_emplace tbl s))"
      using c None by (auto simp: core_def inv_places_def try_emplace_def waiting_def)
    moreover have "inv_writers loc (snd (try_emplace tbl s))"
    proof (rule inv_writers_cong [of loc s Q R])
      show "is_running (snd (try_emplace tbl s)) tbl' = is_running s tbl'" for tbl'
        using None by (auto simp: is_running_def try_emplace_def PendingWriteQueue_new_def)
      show "busy_with loc (snd (try_emplace tbl s)) tbl' r = busy_with loc s tbl' r" for tbl' r
        using n [of r] by (cases "loc r") (auto simp: busy_with_def)
      show "loc r = Running t \<or> loc r = Ending t \<Longrightarrow> rq_tbl (reqs (snd (try_emplace tbl s)) r) = rq_tbl (reqs s r)" for r t
        using n [of r] by auto
    qed (use c s in \<open>auto simp: core_def\<close>)
    ultimately show ?thesis
      using c None inv_requests_emplace [of loc s tbl] inv_pools_cong [of loc s loc "snd (try_emplace tbl s)"] s
      by (simp add: core_def)
  qed
qed

subsection \<open>Moves into and out of a queue\<close>

lemma inv_requests_place:
  assumes "inv_requests loc s" "req_ok r p (reqs s r)" "loc r \<noteq> Nowhere" "gone p = gone (loc r)"
    "reqs s' = reqs s" "\<And>tbl. pending_queues s' tbl = None \<longleftrightarrow> pending_queues s tbl = None"
    "pending_reopens s' = pending_reopens s"
  shows "inv_requests (loc(r := p)) s'"
  using assms by (auto simp: inv_requests_def)

lemma put_queue_simps [simp]:
  "pending_queues (put_queue tbl (q, nx) s) = (pending_queues s)(tbl \<mapsto> q)" "links (put_queue tbl (q, nx) s) = nx"
  "reqs (put_queue tbl (q, nx) s) = reqs s" "requests (put_queue tbl (q, nx) s) = requests s"
  "pending_reopens (put_queue tbl (q, nx) s) = pending_reopens s" "task_mgr (put_queue tbl (q, nx) s) = task_mgr s"
  "tasks (put_queue tbl (q, nx) s) = tasks s" "waiting (put_queue tbl (q, nx) s) = waiting s"
  by (simp_all add: put_queue_def waiting_def fun_eq_iff)

lemma inv_queues_put:
  assumes "inv_queues Q s" "pwq_rep (q, nx) xs" "\<And>tbl' y. tbl' \<noteq> tbl \<Longrightarrow> y \<in> set (Q tbl') \<Longrightarrow> nx y = links s y"
  shows "inv_queues (Q(tbl := xs)) (put_queue tbl (q, nx) s)"
  using assms pwq_rep_frame [of _ "links s" _ nx] by (auto simp: inv_queues_def)

lemma put_running: "is_running (put_queue tbl (q, nx) s) tbl' = (if tbl' = tbl then pq_running q else is_running s tbl')"
  by (auto simp: is_running_def)

lemma places_queue: "inv_places loc Q R s \<Longrightarrow> r \<in> set (Q tbl) \<longleftrightarrow> loc r = Queued tbl"
  by (simp add: inv_places_def)

lemma Q_unique: "inv_places loc Q R s \<Longrightarrow> y \<in> set (Q tbl) \<Longrightarrow> y \<in> set (Q tbl') \<Longrightarrow> tbl = tbl'"
  by (simp add: inv_places_def)

lemma core_queue: "core loc Q R s \<Longrightarrow> pending_queues s tbl = Some q \<Longrightarrow> pwq_rep (q, links s) (Q tbl)"
  by (simp add: core_def inv_queues_def)

lemma req_ok_queued:
  "req_ok r InHand q \<or> req_ok r Popped q \<Longrightarrow> \<not> ReadOnly (rq_type q) \<Longrightarrow> rq_tbl q = tbl \<Longrightarrow> req_ok r (Queued tbl) q"
  by (auto simp: req_ok_def)

lemma inv_places_queue:
  assumes "inv_places loc Q R s" "loc r = InHand \<or> loc r = Popped" "set xs = insert r (set (Q tbl))"
  shows "inv_places (loc(r := Queued tbl)) (Q(tbl := xs)) R (put_queue tbl qn s)"
  using assms finite_move [of loc r "Queued tbl"] by (cases qn) (auto simp: inv_places_def)

lemma push_move:
  assumes c: "core loc Q R s" and l: "loc r = InHand" and ty: "\<not> ReadOnly (rq_type (reqs s r))"
    and tbl: "rq_tbl (reqs s r) = tbl" and q: "pending_queues s tbl = Some q"
    and qn: "pwq_rep (q', nx') xs" "pq_running q' = pq_running q" "set xs = insert r (set (Q tbl))"
      "\<And>y. y \<noteq> r \<Longrightarrow> y \<notin> set (Q tbl) \<Longrightarrow> nx' y = links s y"
  shows "core (loc(r := Queued tbl)) (Q(tbl := xs)) R (put_queue tbl (q', nx') s)"
proof (rule core_quiet [OF c])
  have p: "inv_places loc Q R s" using c by (simp add: core_def)
  have "r \<notin> set (Q tbl')" for tbl' using p l by (auto simp: inv_places_def)
  then have "nx' y = links s y" if "tbl' \<noteq> tbl" "y \<in> set (Q tbl')" for tbl' y
    using that Q_unique [OF p that(2), of tbl] qn(4) [of y] by metis
  then show "inv_queues (Q(tbl := xs)) (put_queue tbl (q', nx') s)"
    using c qn(1) by (intro inv_queues_put) (auto simp: core_def)
  show "inv_places (loc(r := Queued tbl)) (Q(tbl := xs)) R (put_queue tbl (q', nx') s)"
    using inv_places_queue [OF p] l qn(3) by blast
  show "inv_requests (loc(r := Queued tbl)) (put_queue tbl (q', nx') s)"
    using c l ty tbl q core_req_ok [OF c, of r] by (intro inv_requests_place [of loc s]) (auto simp: core_def req_ok_queued)
  show "is_running (put_queue tbl (q', nx') s) tbl' = is_running s tbl'" for tbl'
    using q qn(2) by (auto simp: is_running_def)
qed (use l in auto)

lemma push_back_move:
  assumes c: "core loc Q R s" and l: "loc r = InHand" and "\<not> ReadOnly (rq_type (reqs s r))" "rq_tbl (reqs s r) = tbl"
    and q: "pending_queues s tbl = Some q"
  shows "\<exists>q' nx'. PushBack r (q, links s) = Some (q', nx') \<and> pq_running q' = pq_running q
    \<and> core (loc(r := Queued tbl)) (Q(tbl := Q tbl @ [r])) R (put_queue tbl (q', nx') s)"
proof -
  have "r \<notin> set (Q tbl)" using c l by (simp add: core_def inv_places_def)
  then obtain q' nx' where "PushBack r (q, links s) = Some (q', nx')" "pwq_rep (q', nx') (Q tbl @ [r])"
    "pq_running q' = pq_running q" "\<forall>y. y \<notin> set (Q tbl) \<and> y \<noteq> r \<longrightarrow> nx' y = links s y"
    using PushBack_ok [OF core_queue [OF c q]] by blast
  then show ?thesis using push_move [OF c l assms(3,4) q, of q' nx'] by auto
qed

lemma push_front_move:
  assumes c: "core loc Q R s" and l: "loc r = InHand" and "\<not> ReadOnly (rq_type (reqs s r))" "rq_tbl (reqs s r) = tbl"
    and q: "pending_queues s tbl = Some q"
  shows "\<exists>q' nx'. PushFront r (q, links s) = (q', nx') \<and> pq_running q' = pq_running q
    \<and> core (loc(r := Queued tbl)) (Q(tbl := r # Q tbl)) R (put_queue tbl (q', nx') s)"
proof -
  have "r \<notin> set (Q tbl)" using c l by (simp add: core_def inv_places_def)
  then obtain q' nx' where "PushFront r (q, links s) = (q', nx')" "pwq_rep (q', nx') (r # Q tbl)"
    "pq_running q' = pq_running q" "\<forall>y. y \<noteq> r \<longrightarrow> nx' y = links s y"
    using PushFront_ok [OF core_queue [OF c q]] by blast
  then show ?thesis using push_move [OF c l assms(3,4) q, of q' nx'] by auto
qed

text \<open>Popping makes the partition busy, putting the request back makes it idle again.\<close>

lemma inv_writers_run:
  assumes "inv_writers loc s" "\<not> is_running s tbl" "rq_tbl (reqs s r) = tbl" "loc r = Queued tbl"
    "tasks s' = tasks s" "reqs s' = reqs s" "\<And>tbl'. is_running s' tbl' = (tbl' = tbl \<or> is_running s tbl')"
  shows "inv_writers (loc(r := Popped)) s'"
proof -
  have idle: "\<not> busy_with loc s tbl r'" for r' using assms(1,2) by (auto simp: inv_writers_def)
  have b: "busy_with (loc(r := Popped)) s' tbl' r' = (if r' = r then tbl' = tbl else busy_with loc s tbl' r')" for tbl' r'
    using assms(3,6) by (auto simp: busy_with_def)
  have nr: "\<not> busy_with loc s tbl' r" for tbl' using assms(4) by (simp add: busy_with_def)
  have "(tbl' = tbl \<or> is_running s tbl') = (\<exists>r'. if r' = r then tbl' = tbl else busy_with loc s tbl' r')" for tbl'
    using assms(1) nr unfolding inv_writers_def by metis
  then show ?thesis
    unfolding inv_writers_def b assms(5,6,7)
    using assms(1) idle nr by (auto simp: inv_writers_def split: if_splits)
qed

lemma inv_writers_stop:
  assumes "inv_writers loc s" "rq_tbl (reqs s r) = tbl" "loc r = Popped" "\<not> busy_place p"
    "tasks s' = tasks s" "reqs s' = reqs s" "\<And>tbl'. is_running s' tbl' = (tbl' \<noteq> tbl \<and> is_running s tbl')"
  shows "inv_writers (loc(r := p)) s'"
proof -
  have b: "busy_with (loc(r := p)) s' tbl' r' = (r' \<noteq> r \<and> busy_with loc s tbl' r')" for tbl' r'
    using assms(4,6) by (auto simp: busy_with_def)
  have r: "busy_with loc s tbl r" using assms(2,3) by (simp add: busy_with_def)
  have only: "busy_with loc s tbl r' \<Longrightarrow> r' = r" for r' using assms(1) r by (auto simp: inv_writers_def)
  have other: "busy_with loc s tbl' r \<Longrightarrow> tbl' = tbl" for tbl' using assms(2) by (auto simp: busy_with_def)
  have "(tbl' \<noteq> tbl \<and> is_running s tbl') = (\<exists>r'. r' \<noteq> r \<and> busy_with loc s tbl' r')" for tbl'
    using assms(1) only other unfolding inv_writers_def by metis
  then show ?thesis
    unfolding inv_writers_def b assms(5,6,7)
    using assms(1) only other by (auto simp: inv_writers_def)
qed

lemma pop_move:
  assumes c: "core loc Q R s" and q: "pending_queues s tbl = Some q" "\<not> pq_running q" and Q: "Q tbl = r # xs"
  shows "\<exists>q' nx'. PopFront (q, links s) = (Some r, (q', nx')) \<and> loc r = Queued tbl
    \<and> rq_tbl (reqs s r) = tbl \<and> \<not> ReadOnly (rq_type (reqs s r))
    \<and> core (loc(r := Popped)) (Q(tbl := xs)) R (put_queue tbl (q'\<lparr>pq_running := True\<rparr>, nx') s)"
proof -
  have i: "inv_queues Q s" "inv_places loc Q R s" "inv_requests loc s" "inv_writers loc s" "inv_pools loc s"
    using c by (simp_all add: core_def)
  have rep: "pwq_rep (q, links s) (r # xs)" using core_queue [OF c q(1)] Q by simp
  obtain q' nx' where p: "PopFront (q, links s) = (Some r, (q', nx'))" "pwq_rep (q', nx') xs"
    "\<forall>y. y \<noteq> r \<longrightarrow> nx' y = links s y"
    using PopFront_ok [OF rep] by blast
  let ?s = "put_queue tbl (q'\<lparr>pq_running := True\<rparr>, nx') s"
  have l: "loc r = Queued tbl" using places_queue [OF i(2), of r tbl] Q by simp
  have ro: "req_ok r (Queued tbl) (reqs s r)" using core_req_ok [OF c, of r] l by simp
  then have tbl: "rq_tbl (reqs s r) = tbl" "\<not> ReadOnly (rq_type (reqs s r))" by (auto simp: req_ok_def)
  have d: "r \<notin> set xs" using rep by (auto simp: pwq_rep_def)
  have "pwq_rep (q'\<lparr>pq_running := True\<rparr>, nx') xs" using p(2) by (simp add: pwq_rep_def)
  moreover have "nx' y = links s y" if "tbl' \<noteq> tbl" "y \<in> set (Q tbl')" for tbl' y
    using that p(3) places_queue [OF i(2), of y tbl'] l by (cases "y = r") auto
  ultimately have "inv_queues (Q(tbl := xs)) ?s" using inv_queues_put [OF i(1)] by blast
  moreover have "inv_places (loc(r := Popped)) (Q(tbl := xs)) R ?s"
  proof -
    have "r' \<in> set xs \<longleftrightarrow> r' \<noteq> r \<and> loc r' = Queued tbl" for r'
      using places_queue [OF i(2), of r' tbl] Q d by auto
    then show ?thesis using i(2) l finite_move [of loc r Popped] by (auto simp: inv_places_def)
  qed
  moreover have "inv_requests (loc(r := Popped)) ?s"
    using ro l q by (intro inv_requests_place [OF i(3)]) (auto simp: req_ok_def)
  moreover have "inv_writers (loc(r := Popped)) ?s"
    using q tbl l by (intro inv_writers_run [OF i(4), of tbl]) (auto simp: put_running is_running_def)
  moreover have "inv_pools (loc(r := Popped)) ?s"
    using l by (intro inv_pools_cong [OF i(5)] stuck_move) auto
  ultimately show ?thesis using p(1) l tbl by (auto simp: core_def)
qed

lemma unpop_move:
  assumes c: "core loc Q R s" and q: "pending_queues s tbl = Some q"
    and l: "loc r = Popped" "rq_tbl (reqs s r) = tbl" "\<not> ReadOnly (rq_type (reqs s r))"
  shows "\<exists>q' nx'. PushFront r (q\<lparr>pq_running := False\<rparr>, links s) = (q', nx') \<and> \<not> pq_running q'
    \<and> core (loc(r := Queued tbl)) (Q(tbl := r # Q tbl)) R (put_queue tbl (q', nx') s)"
proof -
  have i: "inv_queues Q s" "inv_places loc Q R s" "inv_requests loc s" "inv_writers loc s" "inv_pools loc s"
    using c by (simp_all add: core_def)
  have "pwq_rep (q\<lparr>pq_running := False\<rparr>, links s) (Q tbl)" using core_queue [OF c q] by (simp add: pwq_rep_def)
  moreover have n: "r \<notin> set (Q tbl)" using i(2) l by (simp add: inv_places_def)
  ultimately obtain q' nx' where p: "PushFront r (q\<lparr>pq_running := False\<rparr>, links s) = (q', nx')"
    "pwq_rep (q', nx') (r # Q tbl)" "\<not> pq_running q'" "\<forall>y. y \<noteq> r \<longrightarrow> nx' y = links s y"
    using PushFront_ok [of "q\<lparr>pq_running := False\<rparr>" "links s" "Q tbl" r] by auto
  let ?s = "put_queue tbl (q', nx') s"
  have "nx' y = links s y" if "tbl' \<noteq> tbl" "y \<in> set (Q tbl')" for tbl' y
    using that p(4) places_queue [OF i(2), of y tbl'] l by (cases "y = r") auto
  then have "inv_queues (Q(tbl := r # Q tbl)) ?s" using inv_queues_put [OF i(1) p(2)] by blast
  moreover have "inv_places (loc(r := Queued tbl)) (Q(tbl := r # Q tbl)) R ?s"
    using inv_places_queue [OF i(2)] l by simp
  moreover have "inv_requests (loc(r := Queued tbl)) ?s"
    using core_req_ok [OF c, of r] l q by (intro inv_requests_place [OF i(3)]) (auto simp: req_ok_queued)
  moreover have "inv_writers (loc(r := Queued tbl)) ?s"
    using p(3) l by (intro inv_writers_stop [OF i(4), of _ tbl]) (auto simp: put_running)
  moreover have "inv_pools (loc(r := Queued tbl)) ?s"
    using l by (intro inv_pools_cong [OF i(5)] stuck_move) auto
  ultimately show ?thesis using p by (auto simp: core_def)
qed

subsection \<open>Moves into and out of a task\<close>

lemma pool_take:
  assumes "pool_ok limit ty p live lost" "pool_GetTask p = Some (t, p')" "ty \<noteq> TT_EvictFile" "ty \<noteq> TT_Prewarm"
  shows "t \<notin> live" "pool_ok limit ty p' (insert t live) lost"
    "ty = TT_BatchWrite \<Longrightarrow> pool_ok limit ty p' live (Suc lost)"
  using assms by (auto simp: pool_ok_def pool_GetTask_def split: list.splits if_splits)

lemma pool_has_task:
  assumes "pool_ok limit ty p live lost" "tp_growth p \<or> card live + (if ty = TT_BatchWrite then lost else 0) < limit"
  shows "\<exists>t p'. pool_GetTask p = Some (t, p')"
  using assms by (cases "tp_free p") (auto simp: pool_ok_def pool_GetTask_def)

lemma pool_release:
  assumes "pool_ok limit ty p live lost" "t \<in> live"
  shows "pool_ok limit ty (pool_FreeTask t p) (live - {t}) lost"
proof -
  have "card live = Suc (card (live - {t}))" using assms by (metis card_Suc_Diff1 pool_ok_def)
  then show ?thesis using assms by (auto simp: pool_ok_def pool_FreeTask_def)
qed

lemma pool_other_lost: "ty \<noteq> TT_BatchWrite \<Longrightarrow> pool_ok limit ty p live lost \<Longrightarrow> pool_ok limit ty p live lost'"
  by (auto simp: pool_ok_def)

lemma live_tasks_upd:
  "live_tasks (s\<lparr>tasks := (tasks s)((ty, t) \<mapsto> tk)\<rparr>) ty' = (if ty' = ty then insert t (live_tasks s ty) else live_tasks s ty')"
  "live_tasks (s\<lparr>tasks := (tasks s)((ty, t) := None)\<rparr>) ty' = (if ty' = ty then live_tasks s ty - {t} else live_tasks s ty')"
  by (auto simp: live_tasks_def)

text \<open>A task taken from a pool, with the counters of the manager.\<close>

definition takes :: "TaskType \<Rightarrow> nat \<Rightarrow> TaskManager \<Rightarrow> TaskManager \<Rightarrow> bool" where
  "takes ty t tm tm' =
    (ty \<noteq> TT_EvictFile \<and> ty \<noteq> TT_Prewarm
     \<and> (\<exists>p'. pool_GetTask (tm_pool tm ty) = Some (t, p') \<and> tm_pool tm' = (tm_pool tm)(ty := p'))
     \<and> max_write_concurrency_limit tm' = max_write_concurrency_limit tm
     \<and> num_active_write tm' = num_active_write tm + (if counts_as_write ty then 1 else 0)
     \<and> (counts_as_write ty \<longrightarrow> num_active_write tm < max_write_concurrency_limit tm))"

lemma GetWriteTask_takes: "counts_as_write ty \<Longrightarrow> GetWriteTask ty tm = Some (t, tm') \<Longrightarrow> takes ty t tm tm'"
  by (auto simp: GetWriteTask_def take_task_def takes_def counts_as_write_def split: if_splits)

lemma GetOtherTask_takes:
  "\<not> counts_as_write ty \<Longrightarrow> ty \<noteq> TT_EvictFile \<Longrightarrow> ty \<noteq> TT_Prewarm \<Longrightarrow> GetOtherTask ty tm = Some (t, tm') \<Longrightarrow> takes ty t tm tm'"
  by (auto simp: GetOtherTask_def take_task_def takes_def)

lemma GetWriteTask_full:
  assumes "inv_pools loc s" "counts_as_write ty" "GetWriteTask ty (task_mgr s) = None"
  shows "max_write_concurrency_limit (task_mgr s) \<le> num_active_write (task_mgr s)"
proof (rule ccontr)
  assume n: "\<not> ?thesis"
  have p: "pool_ok (max_write_concurrency_limit (task_mgr s)) ty (tm_pool (task_mgr s) ty) (live_tasks s ty) (stuck loc)"
    using assms(1) by (simp add: inv_pools_def)
  have "card (live_tasks s ty) + (if ty = TT_BatchWrite then stuck loc else 0) < max_write_concurrency_limit (task_mgr s)"
    using assms(1,2) n by (auto simp: inv_pools_def counts_as_write_def)
  then show False
    using pool_has_task [OF p] assms(3) n by (auto simp: GetWriteTask_def take_task_def)
qed

lemma GetOtherTask_some:
  assumes "inv_pools loc s" "\<not> counts_as_write ty"
  shows "\<exists>t tm'. GetOtherTask ty (task_mgr s) = Some (t, tm')"
proof -
  have p: "pool_ok (max_write_concurrency_limit (task_mgr s)) ty (tm_pool (task_mgr s) ty) (live_tasks s ty) (stuck loc)"
    using assms(1) by (simp add: inv_pools_def)
  then have "tp_growth (tm_pool (task_mgr s) ty)" using assms(2) by (auto simp: pool_ok_def)
  then show ?thesis using pool_has_task [OF p] by (auto simp: GetOtherTask_def take_task_def)
qed

lemma inv_places_start:
  assumes "inv_places loc Q R s" "loc r = Popped \<or> loc r = InHand" "tasks s t = None" "tk_req tk = r"
  shows "inv_places (loc(r := Running t)) Q R (s\<lparr>task_mgr := tm', tasks := (tasks s)(t \<mapsto> tk)\<rparr>)"
proof -
  have t: "(\<exists>tk. tasks s t' = Some tk \<and> tk_req tk = r') \<longleftrightarrow> loc r' = Running t' \<or> loc r' = Ending t'" for r' t'
    using assms(1) by (simp add: inv_places_def)
  have "(\<exists>tk'. ((tasks s)(t \<mapsto> tk)) t' = Some tk' \<and> tk_req tk' = r') \<longleftrightarrow>
    (loc(r := Running t)) r' = Running t' \<or> (loc(r := Running t)) r' = Ending t'" for r' t'
  proof (cases "t' = t")
    case True
    have "loc r' \<noteq> Running t \<and> loc r' \<noteq> Ending t" using t [of t r'] assms(3) by simp
    then show ?thesis using True assms(4) by auto
  next
    case False
    then show ?thesis using t [of t' r'] assms(2) by auto
  qed
  then show ?thesis
    using assms(1,2) finite_move [of loc r "Running t"] by (auto simp: inv_places_def waiting_def)
qed

lemma inv_pools_start:
  assumes "inv_pools loc s" "takes ty t (task_mgr s) tm'" "\<not> is_stuck (loc r)"
  shows "tasks s (ty, t) = None" "inv_pools (loc(r := Running (ty, t))) (s\<lparr>task_mgr := tm', tasks := (tasks s)((ty, t) \<mapsto> tk)\<rparr>)"
proof -
  let ?limit = "max_write_concurrency_limit (task_mgr s)"
  have p: "pool_ok ?limit ty' (tm_pool (task_mgr s) ty') (live_tasks s ty') (stuck loc)" for ty'
    using assms(1) by (simp add: inv_pools_def)
  obtain p' where g: "pool_GetTask (tm_pool (task_mgr s) ty) = Some (t, p')" "tm_pool tm' = (tm_pool (task_mgr s))(ty := p')"
    "ty \<noteq> TT_EvictFile" "ty \<noteq> TT_Prewarm"
    using assms(2) by (auto simp: takes_def)
  note n = pool_take [OF p g(1,3,4)]
  show "tasks s (ty, t) = None" using n(1) by (simp add: live_tasks_def)
  have live: "live_tasks (s\<lparr>task_mgr := tm', tasks := (tasks s)((ty, t) \<mapsto> tk)\<rparr>) ty' =
      (if ty' = ty then insert t (live_tasks s ty) else live_tasks s ty')" for ty'
    by (auto simp: live_tasks_def)
  have "card (insert t (live_tasks s ty)) = Suc (card (live_tasks s ty))"
    using n(1) p [of ty] by (simp add: pool_ok_def)
  then show "inv_pools (loc(r := Running (ty, t))) (s\<lparr>task_mgr := tm', tasks := (tasks s)((ty, t) \<mapsto> tk)\<rparr>)"
    using assms n p g(2) by (auto simp: inv_pools_def live takes_def stuck_move counts_as_write_def)
qed

lemma inv_writers_start:
  assumes "inv_writers loc s" "inv_places loc Q R s" "loc r = Popped \<or> loc r = InHand"
    "task_ReadOnly (fst t) \<longleftrightarrow> loc r = InHand" "tasks s t = None" "tk_req tk = r" "tk_tbl tk = rq_tbl (reqs s r)"
  shows "inv_writers (loc(r := Running t)) (s\<lparr>task_mgr := tm', tasks := (tasks s)(t \<mapsto> tk)\<rparr>)"
proof -
  have b: "busy_with (loc(r := Running t)) (s\<lparr>task_mgr := tm', tasks := (tasks s)(t \<mapsto> tk)\<rparr>) = busy_with loc s"
    using assms(3,4) by (auto simp: busy_with_def fun_eq_iff)
  show ?thesis
    unfolding inv_writers_def b using assms by (auto simp: inv_writers_def is_running_def)
qed

lemma req_ok_start:
  "req_ok r Popped q \<or> req_ok r InHand q \<Longrightarrow> task_ReadOnly (fst t) = ReadOnly (rq_type q) \<Longrightarrow> req_ok r (Running t) q"
  by (auto simp: req_ok_def)

lemma start_move:
  assumes c: "core loc Q R s"
    and l: "loc r = Popped \<and> \<not> ReadOnly (rq_type (reqs s r)) \<or> loc r = InHand \<and> ReadOnly (rq_type (reqs s r))"
    and ty: "task_ReadOnly ty \<longleftrightarrow> loc r = InHand" and t: "takes ty t (task_mgr s) tm'"
  shows "core (loc(r := Running (ty, t))) Q R (StartTask (ty, t) (rq_tbl (reqs s r)) r (s\<lparr>task_mgr := tm'\<rparr>))"
proof -
  have i: "inv_queues Q s" "inv_places loc Q R s" "inv_requests loc s" "inv_writers loc s" "inv_pools loc s"
    using c by (simp_all add: core_def)
  let ?tk = "\<lparr>tk_tbl = rq_tbl (reqs s r), tk_req = r, needs_auto_reopen = False, needs_oom_retry = False\<rparr>"
  have s: "StartTask (ty, t) (rq_tbl (reqs s r)) r (s\<lparr>task_mgr := tm'\<rparr>) =
      s\<lparr>task_mgr := tm', tasks := (tasks s)((ty, t) \<mapsto> ?tk)\<rparr>"
    by (simp add: StartTask_def)
  have ns: "\<not> is_stuck (loc r)" using l by auto
  note p = inv_pools_start [OF i(5) t ns]
  have "inv_queues Q (s\<lparr>task_mgr := tm', tasks := (tasks s)((ty, t) \<mapsto> ?tk)\<rparr>)"
    using i(1) by (simp add: inv_queues_def)
  moreover have "inv_requests (loc(r := Running (ty, t))) (s\<lparr>task_mgr := tm', tasks := (tasks s)((ty, t) \<mapsto> ?tk)\<rparr>)"
  proof (rule inv_requests_place [OF i(3)])
    show "req_ok r (Running (ty, t)) (reqs s r)"
      using l ty core_req_ok [OF c, of r] by (intro req_ok_start) auto
  qed (use l in auto)
  moreover have "inv_places (loc(r := Running (ty, t))) Q R (s\<lparr>task_mgr := tm', tasks := (tasks s)((ty, t) \<mapsto> ?tk)\<rparr>)"
    using inv_places_start [OF i(2) _ p(1), of r ?tk] l by auto
  moreover have "inv_writers (loc(r := Running (ty, t))) (s\<lparr>task_mgr := tm', tasks := (tasks s)((ty, t) \<mapsto> ?tk)\<rparr>)"
    using inv_writers_start [OF i(4,2) _ _ p(1), of r ?tk] l ty by auto
  ultimately show ?thesis unfolding s core_def using p(2) by blast
qed

text \<open>The task of an empty batch is taken and never started.\<close>

lemma stuck_move_in:
  assumes c: "core loc Q R s" and l: "loc r = Popped"
    and r: "rq_type (reqs s r) = RT_BatchWrite" "rq_batch_empty (reqs s r)" and t: "takes TT_BatchWrite t (task_mgr s) tm'"
  shows "core (loc(r := Stuck (rq_tbl (reqs s r)))) Q R (s\<lparr>task_mgr := tm'\<rparr>)"
proof -
  have i: "inv_queues Q s" "inv_places loc Q R s" "inv_requests loc s" "inv_writers loc s" "inv_pools loc s"
    using c by (simp_all add: core_def)
  have rt: "req_ok r Popped (reqs s r)" using core_req_ok [OF c, of r] l by simp
  then have u: "owned r = None" using r by (cases r) (auto simp: req_ok_def owned_ok_def)
  have "{r'. is_stuck ((loc(r := Stuck (rq_tbl (reqs s r)))) r')} = insert r {r'. is_stuck (loc r')}" by auto
  moreover have "finite {r'. is_stuck (loc r')}"
    using i(2) by (auto simp: inv_places_def intro: finite_subset [of _ "{r. loc r \<noteq> Nowhere}"])
  ultimately have st: "stuck (loc(r := Stuck (rq_tbl (reqs s r)))) = Suc (stuck loc)" using l by (simp add: stuck_def)
  have "inv_queues Q (s\<lparr>task_mgr := tm'\<rparr>)" using i(1) by (simp add: inv_queues_def)
  moreover have "inv_places (loc(r := Stuck (rq_tbl (reqs s r)))) Q R (s\<lparr>task_mgr := tm'\<rparr>)"
    using i(2) l finite_move [of loc r "Stuck (rq_tbl (reqs s r))"] by (auto simp: inv_places_def waiting_def)
  moreover have "inv_requests (loc(r := Stuck (rq_tbl (reqs s r)))) (s\<lparr>task_mgr := tm'\<rparr>)"
    using rt l r u by (intro inv_requests_place [OF i(3)]) (auto simp: req_ok_def ReadOnly_def)
  moreover have "inv_writers (loc(r := Stuck (rq_tbl (reqs s r)))) (s\<lparr>task_mgr := tm'\<rparr>)"
    using l by (intro inv_writers_cong [OF i(4,2)]) (auto simp: is_running_def busy_with_def)
  moreover have "inv_pools (loc(r := Stuck (rq_tbl (reqs s r)))) (s\<lparr>task_mgr := tm'\<rparr>)"
  proof -
    have p: "pool_ok (max_write_concurrency_limit (task_mgr s)) ty (tm_pool (task_mgr s) ty) (live_tasks s ty) (stuck loc)" for ty
      using i(5) by (simp add: inv_pools_def)
    obtain p' where g: "pool_GetTask (tm_pool (task_mgr s) TT_BatchWrite) = Some (t, p')"
      "tm_pool tm' = (tm_pool (task_mgr s))(TT_BatchWrite := p')"
      using t by (auto simp: takes_def)
    have "live_tasks (s\<lparr>task_mgr := tm'\<rparr>) = live_tasks s" by (simp add: live_tasks_def fun_eq_iff)
    moreover have "pool_ok (max_write_concurrency_limit (task_mgr s)) ty (tm_pool tm' ty) (live_tasks s ty) (Suc (stuck loc))" for ty
    proof (cases "ty = TT_BatchWrite")
      case True
      then show ?thesis using pool_take(3) [OF p g(1)] g(2) by simp
    next
      case False
      then show ?thesis using pool_other_lost [OF False p] g(2) by simp
    qed
    ultimately show ?thesis
      using i(5) t st by (simp add: inv_pools_def takes_def counts_as_write_def)
  qed
  ultimately show ?thesis by (simp add: core_def)
qed

subsection \<open>Moves of users' requests\<close>

lemma set_req_simps [simp]:
  "reqs (set_req r f s) = (reqs s)(r := f (reqs s r))" "links (set_req r f s) = links s"
  "requests (set_req r f s) = requests s" "pending_queues (set_req r f s) = pending_queues s"
  "pending_reopens (set_req r f s) = pending_reopens s" "task_mgr (set_req r f s) = task_mgr s"
  "tasks (set_req r f s) = tasks s" "waiting (set_req r f s) = waiting s" "is_running (set_req r f s) = is_running s"
  by (simp_all add: set_req_def waiting_def is_running_def fun_eq_iff)

text \<open>A request of a user changes place and state; it is in no list before, and in the list of the new
  place afterwards.\<close>

lemma user_move:
  assumes c: "core loc Q R s" and u: "owned r = None" and b: "\<not> busy_place (loc r)" "\<not> busy_place p"
    and nt: "\<And>t. loc r \<noteq> Running t \<and> loc r \<noteq> Ending t"
    and ok: "req_ok r p (f (reqs s r))"
    and places: "inv_places (loc(r := p)) Q R' (set_req r f s\<lparr>requests := rs\<rparr>)"
  shows "core (loc(r := p)) Q R' (set_req r f s\<lparr>requests := rs\<rparr>)"
proof (rule core_quiet [OF c b])
  have i: "inv_queues Q s" "inv_requests loc s" using c by (simp_all add: core_def)
  show "inv_queues Q (set_req r f s\<lparr>requests := rs\<rparr>)" using i(1) by (simp add: inv_queues_def)
  show "inv_requests (loc(r := p)) (set_req r f s\<lparr>requests := rs\<rparr>)"
    by (rule inv_requests_upd [OF i(2) ok u]) simp_all
  show "is_running (set_req r f s\<lparr>requests := rs\<rparr>) tbl = is_running s tbl" for tbl
    by (simp add: is_running_def)
  show "inv_places (loc(r := p)) Q R' (set_req r f s\<lparr>requests := rs\<rparr>)" by (rule places)
qed (use nt in auto)

lemma requests_same: "set_req r f s\<lparr>requests := requests s\<rparr> = set_req r f s"
  by (simp add: set_req_def)

lemma done_move:
  assumes c: "core loc Q R s" and u: "owned r = None" and l: "loc r = InHand"
  shows "core (loc(r := Nowhere)) Q R (set_done r err s)"
proof -
  have "core (loc(r := Nowhere)) Q R (set_req r (\<lambda>q. q\<lparr>rq_err := err, rq_done := True\<rparr>) s\<lparr>requests := requests s\<rparr>)"
  proof (rule user_move [OF c u])
    show "inv_places (loc(r := Nowhere)) Q R (set_req r (\<lambda>q. q\<lparr>rq_err := err, rq_done := True\<rparr>) s\<lparr>requests := requests s\<rparr>)"
      using c l finite_move [of loc r Nowhere] by (auto simp: core_def inv_places_def waiting_def)
  qed (use l u in \<open>auto simp: req_ok_def\<close>)
  then show ?thesis by (simp add: set_done_def requests_same)
qed

lemma send_move:
  assumes c: "core loc Q R s" and u: "owned r = None" and l: "loc r = InHand"
  shows "core (loc(r := Received)) Q R (AddKvRequest r (set_req r (\<lambda>q. q\<lparr>rq_err := NoError, rq_done := False\<rparr>) s))"
  unfolding AddKvRequest_def set_req_simps
proof (rule user_move [OF c u])
  have "r \<notin> set (requests s)" using c l by (simp add: core_def inv_places_def)
  then show "inv_places (loc(r := Received)) Q R
      (set_req r (\<lambda>q. q\<lparr>rq_err := NoError, rq_done := False\<rparr>) s\<lparr>requests := requests s @ [r]\<rparr>)"
    using c l finite_move [of loc r Received] by (auto simp: core_def inv_places_def waiting_def)
qed (use l u core_req_ok [OF c, of r] in \<open>auto simp: req_ok_def owned_ok_def\<close>)

lemma first_send_move:
  assumes c: "core loc Q R s" and u: "owned r = None" and l: "loc r = Nowhere"
    and q: "TableIdent_IsValid (rq_tbl q)" "\<not> handled_by_store (rq_type q)" "\<not> rq_done q"
  shows "core (loc(r := Received)) Q R (AddKvRequest r (set_req r (\<lambda>_. q) s))"
  unfolding AddKvRequest_def set_req_simps
proof (rule user_move [OF c u])
  have "r \<notin> set (requests s)" using c l by (simp add: core_def inv_places_def)
  then show "inv_places (loc(r := Received)) Q R (set_req r (\<lambda>_. q) s\<lparr>requests := requests s @ [r]\<rparr>)"
    using c l finite_move [of loc r Received] by (auto simp: core_def inv_places_def waiting_def)
qed (use l u q in \<open>auto simp: req_ok_def owned_ok_def\<close>)

lemma retry_out:
  assumes c: "core loc Q (r # R) s"
  shows "core (loc(r := InHand)) Q R s" "owned r = None" "loc r = Retrying"
proof -
  have "r' \<in> set (r # R) \<longleftrightarrow> loc r' = Retrying" for r' using c by (simp add: core_def inv_places_def)
  from this [of r] show l: "loc r = Retrying" by simp
  then show u: "owned r = None" using core_req_ok [OF c, of r] by (auto simp: req_ok_def)
  have d: "r \<notin> set R" using c by (simp add: core_def inv_places_def)
  show "core (loc(r := InHand)) Q R s"
  proof (rule core_quiet [OF c])
    show "inv_places (loc(r := InHand)) Q R s"
      using c l d finite_move [of loc r InHand] by (auto simp: core_def inv_places_def)
    show "inv_requests (loc(r := InHand)) s"
      using c l u core_req_ok [OF c, of r] by (intro inv_requests_place [of loc s]) (auto simp: core_def req_ok_def)
  qed (use c l in \<open>auto simp: core_def\<close>)
qed

subsection \<open>The end of a task\<close>

text \<open>A request that is tried again stays with its task until the task is freed.\<close>

lemma inv_places_tasks:
  assumes "inv_places loc Q R s" "tasks s t = Some tk" "tk_req tk' = tk_req tk"
  shows "inv_places loc Q R (set_req r f s\<lparr>tasks := (tasks s)(t \<mapsto> tk')\<rparr>)"
proof -
  have "(\<exists>tk''. ((tasks s)(t \<mapsto> tk')) t' = Some tk'' \<and> tk_req tk'' = r') \<longleftrightarrow> (\<exists>tk. tasks s t' = Some tk \<and> tk_req tk = r')" for r' t'
    using assms(2,3) by (cases "t' = t") auto
  then show ?thesis using assms(1) by (simp add: inv_places_def waiting_def)
qed

lemma flag_move:
  assumes c: "core loc Q R s" and t: "tasks s t = Some tk" and u: "owned (tk_req tk) = None"
    and tk': "tk_req tk' = tk_req tk" "tk_tbl tk' = tk_tbl tk"
    and f: "\<And>q. rq_type (f q) = rq_type q" "\<And>q. rq_tbl (f q) = rq_tbl q" "\<And>q. rq_done (f q) = rq_done q"
      "\<And>q. rq_batch_empty (f q) = rq_batch_empty q"
  shows "core loc Q R (set_req (tk_req tk) f s\<lparr>tasks := (tasks s)(t \<mapsto> tk')\<rparr>)" (is "core loc Q R ?s")
proof -
  have i: "inv_queues Q s" "inv_places loc Q R s" "inv_requests loc s" "inv_writers loc s" "inv_pools loc s"
    using c by (simp_all add: core_def)
  have "owned_ok (tk_req tk) (f (reqs s (tk_req tk)))" using u by (simp add: owned_ok_def)
  then have "req_ok (tk_req tk) (loc (tk_req tk)) (f (reqs s (tk_req tk)))"
    using core_req_ok [OF c, of "tk_req tk"] u f by (simp add: req_ok_def)
  from inv_requests_upd [OF i(3) this u, of ?s] have "inv_requests loc ?s" by simp
  moreover have "inv_writers loc ?s"
  proof -
    have "rq_tbl (reqs ?s r) = rq_tbl (reqs s r)" for r using f(2) by simp
    then show ?thesis
      using i(4) t tk' by (auto simp: inv_writers_def busy_with_def is_running_def)
  qed
  moreover have "inv_pools loc ?s"
  proof -
    have "live_tasks ?s = live_tasks s" using t by (auto simp: live_tasks_def fun_eq_iff)
    then show ?thesis using i(5) by (simp add: inv_pools_def)
  qed
  ultimately show ?thesis
    using i(1) inv_places_tasks [OF i(2) t tk'(1)] by (simp add: core_def inv_queues_def)
qed

text \<open>A request that is done.\<close>

lemma inv_places_ending:
  assumes "inv_places loc Q R s" "loc r = Running t" "tasks s' = tasks s" "requests s' = requests s"
    "pending_reopens s' = pending_reopens s"
  shows "inv_places (loc(r := Ending t)) Q R s'"
proof -
  have t: "(\<exists>tk. tasks s t' = Some tk \<and> tk_req tk = r') \<longleftrightarrow> loc r' = Running t' \<or> loc r' = Ending t'" for r' t'
    using assms(1) by (simp add: inv_places_def)
  have "(\<exists>tk. tasks s t' = Some tk \<and> tk_req tk = r') \<longleftrightarrow>
    (loc(r := Ending t)) r' = Running t' \<or> (loc(r := Ending t)) r' = Ending t'" for r' t'
    using t [of t' r'] assms(2) by (cases "r' = r") auto
  moreover have "waiting s' = waiting s" using assms(5) by (simp add: waiting_def fun_eq_iff)
  ultimately show ?thesis
    using assms finite_move [of loc r "Ending t"] by (auto simp: inv_places_def)
qed

lemma req_ok_ending: "req_ok r (Running t) q \<Longrightarrow> req_ok r (Ending t) (q\<lparr>rq_err := err, rq_done := True\<rparr>)"
  by (auto simp: req_ok_def)

lemma inv_writers_ending:
  assumes "inv_writers loc s" "inv_places loc Q R s" "loc r = Running t" "tasks s' = tasks s"
    "\<And>r'. rq_tbl (reqs s' r') = rq_tbl (reqs s r')" "pending_queues s' = pending_queues s"
  shows "inv_writers (loc(r := Ending t)) s'"
  using assms(3-6) by (intro inv_writers_cong [OF assms(1,2)]) (auto simp: is_running_def busy_with_def)

lemma ending_move:
  assumes c: "core loc Q R s" and l: "loc r = Running t" and r: "r \<notin> range ReopenReq"
  shows "core (loc(r := Ending t)) Q R (set_done r err s)"
proof -
  have i: "inv_queues Q s" "inv_places loc Q R s" "inv_requests loc s" "inv_writers loc s" "inv_pools loc s"
    using c by (simp_all add: core_def)
  have ok: "req_ok r (Ending t) ((reqs s r)\<lparr>rq_err := err, rq_done := True\<rparr>)"
    using core_req_ok [OF c, of r] l by (simp add: req_ok_ending)
  have "owned_ok r ((reqs s r)\<lparr>rq_err := err, rq_done := True\<rparr>)"
    using core_req_ok [OF c, of r] l by (simp add: req_ok_def)
  then have "inv_requests (loc(r := Ending t)) (set_done r err s)"
    using i(3) ok l r by (auto simp: inv_requests_def set_done_def)
  moreover have "inv_pools (loc(r := Ending t)) (set_done r err s)"
    using l by (intro inv_pools_cong [OF i(5)] stuck_move) (auto simp: set_done_def)
  ultimately show ?thesis
    using i(1) inv_places_ending [OF i(2) l, of "set_done r err s"] inv_writers_ending [OF i(4,2) l, of "set_done r err s"]
    by (simp add: core_def set_done_def inv_queues_def)
qed

text \<open>The request that reopens a partition releases those that wait for it.\<close>

definition released :: "(req_ref \<Rightarrow> place) \<Rightarrow> TableIdent \<Rightarrow> task_ref \<Rightarrow> req_ref \<Rightarrow> place" where
  "released loc tbl t r = (if r = ReopenReq tbl then Ending t else if loc r = Waiting tbl then InHand else loc r)"

lemma reopen_move:
  assumes c: "core loc Q R s" and l: "loc (ReopenReq tbl) = Running t"
  shows "core (released loc tbl t) Q R (set_done (ReopenReq tbl) err s\<lparr>pending_reopens := (pending_reopens s)(tbl := None)\<rparr>)"
    (is "core ?loc Q R ?s")
proof -
  have i: "inv_queues Q s" "inv_places loc Q R s" "inv_requests loc s" "inv_writers loc s" "inv_pools loc s"
    using c by (simp_all add: core_def)
  have sr: "reqs ?s = (reqs s)(ReopenReq tbl := (reqs s (ReopenReq tbl))\<lparr>rq_err := err, rq_done := True\<rparr>)"
    "pending_queues ?s = pending_queues s" "tasks ?s = tasks s" "requests ?s = requests s" "task_mgr ?s = task_mgr s"
    "links ?s = links s"
    by (simp_all add: set_done_def)
  have w: "waiting ?s = (waiting s)(tbl := [])" by (simp add: waiting_def set_done_def fun_eq_iff)
  have ok: "req_ok r (?loc r) (reqs ?s r)" for r
  proof -
    consider "r = ReopenReq tbl" | "r \<noteq> ReopenReq tbl" "loc r = Waiting tbl" | "r \<noteq> ReopenReq tbl" "loc r \<noteq> Waiting tbl" by blast
    then show ?thesis
    proof cases
      case 1
      then show ?thesis using core_req_ok [OF c, of r] l req_ok_ending sr(1) by (simp add: released_def)
    next
      case 2
      then show ?thesis using core_req_ok [OF c, of r] sr(1) by (auto simp: released_def req_ok_def)
    next
      case 3
      then show ?thesis using core_req_ok [OF c, of r] sr(1) by (simp add: released_def)
    qed
  qed
  have wu: "owned r = None" if "loc r = Waiting tbl'" for r tbl'
    using core_req_ok [OF c, of r] that by (auto simp: req_ok_def)
  have "inv_requests ?loc ?s"
    unfolding inv_requests_def
  proof (intro conjI allI impI)
    show "req_ok r (?loc r) (reqs ?s r)" for r by (rule ok)
    show "?loc r = Nowhere" if "r \<in> internal_of tbl'" "pending_queues ?s tbl' = None" for tbl' r
      using i(3) that sr(2) by (auto simp: inv_requests_def released_def)
    show "owned_ok r (reqs ?s r)" if "r \<in> internal_of tbl'" "pending_queues ?s tbl' \<noteq> None" for tbl' r
      using i(3) that sr(1,2) by (auto simp: inv_requests_def)
    show "pending_reopens ?s tbl' = None \<longleftrightarrow> gone (?loc (ReopenReq tbl'))" for tbl'
      using i(3) wu [of "ReopenReq tbl'"] by (auto simp: inv_requests_def released_def)
    show "inflight st" if "pending_reopens ?s tbl' = Some st" for tbl' st
      using i(3) that by (auto simp: inv_requests_def split: if_splits)
  qed
  moreover have "inv_places ?loc Q R ?s"
  proof -
    have t: "(\<exists>tk. tasks s t' = Some tk \<and> tk_req tk = r') \<longleftrightarrow> loc r' = Running t' \<or> loc r' = Ending t'" for r' t'
      using i(2) by (simp add: inv_places_def)
    have "(\<exists>tk. tasks s t' = Some tk \<and> tk_req tk = r') \<longleftrightarrow> ?loc r' = Running t' \<or> ?loc r' = Ending t'" for r' t'
      using t [of t' r'] l by (auto simp: released_def)
    moreover have "{r. ?loc r \<noteq> Nowhere} = {r. loc r \<noteq> Nowhere}" using l by (auto simp: released_def)
    moreover have "?loc r = p \<longleftrightarrow> loc r = p" if "p \<in> {Received, Retrying} \<union> range Queued" for r p
      using that l by (auto simp: released_def)
    moreover have "?loc r = Waiting tbl' \<longleftrightarrow> tbl' \<noteq> tbl \<and> loc r = Waiting tbl'" for r tbl'
      using l by (auto simp: released_def)
    ultimately show ?thesis using i(2) unfolding inv_places_def sr w by simp
  qed
  moreover have "inv_writers ?loc ?s"
  proof (rule inv_writers_cong [OF i(4,2)])
    have "busy_place (?loc r) = busy_place (loc r)" for r using l by (auto simp: released_def)
    then show "busy_with ?loc ?s tbl' r = busy_with loc s tbl' r" for tbl' r by (simp add: busy_with_def sr(1))
  qed (auto simp: is_running_def sr)
  moreover have "inv_pools ?loc ?s"
  proof (rule inv_pools_cong [OF i(5)])
    have "{r. is_stuck (?loc r)} = {r. is_stuck (loc r)}" using l by (auto simp: released_def)
    then show "stuck ?loc = stuck loc" by (simp add: stuck_def)
  qed (simp_all add: sr)
  ultimately show ?thesis using i(1) by (simp add: core_def inv_queues_def sr)
qed

text \<open>Where the requests go that waited.\<close>

definition resumed :: "(req_ref \<Rightarrow> bool) \<Rightarrow> KvError \<Rightarrow> req_ref set \<Rightarrow> (req_ref \<Rightarrow> place) \<Rightarrow> req_ref \<Rightarrow> place" where
  "resumed running err W loc r =
    (if r \<in> W then if err = NoError \<and> running r then Received else Nowhere else loc r)"

lemma resume_waiter_move:
  assumes c: "core loc Q R s" and "owned r = None" "loc r = InHand"
  shows "core (loc(r := if err = NoError \<and> running r then Received else Nowhere)) Q R (resume_waiter running err r s)"
  using done_move [OF assms] send_move [OF assms]
  by (simp add: resume_waiter_def SendRequest_def)

lemma resume_waiters_move:
  assumes "core loc Q R s" "distinct ws" "\<And>r. r \<in> set ws \<Longrightarrow> owned r = None \<and> loc r = InHand"
  shows "core (resumed running err (set ws) loc) Q R (fold (resume_waiter running err) ws s)"
  using assms
proof (induction ws arbitrary: loc s)
  case Nil
  then show ?case by (simp add: resumed_def [abs_def])
next
  case (Cons w ws)
  define p where "p = (if err = NoError \<and> running w then Received else Nowhere)"
  have c: "core (loc(w := p)) Q R (resume_waiter running err w s)"
    unfolding p_def using Cons.prems(3) [of w] by (intro resume_waiter_move [OF Cons.prems(1)]) auto
  have w: "owned r = None \<and> (loc(w := p)) r = InHand" if "r \<in> set ws" for r
    using that Cons.prems(2,3) by auto
  have "distinct ws" using Cons.prems(2) by simp
  from Cons.IH [OF c this w] have "core (resumed running err (set ws) (loc(w := p))) Q R
    (fold (resume_waiter running err) ws (resume_waiter running err w s))" .
  moreover have "resumed running err (set (w # ws)) loc = resumed running err (set ws) (loc(w := p))"
    using Cons.prems(2) by (auto simp: resumed_def p_def fun_eq_iff)
  ultimately show ?case by simp
qed

text \<open>Everything \<open>SetDone\<close> changes.\<close>

definition done_places :: "(req_ref \<Rightarrow> bool) \<Rightarrow> KvError \<Rightarrow> req_ref \<Rightarrow> task_ref \<Rightarrow> (req_ref \<Rightarrow> place) \<Rightarrow> req_ref \<Rightarrow> place" where
  "done_places running err r t loc =
    (case r of
       ReopenReq tbl \<Rightarrow> resumed running err {r. loc r = Waiting tbl} (released loc tbl t)
     | _ \<Rightarrow> loc(r := Ending t))"

lemma done_places_user: "r \<notin> range ReopenReq \<Longrightarrow> done_places running err r t loc = loc(r := Ending t)"
  by (cases r) (auto simp: done_places_def)

lemma SetDone_move:
  assumes c: "core loc Q R s" and l: "loc r = Running t"
  shows "core (done_places running err r t loc) Q R (SetDone running r err s)"
proof (cases "r \<in> range ReopenReq")
  case False
  then have "SetDone running r err s = set_done r err s" by (cases r) (auto simp: SetDone_def)
  then show ?thesis using ending_move [OF c l False] done_places_user [OF False] by simp
next
  case True
  then obtain tbl where r: "r = ReopenReq tbl" by auto
  obtain st where st: "pending_reopens s tbl = Some st"
    using c l r by (cases "pending_reopens s tbl") (auto simp: core_def inv_requests_def)
  let ?s = "set_done r err s\<lparr>pending_reopens := (pending_reopens s)(tbl := None)\<rparr>"
  have "SetDone running r err s = fold (resume_waiter running err) (waiters st) ?s"
    using st r by (simp add: SetDone_def reopen_callback_def set_done_def)
  moreover have w: "set (waiters st) = {r. loc r = Waiting tbl}" "distinct (waiters st)"
  proof -
    have "waiting s tbl = waiters st" using st by (simp add: waiting_def)
    moreover have "distinct (waiting s tbl)" "r' \<in> set (waiting s tbl) \<longleftrightarrow> loc r' = Waiting tbl" for r'
      using c by (simp_all add: core_def inv_places_def)
    ultimately show "set (waiters st) = {r. loc r = Waiting tbl}" "distinct (waiters st)" by auto
  qed
  moreover have "owned r' = None \<and> released loc tbl t r' = InHand" if "r' \<in> set (waiters st)" for r'
    using that w(1) core_req_ok [OF c, of r'] l r by (auto simp: released_def req_ok_def)
  ultimately show ?thesis
    using resume_waiters_move [OF reopen_move [OF c, of tbl t err], of "waiters st" running err] l r
    by (simp add: done_places_def)
qed

end
