(* ===== verification/Shard_Steps.thy ===== *)
theory Shard_Steps
  imports Shard_Correct
begin

text \<open>
  The steps of a shard keep the invariant of \<open>Shard_Correct\<close>: freeing a task, waiting for a reopened
  partition, internal requests, and the composition of the moves into the operations of the source.
\<close>

section \<open>Freeing a task\<close>

lemma FreeTask_pools:
  assumes "inv_pools loc s" "tasks s t = Some tk" "stuck loc' = stuck loc"
  shows "\<exists>tm. FreeTask t (task_mgr s) = Some tm
    \<and> max_write_concurrency_limit tm = max_write_concurrency_limit (task_mgr s)
    \<and> (\<forall>s'. task_mgr s' = tm \<and> tasks s' = (tasks s)(t := None) \<longrightarrow> inv_pools loc' s')"
proof -
  obtain ty i where t: "t = (ty, i)" by (cases t)
  let ?limit = "max_write_concurrency_limit (task_mgr s)"
  have p: "pool_ok ?limit ty' (tm_pool (task_mgr s) ty') (live_tasks s ty') (stuck loc)" for ty'
    using assms(1) by (simp add: inv_pools_def)
  have i: "i \<in> live_tasks s ty" using assms(2) t by (simp add: live_tasks_def)
  have nty: "ty \<noteq> TT_EvictFile" "ty \<noteq> TT_Prewarm" using p [of ty] i by (auto simp: pool_ok_def)
  have card: "card (live_tasks s ty) = Suc (card (live_tasks s ty - {i}))"
    using p [of ty] i by (metis card_Suc_Diff1 pool_ok_def)
  have live: "live_tasks s' ty' = (if ty' = ty then live_tasks s ty - {i} else live_tasks s ty')"
    if "tasks s' = (tasks s)(t := None)" for s' ty'
    using that t by (auto simp: live_tasks_def)
  have pos: "counts_as_write ty \<Longrightarrow> 0 < num_active_write (task_mgr s)"
    using assms(1) card by (auto simp: inv_pools_def counts_as_write_def)
  obtain tm where tm: "FreeTask t (task_mgr s) = Some tm"
    "tm_pool tm = (tm_pool (task_mgr s))(ty := pool_FreeTask i (tm_pool (task_mgr s) ty))"
    "max_write_concurrency_limit tm = ?limit"
    "num_active_write tm = num_active_write (task_mgr s) - (if counts_as_write ty then 1 else 0)"
    using t nty pos by (cases "counts_as_write ty") (auto simp: FreeTask_def Let_def)
  have "inv_pools loc' s'" if "task_mgr s' = tm" "tasks s' = (tasks s)(t := None)" for s'
    using assms(1,3) tm(2-4) p pool_release [OF p i] card that(1)
    by (auto simp: inv_pools_def live [OF that(2)] counts_as_write_def)
  then show ?thesis using tm(1,3) by auto
qed

text \<open>Where the request of a freed task goes.\<close>

definition freed :: "place \<Rightarrow> place" where
  "freed p = (case p of Ending t \<Rightarrow> Nowhere | _ \<Rightarrow> Retrying)"

lemma inv_places_free:
  assumes "inv_places loc Q R s" "tasks s t = Some tk" "tk_req tk = r" "tasks s' = (tasks s)(t := None)"
    "requests s' = requests s" "pending_reopens s' = pending_reopens s"
    "R' = (if loc r = Ending t then R else r # R)"
  shows "inv_places (loc(r := freed (loc r))) Q R' s'"
proof -
  have l: "loc r = Running t \<or> loc r = Ending t" using inv_places_task [OF assms(1,2)] assms(3) by simp
  have tt: "(\<exists>tk. tasks s t' = Some tk \<and> tk_req tk = r') \<longleftrightarrow> loc r' = Running t' \<or> loc r' = Ending t'" for r' t'
    using assms(1) by (simp add: inv_places_def)
  have "(\<exists>tk. ((tasks s)(t := None)) t' = Some tk \<and> tk_req tk = r') \<longleftrightarrow>
    (loc(r := freed (loc r))) r' = Running t' \<or> (loc(r := freed (loc r))) r' = Ending t'" for r' t'
  proof (cases "t' = t")
    case True
    have "loc r' \<noteq> Running t \<and> loc r' \<noteq> Ending t" if "r' \<noteq> r"
      using tt [of t r'] assms(2,3) that by auto
    then show ?thesis using True l by (auto simp: freed_def)
  next
    case False
    then show ?thesis using tt [of t' r'] l by (auto simp: freed_def)
  qed
  moreover have "waiting s' = waiting s" using assms(6) by (simp add: waiting_def fun_eq_iff)
  moreover have "loc r = Running t \<Longrightarrow> r \<notin> set R" using assms(1) by (simp add: inv_places_def)
  ultimately show ?thesis
    using assms(1,4,5,7) l finite_move [of loc r "freed (loc r)"] by (auto simp: inv_places_def freed_def)
qed

lemma inv_writers_free:
  assumes "inv_writers loc s" "inv_places loc Q R s" "tasks s t = Some tk" "tk_req tk = r" "\<not> task_ReadOnly (fst t)"
    "tasks s' = (tasks s)(t := None)" "reqs s' = reqs s" "p = Nowhere \<or> p = Retrying"
    "\<And>tbl. is_running s' tbl = (tbl \<noteq> tk_tbl tk \<and> is_running s tbl)"
  shows "inv_writers (loc(r := p)) s'"
proof -
  have l: "loc r = Running t \<or> loc r = Ending t" using inv_places_task [OF assms(2,3)] assms(4) by simp
  have tbl: "rq_tbl (reqs s r) = tk_tbl tk" using assms(1,3,4) by (simp add: inv_writers_def)
  have b: "busy_with (loc(r := p)) s' tbl' r' = (r' \<noteq> r \<and> busy_with loc s tbl' r')" for tbl' r'
    using assms(7,8) by (auto simp: busy_with_def)
  have r: "busy_with loc s (tk_tbl tk) r" using tbl l assms(5) by (auto simp: busy_with_def)
  have only: "busy_with loc s (tk_tbl tk) r' \<Longrightarrow> r' = r" for r' using assms(1) r by (auto simp: inv_writers_def)
  have other: "busy_with loc s tbl' r \<Longrightarrow> tbl' = tk_tbl tk" for tbl' using tbl by (auto simp: busy_with_def)
  have "(tbl' \<noteq> tk_tbl tk \<and> is_running s tbl') = (\<exists>r'. r' \<noteq> r \<and> busy_with loc s tbl' r')" for tbl'
    using assms(1) only other unfolding inv_writers_def by metis
  then show ?thesis
    unfolding inv_writers_def b assms(6,7,9)
    using assms(1) only other by (auto simp: inv_writers_def)
qed

lemma inv_writers_free_read:
  assumes "inv_writers loc s" "inv_places loc Q R s" "tasks s t = Some tk" "tk_req tk = r" "task_ReadOnly (fst t)"
    "tasks s' = (tasks s)(t := None)" "reqs s' = reqs s" "p = Nowhere \<or> p = Retrying" "is_running s' = is_running s"
  shows "inv_writers (loc(r := p)) s'"
proof -
  have l: "loc r = Running t \<or> loc r = Ending t" using inv_places_task [OF assms(2,3)] assms(4) by simp
  have b: "busy_with (loc(r := p)) s' = busy_with loc s"
    using assms(5,7,8) l by (auto simp: busy_with_def fun_eq_iff)
  show ?thesis unfolding inv_writers_def b assms(6,7,9) using assms(1) by (auto simp: inv_writers_def)
qed

text \<open>When the queue of a partition is erased, none of its internal requests is in use: it would be in
  the queue, or the request of the write task that ended.\<close>

lemma internal_idle:
  assumes c: "core loc Q R s" and "busy_with loc s tbl r" "Q tbl = []" "r' \<in> internal_of tbl" "r' \<noteq> r"
    and "\<And>r. loc r \<noteq> InHand \<and> loc r \<noteq> Popped"
  shows "loc r' = Nowhere"
proof (rule ccontr)
  assume n: "loc r' \<noteq> Nowhere"
  have ok: "req_ok r' (loc r') (reqs s r')" by (rule core_req_ok [OF c])
  have own: "owned r' \<noteq> None" using internal_owned [OF assms(4)] by auto
  have "owned_ok r' (reqs s r')" using ok n by (simp add: req_ok_def)
  then have o: "rq_tbl (reqs s r') = tbl" "\<not> ReadOnly (rq_type (reqs s r'))"
    using assms(4) by (auto simp: owned_ok_def internal_of_def ReadOnly_def)
  have "owned_place (loc r')" using ok own by (simp add: req_ok_def)
  then consider tbl' where "loc r' = Queued tbl'" | t where "loc r' = Running t \<or> loc r' = Ending t"
    using n assms(6) [of r'] by (cases "loc r'") auto
  then show False
  proof cases
    case 1
    then have "tbl' = tbl" using ok o(1) by (auto simp: req_ok_def)
    then show ?thesis using 1 places_queue [of loc Q R s r' tbl] c assms(3) by (simp add: core_def)
  next
    case 2
    then have "\<not> task_ReadOnly (fst t)" using ok o(2) by (auto simp: req_ok_def)
    then have "busy_with loc s tbl r'" using 2 o(1) by (auto simp: busy_with_def)
    then show ?thesis using c assms(2,5) by (auto simp: core_def inv_writers_def)
  qed
qed

definition erase_if_empty :: "req_ref PendingWriteQueue \<Rightarrow> req_ref PendingWriteQueue option" where
  "erase_if_empty q = (if pwq_Empty q then None else Some (q\<lparr>pq_running := False\<rparr>))"

lemma req_ok_freed:
  assumes "req_ok r p q" "p = Running t \<or> p = Ending t" "p = Running t \<Longrightarrow> owned r = None"
  shows "req_ok r (freed p) q"
proof (cases "p = Running t")
  case True
  then show ?thesis using assms(1,3) by (simp add: req_ok_def freed_def)
next
  case False
  then show ?thesis using assms(1,2) by (simp add: req_ok_def freed_def)
qed

lemma inv_requests_free:
  assumes c: "core loc Q R s" and t: "tasks s t = Some tk" "tk_req tk = r"
    and h: "\<And>r. loc r \<noteq> InHand \<and> loc r \<noteq> Popped" and u: "loc r = Running t \<Longrightarrow> owned r = None"
    and s': "reqs s' = reqs s" "pending_reopens s' = pending_reopens s"
      "\<And>tbl. pending_queues s' tbl = None \<longleftrightarrow> pending_queues s tbl = None \<or> busy_with loc s tbl r \<and> Q tbl = []"
  shows "inv_requests (loc(r := freed (loc r))) s'"
proof -
  have i: "inv_requests loc s" "inv_places loc Q R s" using c by (simp_all add: core_def)
  have l: "loc r = Running t \<or> loc r = Ending t" using inv_places_task [OF i(2) t(1)] t(2) by simp
  have g: "gone (freed (loc r)) = gone (loc r)" using l by (auto simp: freed_def)
  show ?thesis
    unfolding inv_requests_def s'
  proof (intro conjI allI impI)
    show "req_ok r' ((loc(r := freed (loc r))) r') (reqs s r')" for r'
      using core_req_ok [OF c, of r'] req_ok_freed [OF core_req_ok [OF c, of r] l u] by simp
    show "(loc(r := freed (loc r))) r' = Nowhere"
      if r': "r' \<in> internal_of tbl" and q: "pending_queues s tbl = None \<or> busy_with loc s tbl r \<and> Q tbl = []" for tbl r'
    proof (cases "r' = r")
      case True
      then have "loc r = Ending t" using l u internal_owned [OF r'] by auto
      then show ?thesis using True by (simp add: freed_def)
    next
      case False
      then show ?thesis using internal_idle [OF c _ _ r' False h] i(1) q r' by (auto simp: inv_requests_def)
    qed
    show "owned_ok r' (reqs s r')" if "r' \<in> internal_of tbl" "\<not> (pending_queues s tbl = None \<or> busy_with loc s tbl r \<and> Q tbl = [])" for tbl r'
      using i(1) that by (auto simp: inv_requests_def)
    show "pending_reopens s tbl = None \<longleftrightarrow> gone ((loc(r := freed (loc r))) (ReopenReq tbl))" for tbl
      using i(1) g by (auto simp: inv_requests_def)
    show "inflight st" if "pending_reopens s tbl = Some st" for tbl st
      using i(1) that by (auto simp: inv_requests_def)
  qed
qed

lemma free_move:
  assumes c: "core loc Q R s" and t: "tasks s t = Some tk"
    and h: "\<And>r. loc r \<noteq> InHand \<and> loc r \<noteq> Popped" and u: "loc (tk_req tk) = Running t \<Longrightarrow> owned (tk_req tk) = None"
  shows "\<exists>s'. OnTaskFinished t s =
      Some (s', (if task_ReadOnly (fst t) then [] else [Dispatch]) @ [Retry (tk_req tk) (needs_oom_retry tk) (needs_auto_reopen tk)])
    \<and> core (loc(tk_req tk := freed (loc (tk_req tk)))) Q (if loc (tk_req tk) = Ending t then R else tk_req tk # R) s'
    \<and> reqs s' = reqs s \<and> tasks s' = (tasks s)(t := None)
    \<and> (\<forall>tbl q. pending_queues s' tbl = Some q \<longrightarrow> (task_ReadOnly (fst t) \<longrightarrow> pending_queues s tbl = Some q))
    \<and> (task_ReadOnly (fst t) \<longrightarrow> max_write_concurrency_limit (task_mgr s') = max_write_concurrency_limit (task_mgr s)
         \<and> num_active_write (task_mgr s') = num_active_write (task_mgr s))"
proof -
  let ?r = "tk_req tk"
  have i: "inv_queues Q s" "inv_places loc Q R s" "inv_requests loc s" "inv_writers loc s" "inv_pools loc s"
    using c by (simp_all add: core_def)
  have l: "loc ?r = Running t \<or> loc ?r = Ending t" using inv_places_task [OF i(2) t] .
  have st: "stuck (loc(?r := freed (loc ?r))) = stuck loc" using l by (intro stuck_move) (auto simp: freed_def)
  have p: "freed (loc ?r) = Nowhere \<or> freed (loc ?r) = Retrying" using l by (auto simp: freed_def)
  obtain tm where tm: "FreeTask t (task_mgr s) = Some tm"
    "\<And>s'. task_mgr s' = tm \<Longrightarrow> tasks s' = (tasks s)(t := None) \<Longrightarrow> inv_pools (loc(?r := freed (loc ?r))) s'"
    using FreeTask_pools [OF i(5) t st] by auto
  show ?thesis
  proof (cases "task_ReadOnly (fst t)")
    case True
    let ?s = "s\<lparr>task_mgr := tm, tasks := (tasks s)(t := None)\<rparr>"
    have "\<not> busy_with loc s tbl ?r" for tbl using l True by (auto simp: busy_with_def)
    then have "inv_requests (loc(?r := freed (loc ?r))) ?s"
      by (intro inv_requests_free [OF c t refl h u]) auto
    moreover have "inv_places (loc(?r := freed (loc ?r))) Q (if loc ?r = Ending t then R else ?r # R) ?s"
      by (rule inv_places_free [OF i(2) t refl]) simp_all
    moreover have "inv_writers (loc(?r := freed (loc ?r))) ?s"
      using True p by (intro inv_writers_free_read [OF i(4,2) t refl]) (auto simp: is_running_def fun_eq_iff)
    moreover have "num_active_write tm = num_active_write (task_mgr s)" "max_write_concurrency_limit tm = max_write_concurrency_limit (task_mgr s)"
      using tm(1) True by (auto simp: FreeTask_def Let_def counts_as_write_def task_ReadOnly_def split: if_splits)
    ultimately show ?thesis
      using True t tm i(1) by (auto simp: OnTaskFinished_def core_def inv_queues_def)
  next
    case False
    have tbl: "tk_tbl tk = rq_tbl (reqs s ?r)" using i(4) t by (simp add: inv_writers_def)
    have b: "busy_with loc s tbl ?r \<longleftrightarrow> tbl = tk_tbl tk" for tbl using l False tbl by (auto simp: busy_with_def)
    then have "is_running s (tk_tbl tk)" using i(4) by (auto simp: inv_writers_def)
    then obtain q where q: "pending_queues s (tk_tbl tk) = Some q" by (auto simp: is_running_def)
    let ?s = "s\<lparr>task_mgr := tm, tasks := (tasks s)(t := None),
      pending_queues := (pending_queues s)(tk_tbl tk := erase_if_empty q)\<rparr>"
    have rep: "pwq_rep (q, links s) (Q (tk_tbl tk))" by (rule core_queue [OF c q])
    have e: "erase_if_empty q = None \<longleftrightarrow> Q (tk_tbl tk) = []" "erase_if_empty q = Some q' \<Longrightarrow> q' = q\<lparr>pq_running := False\<rparr>" for q'
      using pwq_Empty_iff [OF rep] by (auto simp: erase_if_empty_def split: if_splits)
    have "inv_requests (loc(?r := freed (loc ?r))) ?s"
      using e(1) q b by (intro inv_requests_free [OF c t refl h u]) auto
    moreover have "inv_places (loc(?r := freed (loc ?r))) Q (if loc ?r = Ending t then R else ?r # R) ?s"
      by (rule inv_places_free [OF i(2) t refl]) simp_all
    moreover have "inv_writers (loc(?r := freed (loc ?r))) ?s"
      using False p e(2) by (intro inv_writers_free [OF i(4,2) t refl]) (auto simp: is_running_def)
    moreover have "inv_queues Q ?s"
      using i(1) e rep by (auto simp: inv_queues_def pwq_rep_def)
    moreover have "OnTaskFinished t s = Some (?s, [Dispatch, Retry ?r (needs_oom_retry tk) (needs_auto_reopen tk)])"
      using False t tm(1) q by (simp add: OnTaskFinished_def erase_if_empty_def)
    ultimately show ?thesis
      using False tm(2) by (auto simp: core_def)
  qed
qed

section \<open>Waiting for a reopened partition\<close>

lemma wait_move:
  assumes c: "core loc Q R s" and u: "owned r = None" and l: "loc r = InHand"
    and st: "pending_reopens s (rq_tbl (reqs s r)) = Some st"
  shows "core (loc(r := Waiting (rq_tbl (reqs s r)))) Q R
    (s\<lparr>pending_reopens := (pending_reopens s)(rq_tbl (reqs s r) \<mapsto> st\<lparr>waiters := waiters st @ [r]\<rparr>)\<rparr>)" (is "core ?loc Q R ?s")
proof (rule core_quiet [OF c])
  have i: "inv_queues Q s" "inv_places loc Q R s" "inv_requests loc s" using c by (simp_all add: core_def)
  have w: "waiting ?s = (waiting s)(rq_tbl (reqs s r) := waiting s (rq_tbl (reqs s r)) @ [r])"
    using st by (auto simp: waiting_def fun_eq_iff)
  have "r \<notin> set (waiting s tbl)" for tbl using i(2) l by (simp add: inv_places_def)
  then show "inv_places ?loc Q R ?s"
    using i(2) l w finite_move [of loc r "Waiting (rq_tbl (reqs s r))"] by (auto simp: inv_places_def)
  have "req_ok r (Waiting (rq_tbl (reqs s r))) (reqs s r)"
    using core_req_ok [OF c, of r] l u by (auto simp: req_ok_def)
  moreover have "\<not> gone (loc (ReopenReq (rq_tbl (reqs s r))))" using i(3) st unfolding inv_requests_def by (metis option.distinct(1))
  ultimately show "inv_requests ?loc ?s"
    using i(3) u st by (auto simp: inv_requests_def owned_None)
  show "inv_queues Q ?s" using i(1) by (simp add: inv_queues_def)
qed (use l in \<open>auto simp: is_running_def\<close>)

text \<open>The first request that waits brings the request that reopens the partition.\<close>

lemma wait_first_move:
  assumes c: "core loc Q R s" and u: "owned r = None" and l: "loc r = InHand" and tbl: "rq_tbl (reqs s r) = tbl"
    and st: "pending_reopens s tbl = None" and g: "loc (ReopenReq tbl) = Nowhere"
  shows "core (loc(r := Waiting tbl, ReopenReq tbl := InHand)) Q R
    (s\<lparr>pending_reopens := (pending_reopens s)(tbl \<mapsto> \<lparr>inflight = True, waiters = [r]\<rparr>),
       reqs := (reqs s)(ReopenReq tbl := KvRequest_new RT_Reopen tbl)\<rparr>)" (is "core ?loc Q R ?s")
proof -
  have i: "inv_queues Q s" "inv_places loc Q R s" "inv_requests loc s" "inv_writers loc s" "inv_pools loc s"
    using c by (simp_all add: core_def)
  have ne: "r \<noteq> ReopenReq tbl" using u by auto
  have w: "waiting ?s = (waiting s)(tbl := [r])" by (auto simp: waiting_def fun_eq_iff)
  have nw: "loc r' \<noteq> Waiting tbl" for r'
  proof -
    have "r' \<in> set (waiting s tbl) \<longleftrightarrow> loc r' = Waiting tbl" using i(2) by (simp add: inv_places_def)
    then show ?thesis using st by (simp add: waiting_def)
  qed
  have "{r'. ?loc r' \<noteq> Nowhere} \<subseteq> insert (ReopenReq tbl) (insert r {r. loc r \<noteq> Nowhere})" by auto
  moreover have "finite {r. loc r \<noteq> Nowhere}" using i(2) by (simp add: inv_places_def)
  ultimately have "finite {r'. ?loc r' \<noteq> Nowhere}" by (meson finite_insert finite_subset)
  moreover have "?loc r' = p \<longleftrightarrow> loc r' = p" if "p \<in> {Received, Retrying} \<union> range Queued \<union> range Running \<union> range Ending" for r' p
    using that l g ne by auto
  moreover have "?loc r' = Waiting tbl' \<longleftrightarrow> (if tbl' = tbl then r' = r else loc r' = Waiting tbl')" for r' tbl'
    using l g ne nw by auto
  ultimately have "inv_places ?loc Q R ?s" using i(2) unfolding inv_places_def w by simp
  moreover have "inv_requests ?loc ?s"
    unfolding inv_requests_def
  proof (intro conjI allI impI)
    fix r'
    have "req_ok r (Waiting tbl) (reqs s r)" using core_req_ok [OF c, of r] l u tbl by (auto simp: req_ok_def)
    moreover have "req_ok (ReopenReq tbl) InHand (KvRequest_new RT_Reopen tbl)"
      by (auto simp: req_ok_def owned_ok_def KvRequest_new_def ReadOnly_def)
    ultimately show "req_ok r' (?loc r') (reqs ?s r')"
      using core_req_ok [OF c, of r'] ne by auto
  next
    show "?loc r' = Nowhere" if "r' \<in> internal_of tbl'" "pending_queues ?s tbl' = None" for tbl' r'
    proof -
      have "r' \<noteq> r" "r' \<noteq> ReopenReq tbl" using that(1) u by (auto simp: owned_None)
      then show ?thesis using i(3) that by (simp add: inv_requests_def)
    qed
    show "owned_ok r' (reqs ?s r')" if "r' \<in> internal_of tbl'" "pending_queues ?s tbl' \<noteq> None" for tbl' r'
      using i(3) that by (auto simp: inv_requests_def)
    show "pending_reopens ?s tbl' = None \<longleftrightarrow> gone (?loc (ReopenReq tbl'))" for tbl'
      using i(3) u by (auto simp: inv_requests_def)
    show "inflight st" if "pending_reopens ?s tbl' = Some st" for tbl' st
      using i(3) that by (auto simp: inv_requests_def split: if_splits)
  qed
  moreover have "inv_writers ?loc ?s"
  proof (rule inv_writers_cong [OF i(4,2)])
    have "busy_place (?loc r') = busy_place (loc r')" for r' using l g by auto
    then show "busy_with ?loc ?s tbl' r' = busy_with loc s tbl' r'" for tbl' r'
      using g by (auto simp: busy_with_def)
  qed (use g in \<open>auto simp: is_running_def\<close>)
  moreover have "inv_pools ?loc ?s"
  proof (rule inv_pools_cong [OF i(5)])
    have "{r'. is_stuck (?loc r')} = {r. is_stuck (loc r)}" using l g by auto
    then show "stuck ?loc = stuck loc" by (simp add: stuck_def)
  qed simp_all
  ultimately show ?thesis using i(1) by (simp add: core_def inv_queues_def)
qed

lemma internal_move:
  assumes c: "core loc Q R s" and r: "r \<in> internal_of tbl" and l: "loc r = Nowhere"
    and q: "pending_queues s tbl \<noteq> None"
  shows "core (loc(r := InHand)) Q R (set_req r (\<lambda>q. q\<lparr>rq_tbl := tbl, rq_done := False\<rparr>) s)" (is "core _ Q R ?s")
    "\<not> ReadOnly (rq_type (reqs s r))"
proof -
  have i: "inv_queues Q s" "inv_places loc Q R s" "inv_requests loc s" using c by (simp_all add: core_def)
  have o: "owned_ok r (reqs s r)" using i(3) r q by (auto simp: inv_requests_def)
  then show "\<not> ReadOnly (rq_type (reqs s r))" using r by (auto simp: internal_of_def owned_ok_def ReadOnly_def)
  have own: "\<exists>ty. owned r = Some (ty, tbl)" by (rule internal_owned [OF r])
  then have t: "rq_tbl (reqs s r) = tbl" using o by (auto simp: owned_ok_def)
  then have o': "owned_ok r ((reqs s r)\<lparr>rq_tbl := tbl, rq_done := False\<rparr>)"
    using o own by (auto simp: owned_ok_def)
  have ok: "req_ok r InHand ((reqs s r)\<lparr>rq_tbl := tbl, rq_done := False\<rparr>)"
    using o' own by (auto simp: req_ok_def)
  show "core (loc(r := InHand)) Q R ?s"
  proof (rule core_quiet [OF c])
    show "inv_places (loc(r := InHand)) Q R ?s"
      using i(2) l finite_move [of loc r InHand] by (auto simp: inv_places_def)
    have "pending_queues s tbl' = None \<Longrightarrow> r \<notin> internal_of tbl'" for tbl' using q r by (auto simp: internal_of_def)
    moreover have "r \<noteq> ReopenReq tbl'" for tbl' using r by auto
    ultimately show "inv_requests (loc(r := InHand)) ?s"
      using i(3) ok o' unfolding inv_requests_def set_req_simps by (metis fun_upd_apply)
    show "inv_queues Q ?s" using i(1) by (simp add: inv_queues_def)
  qed (use l in auto)
qed

section \<open>The invariant between steps\<close>

definition shard_inv :: "(req_ref \<Rightarrow> place) \<Rightarrow> (TableIdent \<Rightarrow> req_ref list) \<Rightarrow> call list \<Rightarrow> Shard \<Rightarrow> bool" where
  "shard_inv loc Q cs s = (core loc Q (retries cs) s \<and> waits Q cs s \<and> settled loc s)"

text \<open>What is left to do for a request: the steps to its end, and more for each further attempt.\<close>

fun distance :: "place \<Rightarrow> nat" where
  "distance Nowhere = 0"
| "distance Received = 3"
| "distance (Queued tbl) = 2"
| "distance Popped = 2"
| "distance InHand = 3"
| "distance (Running t) = 1"
| "distance (Ending t) = 1"
| "distance (Waiting tbl) = 4"
| "distance Retrying = 8"
| "distance (Stuck tbl) = 1"

definition weight :: "place \<Rightarrow> KvRequest \<Rightarrow> nat" where
  "weight p q = (if p = Nowhere then 0 else distance p + 10 * (oom_retry_remaining q + reopen_retry_remaining q))"

definition potential :: "(req_ref \<Rightarrow> place) \<Rightarrow> Shard \<Rightarrow> nat" where
  "potential loc s = (\<Sum>r | loc r \<noteq> Nowhere. weight (loc r) (reqs s r))"

lemma potential_over:
  assumes "finite A" "{r. loc r \<noteq> Nowhere} \<subseteq> A"
  shows "potential loc s = (\<Sum>r \<in> A. weight (loc r) (reqs s r))"
  unfolding potential_def using assms by (intro sum.mono_neutral_left) (auto simp: weight_def)

lemma potential_move:
  assumes "finite {r. loc r \<noteq> Nowhere}" "\<And>r'. r' \<noteq> r \<Longrightarrow> weight (loc r') (reqs s' r') = weight (loc r') (reqs s r')"
  shows "potential (loc(r := p)) s' + weight (loc r) (reqs s r) = potential loc s + weight p (reqs s' r)"
proof -
  let ?A = "insert r {r. loc r \<noteq> Nowhere}"
  have f: "finite ?A" using assms(1) by simp
  have "potential (loc(r := p)) s' = (\<Sum>r' \<in> ?A. weight ((loc(r := p)) r') (reqs s' r'))"
    by (rule potential_over [OF f]) auto
  also have "\<dots> = weight p (reqs s' r) + (\<Sum>r' \<in> ?A - {r}. weight (loc r') (reqs s' r'))"
    using f by (subst sum.remove [of ?A r]) (auto intro!: sum.cong)
  also have "(\<Sum>r' \<in> ?A - {r}. weight (loc r') (reqs s' r')) = (\<Sum>r' \<in> ?A - {r}. weight (loc r') (reqs s r'))"
    using assms(2) by (intro sum.cong) auto
  finally have 1: "potential (loc(r := p)) s' = weight p (reqs s' r) + (\<Sum>r' \<in> ?A - {r}. weight (loc r') (reqs s r'))" .
  have "potential loc s = (\<Sum>r' \<in> ?A. weight (loc r') (reqs s r'))" by (rule potential_over [OF f]) auto
  also have "\<dots> = weight (loc r) (reqs s r) + (\<Sum>r' \<in> ?A - {r}. weight (loc r') (reqs s r'))"
    using f by (subst sum.remove [of ?A r]) auto
  finally show ?thesis using 1 by simp
qed

lemma core_finite: "core loc Q R s \<Longrightarrow> finite {r. loc r \<noteq> Nowhere}"
  by (simp add: core_def inv_places_def)

lemma settledD: "settled loc s \<Longrightarrow> loc r \<noteq> InHand \<and> loc r \<noteq> Popped" "settled loc s \<Longrightarrow> loc r \<noteq> Ending t"
  by (auto simp: settled_def)

section \<open>Starting a write\<close>

definition write_task_type :: "RequestType \<Rightarrow> TaskType" where
  "write_task_type ty =
    (if ty \<in> {RT_BatchWrite, RT_Truncate, RT_Drop, RT_CleanExpired} then TT_BatchWrite else TT_BackgroundWrite)"

lemma write_task_type_write [simp]: "counts_as_write (write_task_type ty)"
  by (simp add: write_task_type_def counts_as_write_def)

lemma ProcessReq_write:
  assumes "\<not> ReadOnly (rq_type (reqs s r))" "\<not> handled_by_store (rq_type (reqs s r))"
  shows "rq_type (reqs s r) = RT_Reopen \<and> ProcessReq r s = start_other TT_Reopen r s
    \<or> ProcessReq r s = start_write (write_task_type (rq_type (reqs s r))) r s
    \<or> rq_type (reqs s r) = RT_BatchWrite \<and> rq_batch_empty (reqs s r)
      \<and> ProcessReq r s = (case GetWriteTask TT_BatchWrite (task_mgr s) of
           None \<Rightarrow> Some (False, s) | Some (t, tm) \<Rightarrow> Some (True, s\<lparr>task_mgr := tm\<rparr>))"
  using assms
  by (cases "rq_type (reqs s r)")
    (simp_all add: ReadOnly_def handled_by_store_def write_task_type_def ProcessReq_def start_write_def Let_def
      split: option.split prod.split)

text \<open>Either a task exists for the request, or the empty batch is stuck, or nothing changed because the
  limit is reached.\<close>

lemma ProcessReq_ok:
  assumes c: "core loc Q R s" and l: "loc r = Popped" and "\<not> ReadOnly (rq_type (reqs s r))"
    "\<not> handled_by_store (rq_type (reqs s r))"
  shows "(\<exists>t tm. \<not> task_ReadOnly (fst t) \<and> takes (fst t) (snd t) (task_mgr s) tm
        \<and> ProcessReq r s = Some (True, StartTask t (rq_tbl (reqs s r)) r (s\<lparr>task_mgr := tm\<rparr>))
        \<and> core (loc(r := Running t)) Q R (StartTask t (rq_tbl (reqs s r)) r (s\<lparr>task_mgr := tm\<rparr>)))
    \<or> (\<exists>t tm. takes TT_BatchWrite t (task_mgr s) tm \<and> ProcessReq r s = Some (True, s\<lparr>task_mgr := tm\<rparr>)
        \<and> core (loc(r := Stuck (rq_tbl (reqs s r)))) Q R (s\<lparr>task_mgr := tm\<rparr>))
    \<or> ProcessReq r s = Some (False, s) \<and> max_write_concurrency_limit (task_mgr s) \<le> num_active_write (task_mgr s)"
proof -
  have p: "inv_pools loc s" using c by (simp add: core_def)
  have start: "core (loc(r := Running (ty, t))) Q R (StartTask (ty, t) (rq_tbl (reqs s r)) r (s\<lparr>task_mgr := tm\<rparr>))"
    if "takes ty t (task_mgr s) tm" "\<not> task_ReadOnly ty" for ty t tm
    using start_move [OF c _ _ that(1), of r] l assms(3) that(2) by simp
  consider "ProcessReq r s = start_other TT_Reopen r s"
    | ty where "counts_as_write ty" "ProcessReq r s = start_write ty r s"
    | "rq_type (reqs s r) = RT_BatchWrite" "rq_batch_empty (reqs s r)"
      "ProcessReq r s = (case GetWriteTask TT_BatchWrite (task_mgr s) of
           None \<Rightarrow> Some (False, s) | Some (t, tm) \<Rightarrow> Some (True, s\<lparr>task_mgr := tm\<rparr>))"
    using ProcessReq_write [OF assms(3,4)] write_task_type_write by blast
  then show ?thesis
  proof cases
    case 1
    obtain t tm where g: "GetOtherTask TT_Reopen (task_mgr s) = Some (t, tm)"
      using GetOtherTask_some [OF p, of TT_Reopen] by (auto simp: counts_as_write_def)
    have tk: "takes TT_Reopen t (task_mgr s) tm"
      using GetOtherTask_takes [OF _ _ _ g] by (simp add: counts_as_write_def)
    have "\<not> task_ReadOnly TT_Reopen" by (simp add: task_ReadOnly_def)
    then show ?thesis
      using start [OF tk] tk g 1 by (intro disjI1 exI [of _ "(TT_Reopen, t)"] exI [of _ tm]) (simp add: start_other_def)
  next
    case 2
    show ?thesis
    proof (cases "GetWriteTask ty (task_mgr s)")
      case None
      then show ?thesis using 2 GetWriteTask_full [OF p 2(1)] by (simp add: start_write_def)
    next
      case (Some tt)
      obtain t tm where g: "GetWriteTask ty (task_mgr s) = Some (t, tm)" using Some by (cases tt) simp
      have tk: "takes ty t (task_mgr s) tm" by (rule GetWriteTask_takes [OF 2(1) g])
      have "\<not> task_ReadOnly ty" using 2(1) by (auto simp: counts_as_write_def task_ReadOnly_def)
      then show ?thesis
        using start [OF tk] tk g 2 by (intro disjI1 exI [of _ "(ty, t)"] exI [of _ tm]) (simp add: start_write_def)
    qed
  next
    case 3
    have w: "counts_as_write TT_BatchWrite" by (simp add: counts_as_write_def)
    show ?thesis
    proof (cases "GetWriteTask TT_BatchWrite (task_mgr s)")
      case None
      then show ?thesis using 3 GetWriteTask_full [OF p w] by simp
    next
      case (Some tt)
      obtain t tm where g: "GetWriteTask TT_BatchWrite (task_mgr s) = Some (t, tm)" using Some by (cases tt) simp
      have tk: "takes TT_BatchWrite t (task_mgr s) tm" by (rule GetWriteTask_takes [OF w g])
      then show ?thesis using stuck_move_in [OF c l 3(1,2) tk] 3(3) g by auto
    qed
  qed
qed

text \<open>The potential falls, or it stays and the stack of calls gets shorter.\<close>

fun call_size :: "nat \<Rightarrow> call \<Rightarrow> nat" where
  "call_size n Dispatch = Suc n"
| "call_size n _ = 1"

definition stack_size :: "call list \<Rightarrow> Shard \<Rightarrow> nat" where
  "stack_size cs s = sum_list (map (call_size (card (dom (pending_queues s)))) cs)"

definition falls ::
  "(req_ref \<Rightarrow> place) \<Rightarrow> call list \<times> Shard \<Rightarrow> (req_ref \<Rightarrow> place) \<Rightarrow> call list \<times> Shard \<Rightarrow> bool" where
  "falls loc c loc' c' =
    (potential loc' (snd c') < potential loc (snd c)
     \<or> potential loc' (snd c') = potential loc (snd c) \<and> stack_size (fst c') (snd c') < stack_size (fst c) (snd c))"

definition keeps_stuck :: "(req_ref \<Rightarrow> place) \<Rightarrow> (req_ref \<Rightarrow> place) \<Rightarrow> bool" where
  "keeps_stuck loc loc' = (\<forall>r. is_stuck (loc r) \<longrightarrow> loc' r = loc r)"

lemma keeps_stuck_move: "\<not> is_stuck (loc r) \<Longrightarrow> keeps_stuck loc (loc(r := p))"
  by (simp add: keeps_stuck_def)

lemma settled_move:
  assumes "settled loc s" "p \<noteq> Popped" "p \<noteq> InHand" "\<And>t. p \<noteq> Ending t"
    "\<And>t tk. tasks s' t = Some tk \<Longrightarrow> \<not> needs_oom_retry tk \<and> \<not> needs_auto_reopen tk"
  shows "settled (loc(r := p)) s'"
  using assms by (auto simp: settled_def)

lemma waitsD:
  "waits Q cs s \<Longrightarrow> pending_queues s tbl = Some q \<Longrightarrow> Q tbl \<noteq> [] \<Longrightarrow> \<not> pq_running q \<Longrightarrow>
    max_write_concurrency_limit (task_mgr s) \<le> num_active_write (task_mgr s) \<or> TryStart tbl \<in> set cs \<or> Dispatch \<in> set cs"
  by (simp add: waits_def)

text \<open>After a call for one partition, only that partition has to be looked at.\<close>

lemma waits_pop:
  assumes "waits Q (TryStart tbl # cs) s"
    "\<And>tbl'. tbl' \<noteq> tbl \<Longrightarrow> pending_queues s' tbl' = pending_queues s tbl' \<and> Q' tbl' = Q tbl'"
    "max_write_concurrency_limit (task_mgr s') = max_write_concurrency_limit (task_mgr s)"
    "num_active_write (task_mgr s) \<le> num_active_write (task_mgr s')"
    "\<And>q. pending_queues s' tbl = Some q \<Longrightarrow> Q' tbl \<noteq> [] \<Longrightarrow> \<not> pq_running q \<Longrightarrow>
       max_write_concurrency_limit (task_mgr s') \<le> num_active_write (task_mgr s')"
  shows "waits Q' cs s'"
  unfolding waits_def
proof (intro allI impI)
  fix tbl' q assume q: "pending_queues s' tbl' = Some q" "Q' tbl' \<noteq> []" "\<not> pq_running q"
  show "max_write_concurrency_limit (task_mgr s') \<le> num_active_write (task_mgr s') \<or> TryStart tbl' \<in> set cs \<or> Dispatch \<in> set cs"
    using q assms(2) [of tbl'] assms(3-5) waitsD [OF assms(1), of tbl' q] by (cases "tbl' = tbl") auto
qed

lemma waits_start:
  assumes "waits Q (TryStart tbl # cs) s" "pending_queues s' = (pending_queues s)(tbl \<mapsto> q)" "pq_running q"
    "max_write_concurrency_limit (task_mgr s') = max_write_concurrency_limit (task_mgr s)"
    "num_active_write (task_mgr s) \<le> num_active_write (task_mgr s')"
  shows "waits (Q(tbl := xs)) cs s'"
  using assms(2-5) by (intro waits_pop [OF assms(1)]) auto

lemma takes_counts:
  "takes ty t tm tm' \<Longrightarrow> max_write_concurrency_limit tm' = max_write_concurrency_limit tm \<and> num_active_write tm \<le> num_active_write tm'"
  by (simp add: takes_def)

lemma StartTask_simps [simp]:
  "pending_queues (StartTask t tbl r s) = pending_queues s" "reqs (StartTask t tbl r s) = reqs s"
  "task_mgr (StartTask t tbl r s) = task_mgr s"
  "tasks (StartTask t tbl r s) =
    (tasks s)(t \<mapsto> \<lparr>tk_tbl = tbl, tk_req = r, needs_auto_reopen = False, needs_oom_retry = False\<rparr>)"
  by (simp_all add: StartTask_def)

lemma not_handled: "core loc Q R s \<Longrightarrow> loc r \<noteq> Nowhere \<Longrightarrow> \<not> handled_by_store (rq_type (reqs s r))"
  using core_req_ok [of loc Q R s r]
  by (cases r) (auto simp: req_ok_def owned_ok_def handled_by_store_def)

lemma potential_drop:
  assumes "core loc Q R s" "weight p (reqs s' r) < weight (loc r) (reqs s r)"
    "\<And>r'. r' \<noteq> r \<Longrightarrow> weight (loc r') (reqs s' r') = weight (loc r') (reqs s r')"
  shows "potential (loc(r := p)) s' < potential loc s"
  using potential_move [OF core_finite [OF assms(1)], of r s' s p] assms(2,3) by simp

lemma try_start_ok:
  assumes "shard_inv loc Q (TryStart tbl # cs) s"
  shows "\<exists>s' loc' Q'. TryStartPendingWrite tbl s = Some s' \<and> shard_inv loc' Q' cs s' \<and> keeps_stuck loc loc'
    \<and> falls loc (TryStart tbl # cs, s) loc' (cs, s')"
proof -
  have c: "core loc Q (retries cs) s" and w: "waits Q (TryStart tbl # cs) s" and st: "settled loc s"
    using assms by (auto simp: shard_inv_def)
  have same: ?thesis if "TryStartPendingWrite tbl s = Some s" "waits Q cs s"
    using that c st by (intro exI [of _ s] exI [of _ loc] exI [of _ Q]) (simp add: shard_inv_def keeps_stuck_def falls_def stack_size_def)
  show ?thesis
  proof (cases "pending_queues s tbl")
    case None
    then have "waits Q cs s" by (intro waits_pop [OF w]) auto
    then show ?thesis using None by (intro same) (simp_all add: TryStartPendingWrite_def)
  next
    case (Some q)
    have rep: "pwq_rep (q, links s) (Q tbl)" by (rule core_queue [OF c Some])
    show ?thesis
    proof (cases "pq_running q \<or> Q tbl = []")
      case True
      then have "waits Q cs s" using Some by (intro waits_pop [OF w]) auto
      then show ?thesis using True Some pwq_Empty_iff [OF rep] by (intro same) (auto simp: TryStartPendingWrite_def)
    next
      case False
      then obtain r xs where Q: "Q tbl = r # xs" by (cases "Q tbl") auto
      obtain q1 nx1 where pop: "PopFront (q, links s) = (Some r, (q1, nx1))" "loc r = Queued tbl"
        "rq_tbl (reqs s r) = tbl" "\<not> ReadOnly (rq_type (reqs s r))"
        "core (loc(r := Popped)) (Q(tbl := xs)) (retries cs) (put_queue tbl (q1\<lparr>pq_running := True\<rparr>, nx1) s)"
        using pop_move [OF c Some _ Q] False by blast
      let ?s1 = "put_queue tbl (q1\<lparr>pq_running := True\<rparr>, nx1) s"
      have nh: "\<not> handled_by_store (rq_type (reqs s r))" using not_handled [OF c, of r] pop(2) by simp
      have unf: "TryStartPendingWrite tbl s = do {
          (started, s) \<leftarrow> ProcessReq r ?s1;
          if started then Some s
          else do {
            q \<leftarrow> pending_queues s tbl;
            Some (put_queue tbl (PushFront r (q\<lparr>pq_running := False\<rparr>, links s)) s) } }"
        using Some False pop(1) pwq_Empty_iff [OF rep] by (simp add: TryStartPendingWrite_def)
      consider t tm where "takes (fst t) (snd t) (task_mgr s) tm"
          "ProcessReq r ?s1 = Some (True, StartTask t tbl r (?s1\<lparr>task_mgr := tm\<rparr>))"
          "core (loc(r := Running t)) (Q(tbl := xs)) (retries cs) (StartTask t tbl r (?s1\<lparr>task_mgr := tm\<rparr>))"
        | t tm where "takes TT_BatchWrite t (task_mgr s) tm" "ProcessReq r ?s1 = Some (True, ?s1\<lparr>task_mgr := tm\<rparr>)"
          "core (loc(r := Stuck tbl)) (Q(tbl := xs)) (retries cs) (?s1\<lparr>task_mgr := tm\<rparr>)"
        | "ProcessReq r ?s1 = Some (False, ?s1)" "max_write_concurrency_limit (task_mgr s) \<le> num_active_write (task_mgr s)"
        using ProcessReq_ok [OF pop(5), of r] pop(3,4) nh by auto
      then show ?thesis
      proof cases
        case 1
        let ?s = "StartTask t tbl r (?s1\<lparr>task_mgr := tm\<rparr>)"
        have "waits (Q(tbl := xs)) cs ?s"
          by (rule waits_start [OF w]) (use takes_counts [OF 1(1)] in auto)
        moreover have "settled (loc(r := Running t)) ?s"
          using st by (intro settled_move [OF st]) (auto simp: settled_def split: if_splits)
        moreover have "potential (loc(r := Running t)) ?s < potential loc s"
          using pop(2) by (intro potential_drop [OF c]) (auto simp: weight_def)
        ultimately show ?thesis
          using 1(2,3) pop(2)
          by (intro exI [of _ ?s] exI [of _ "loc(r := Running t)"] exI [of _ "Q(tbl := xs)"])
            (simp add: unf shard_inv_def keeps_stuck_move falls_def)
      next
        case 2
        let ?s = "?s1\<lparr>task_mgr := tm\<rparr>"
        have "waits (Q(tbl := xs)) cs ?s"
          by (rule waits_start [OF w]) (use takes_counts [OF 2(1)] in auto)
        moreover have "settled (loc(r := Stuck tbl)) ?s"
          using st by (intro settled_move [OF st]) (auto simp: settled_def)
        moreover have "potential (loc(r := Stuck tbl)) ?s < potential loc s"
          using pop(2) by (intro potential_drop [OF c]) (auto simp: weight_def)
        ultimately show ?thesis
          using 2(2,3) pop(2)
          by (intro exI [of _ ?s] exI [of _ "loc(r := Stuck tbl)"] exI [of _ "Q(tbl := xs)"])
            (simp add: unf shard_inv_def keeps_stuck_move falls_def)
      next
        case 3
        obtain q2 nx2 where pf: "PushFront r (q1\<lparr>pq_running := False\<rparr>, nx1) = (q2, nx2)" "\<not> pq_running q2"
          "core ((loc(r := Popped))(r := Queued tbl)) ((Q(tbl := xs))(tbl := r # (Q(tbl := xs)) tbl)) (retries cs)
            (put_queue tbl (q2, nx2) ?s1)"
          using unpop_move [OF pop(5), of tbl "q1\<lparr>pq_running := True\<rparr>" r] pop(3,4) by auto
        have bk: "(loc(r := Popped))(r := Queued tbl) = loc" "(Q(tbl := xs))(tbl := r # (Q(tbl := xs)) tbl) = Q"
          using pop(2) Q by auto
        let ?s = "put_queue tbl (q2, nx2) ?s1"
        have "TryStartPendingWrite tbl s = Some ?s" using 3(1) pf(1) by (simp add: unf)
        moreover have "waits Q cs ?s" using 3(2) by (intro waits_pop [OF w]) auto
        moreover have "settled loc ?s" using st by (simp add: settled_def)
        moreover have "potential loc ?s = potential loc s" by (simp add: potential_def)
        moreover have "dom (pending_queues ?s) = dom (pending_queues s)" using Some by auto
        ultimately show ?thesis
          using pf(3) unfolding bk
          by (intro exI [of _ ?s] exI [of _ loc] exI [of _ Q]) (simp add: shard_inv_def keeps_stuck_def falls_def stack_size_def)
      qed
    qed
  qed
qed

section \<open>Dispatch and retry\<close>

lemma dispatch_ok:
  assumes "shard_inv loc Q (Dispatch # cs) s" "distinct ts" "set ts = dom (pending_queues s)"
  shows "shard_inv loc Q (TryDispatchPendingWrites ts @ cs) s" "falls loc (Dispatch # cs, s) loc (TryDispatchPendingWrites ts @ cs, s)"
proof -
  have "TryStart tbl \<in> set (TryDispatchPendingWrites ts @ cs)" if "pending_queues s tbl = Some q" for tbl q
    using that assms(3) by (auto simp: TryDispatchPendingWrites_def)
  then show "shard_inv loc Q (TryDispatchPendingWrites ts @ cs) s" using assms(1) by (simp add: shard_inv_def waits_def)
  have "length ts = card (dom (pending_queues s))" using assms(2,3) distinct_card by fastforce
  moreover have "sum_list (map (call_size n) (TryDispatchPendingWrites ts)) = length ts" for n
    by (induction ts) (auto simp: TryDispatchPendingWrites_def)
  ultimately show "falls loc (Dispatch # cs, s) loc (TryDispatchPendingWrites ts @ cs, s)"
    by (simp add: falls_def stack_size_def)
qed

lemma AddKvRequest_simps [simp]:
  "reqs (AddKvRequest r s) = reqs s" "pending_queues (AddKvRequest r s) = pending_queues s"
  "task_mgr (AddKvRequest r s) = task_mgr s" "tasks (AddKvRequest r s) = tasks s" "links (AddKvRequest r s) = links s"
  "pending_reopens (AddKvRequest r s) = pending_reopens s"
  by (simp_all add: AddKvRequest_def)

lemma waits_cong:
  assumes "waits Q cs s" "pending_queues s' = pending_queues s" "task_mgr s' = task_mgr s" "set cs \<inter> (insert Dispatch (range TryStart)) \<subseteq> set cs'"
  shows "waits Q cs' s'"
  using assms unfolding waits_def by (metis IntI insertCI rangeI subsetD)

text \<open>Changing the queue of one partition, with a call for it.\<close>

lemma waits_push:
  assumes "waits Q cs s" "task_mgr s' = task_mgr s"
    "\<And>tbl'. tbl' \<noteq> tbl \<Longrightarrow> pending_queues s' tbl' = pending_queues s tbl' \<and> Q' tbl' = Q tbl'"
  shows "waits Q' (TryStart tbl # cs) s'"
  unfolding waits_def
proof (intro allI impI)
  fix tbl' q assume q: "pending_queues s' tbl' = Some q" "Q' tbl' \<noteq> []" "\<not> pq_running q"
  show "max_write_concurrency_limit (task_mgr s') \<le> num_active_write (task_mgr s') \<or> TryStart tbl' \<in> set (TryStart tbl # cs) \<or> Dispatch \<in> set (TryStart tbl # cs)"
    using q assms(2) assms(3) [of tbl'] waitsD [OF assms(1), of tbl' q] by (cases "tbl' = tbl") auto
qed

lemma set_req_weight:
  "oom_retry_remaining (f (reqs s r)) = oom_retry_remaining (reqs s r) \<Longrightarrow>
   reopen_retry_remaining (f (reqs s r)) = reopen_retry_remaining (reqs s r) \<Longrightarrow>
   weight p (reqs (set_req r f s) r') = weight p (reqs s r')"
  by (simp add: weight_def)

text \<open>The reopen request goes to the front of the queue of its partition.\<close>

lemma EnqueueForAutoReopen_first:
  assumes "pending_reopens s tbl = None" "rq_tbl (reqs s r) = tbl" "owned r = None"
  shows "EnqueueForAutoReopen r s =
    (let q = fst (try_emplace tbl s);
         s2 = snd (try_emplace tbl s)\<lparr>pending_reopens := (pending_reopens s)(tbl \<mapsto> \<lparr>inflight = True, waiters = [r]\<rparr>),
           reqs := (reqs (snd (try_emplace tbl s)))(ReopenReq tbl := KvRequest_new RT_Reopen tbl)\<rparr>
     in (put_queue tbl (PushFront (ReopenReq tbl) (q, links s2)) s2, [TryStart tbl]))"
  using assms by (cases s) (simp add: EnqueueForAutoReopen_def try_emplace_def Let_def split: option.split)

lemma retry_reopen_first:
  assumes c: "core loc Q (r # R) s" and st: "settled loc s" and n: "pending_reopens s (rq_tbl (reqs s r)) = None"
  shows "\<exists>s' loc' Q'. EnqueueForAutoReopen r s = (s', [TryStart (rq_tbl (reqs s r))]) \<and> core loc' Q' R s'
    \<and> keeps_stuck loc loc' \<and> settled loc' s' \<and> potential loc' s' < potential loc s \<and> task_mgr s' = task_mgr s
    \<and> (\<forall>tbl. tbl \<noteq> rq_tbl (reqs s r) \<longrightarrow> pending_queues s' tbl = pending_queues s tbl \<and> Q' tbl = Q tbl)"
proof -
  let ?tbl = "rq_tbl (reqs s r)"
  note out = retry_out [OF c]
  have ne: "r \<noteq> ReopenReq tbl" "ReopenReq tbl \<noteq> r" for tbl using out(2) by auto
  let ?s1 = "snd (try_emplace ?tbl s)"
  note e = emplace [OF out(1), where tbl = ?tbl]
  let ?loc1 = "loc(r := Waiting ?tbl, ReopenReq ?tbl := InHand)"
  let ?s2 = "?s1\<lparr>pending_reopens := (pending_reopens s)(?tbl \<mapsto> \<lparr>inflight = True, waiters = [r]\<rparr>),
    reqs := (reqs ?s1)(ReopenReq ?tbl := KvRequest_new RT_Reopen ?tbl)\<rparr>"
  have r1: "reqs ?s1 r = reqs s r" using out(2) e(9) by simp
  have g: "loc (ReopenReq ?tbl) = Nowhere"
  proof -
    have "gone (loc (ReopenReq ?tbl))" using c n by (auto simp: core_def inv_requests_def)
    then show ?thesis using settledD(2) [OF st] by (cases "loc (ReopenReq ?tbl)") auto
  qed
  have "core ((loc(r := InHand))(r := Waiting ?tbl, ReopenReq ?tbl := InHand)) Q R
      (?s1\<lparr>pending_reopens := (pending_reopens ?s1)(?tbl \<mapsto> \<lparr>inflight = True, waiters = [r]\<rparr>),
         reqs := (reqs ?s1)(ReopenReq ?tbl := KvRequest_new RT_Reopen ?tbl)\<rparr>)"
    using e(6) n g r1 ne by (intro wait_first_move [OF e(1) out(2)]) auto
  then have c2: "core ?loc1 Q R ?s2" by (simp add: e(6))
  have q: "pending_queues ?s2 ?tbl = Some (fst (try_emplace ?tbl s))" using e(2) by simp
  obtain q' nx' where pf: "PushFront (ReopenReq ?tbl) (fst (try_emplace ?tbl s), links ?s2) = (q', nx')"
    "core (?loc1(ReopenReq ?tbl := Queued ?tbl)) (Q(?tbl := ReopenReq ?tbl # Q ?tbl)) R (put_queue ?tbl (q', nx') ?s2)"
    using push_front_move [OF c2 _ _ _ q, of "ReopenReq ?tbl"] by (auto simp: KvRequest_new_def ReadOnly_def)
  let ?loc2 = "loc(r := Waiting ?tbl, ReopenReq ?tbl := Queued ?tbl)"
  let ?s3 = "put_queue ?tbl (q', nx') ?s2"
  have "potential ?loc2 ?s3 < potential loc s"
  proof -
    have "weight (loc r') (reqs ?s3 r') = weight (loc r') (reqs s r')" for r'
      using g emplace(7) [OF out(1), of r' ?tbl] by (cases "loc r' = Nowhere") (auto simp: weight_def)
    then have "potential (loc(r := Waiting ?tbl)) ?s3 + weight (loc r) (reqs s r) = potential loc s + weight (Waiting ?tbl) (reqs ?s3 r)"
      by (intro potential_move core_finite [OF c]) auto
    moreover have "finite {r'. (loc(r := Waiting ?tbl)) r' \<noteq> Nowhere}" using finite_move [OF core_finite [OF c]] .
    then have "potential ?loc2 ?s3 + weight ((loc(r := Waiting ?tbl)) (ReopenReq ?tbl)) (reqs ?s3 (ReopenReq ?tbl))
        = potential (loc(r := Waiting ?tbl)) ?s3 + weight (Queued ?tbl) (reqs ?s3 (ReopenReq ?tbl))"
      by (intro potential_move) auto
    ultimately show ?thesis
      using out(3) r1 ne g by (simp add: weight_def KvRequest_new_def)
  qed
  moreover have "settled ?loc2 ?s3" using st e(4) by (auto simp: settled_def)
  moreover have "keeps_stuck loc ?loc2" using out(3) g by (auto simp: keeps_stuck_def)
  moreover have "EnqueueForAutoReopen r s = (?s3, [TryStart ?tbl])"
    using EnqueueForAutoReopen_first [OF n refl out(2)] pf(1) by (simp add: Let_def)
  moreover have "core ?loc2 (Q(?tbl := ReopenReq ?tbl # Q ?tbl)) R ?s3" using pf(2) by (simp add: fun_upd_twist)
  ultimately show ?thesis
    using e(5) emplace(8) [OF out(1), of _ ?tbl]
    by (intro exI [of _ ?s3] exI [of _ ?loc2] exI [of _ "Q(?tbl := ReopenReq ?tbl # Q ?tbl)"]) simp
qed

end
