(* ===== verification/Shard_Runs.thy ===== *)
theory Shard_Runs
  imports Shard_Steps
begin

text \<open>
  Every step of a shard keeps the invariant and can be taken whenever its call, request or task exists,
  and the steps that bring no new work make the potential of the state fall.
\<close>

section \<open>Retrying a request\<close>

lemma retry_ok:
  assumes i: "shard_inv loc Q (Retry r oom reopen # cs) s" and rq: "retry_request r oom reopen s = (s', cs')"
  shows "\<exists>loc' Q'. shard_inv loc' Q' (cs' @ cs) s' \<and> keeps_stuck loc loc' \<and> falls loc (Retry r oom reopen # cs, s) loc' (cs' @ cs, s')"
proof -
  have c: "core loc Q (retried (Retry r oom reopen) @ retries cs) s" and w: "waits Q (Retry r oom reopen # cs) s" and st: "settled loc s"
    using i by (auto simp: shard_inv_def)
  have w': "waits Q cs s" by (rule waits_cong [OF w]) auto
  consider "oom" | "\<not> oom" "\<not> reopen" | "\<not> oom" "reopen" by blast
  then show ?thesis
  proof cases
    case 1
    then have c1: "core loc Q (r # retries cs) s" using c by simp
    note out = retry_out [OF c1]
    have s': "s' = AddKvRequest r (set_req r (\<lambda>q. q\<lparr>rq_err := NoError, rq_done := False\<rparr>) s)" "cs' = []"
      using rq 1 by (auto simp: retry_request_def)
    have "core ((loc(r := InHand))(r := Received)) Q (retries cs) s'"
      unfolding s' by (rule send_move [OF out(1,2)]) simp
    moreover have "waits Q cs s'" using w' by (rule waits_cong) (auto simp: s')
    moreover have "settled (loc(r := Received)) s'"
      using st by (intro settled_move [OF st]) (auto simp: s' settled_def)
    moreover have "potential (loc(r := Received)) s' < potential loc s"
      using out(3) by (intro potential_drop [OF c1]) (auto simp: s' weight_def)
    ultimately show ?thesis
      using out(3) s'(2) by (intro exI [of _ "loc(r := Received)"] exI [of _ Q]) (simp add: shard_inv_def keeps_stuck_move falls_def)
  next
    case 2
    then have "s' = s" "cs' = []" using rq by (auto simp: retry_request_def)
    then show ?thesis
      using 2 c w' st by (intro exI [of _ loc] exI [of _ Q]) (simp add: shard_inv_def keeps_stuck_def falls_def stack_size_def)
  next
    case 3
    then have c1: "core loc Q (r # retries cs) s" using c by simp
    note out = retry_out [OF c1]
    have e: "EnqueueForAutoReopen r s = (s', cs')" using rq 3 by (simp add: retry_request_def)
    show ?thesis
    proof (cases "pending_reopens s (rq_tbl (reqs s r))")
      case None
      obtain loc' Q' where "cs' = [TryStart (rq_tbl (reqs s r))]" "core loc' Q' (retries cs) s'" "keeps_stuck loc loc'"
        "settled loc' s'" "potential loc' s' < potential loc s" "task_mgr s' = task_mgr s"
        "\<And>tbl. tbl \<noteq> rq_tbl (reqs s r) \<Longrightarrow> pending_queues s' tbl = pending_queues s tbl \<and> Q' tbl = Q tbl"
        using retry_reopen_first [OF c1 st None] e by auto
      then show ?thesis
        using waits_push [OF w', of s' "rq_tbl (reqs s r)" Q']
        by (intro exI [of _ loc'] exI [of _ Q']) (simp add: shard_inv_def falls_def)
    next
      case (Some pr)
      let ?tbl = "rq_tbl (reqs s r)"
      have "inflight pr" using c Some by (auto simp: core_def inv_requests_def)
      then have s': "s' = s\<lparr>pending_reopens := (pending_reopens s)(?tbl \<mapsto> pr\<lparr>waiters := waiters pr @ [r]\<rparr>)\<rparr>" "cs' = []"
        using e Some by (auto simp: EnqueueForAutoReopen_def Let_def)
      have "core ((loc(r := InHand))(r := Waiting ?tbl)) Q (retries cs) s'"
        unfolding s' using wait_move [OF out(1,2) _ Some] by simp
      moreover have "waits Q cs s'" using w' by (rule waits_cong) (auto simp: s')
      moreover have "settled (loc(r := Waiting ?tbl)) s'"
        using st by (intro settled_move [OF st]) (auto simp: s' settled_def)
      moreover have "potential (loc(r := Waiting ?tbl)) s' < potential loc s"
        using out(3) by (intro potential_drop [OF c1]) (auto simp: s' weight_def)
      ultimately show ?thesis
        using out(3) s'(2) by (intro exI [of _ "loc(r := Waiting ?tbl)"] exI [of _ Q]) (simp add: shard_inv_def keeps_stuck_move falls_def)
    qed
  qed
qed

section \<open>Receiving a request\<close>

definition read_task_type :: "RequestType \<Rightarrow> TaskType" where
  "read_task_type ty =
    (case ty of RT_Scan \<Rightarrow> TT_Scan | RT_ListObject \<Rightarrow> TT_ListObject | RT_ListStandbyPartition \<Rightarrow> TT_ListStandbyPartition
     | _ \<Rightarrow> TT_Read)"

lemma read_task_type_simps [simp]:
  "\<not> counts_as_write (read_task_type ty)" "task_ReadOnly (read_task_type ty)"
  "read_task_type ty \<noteq> TT_EvictFile" "read_task_type ty \<noteq> TT_Prewarm"
  by (cases ty; simp add: read_task_type_def counts_as_write_def task_ReadOnly_def)+

lemma ProcessReq_read:
  "ReadOnly (rq_type (reqs s r)) \<Longrightarrow> ProcessReq r s = start_other (read_task_type (rq_type (reqs s r))) r s"
  by (cases "rq_type (reqs s r)") (simp_all add: ReadOnly_def ProcessReq_def read_task_type_def)

lemma receive_ok:
  assumes i: "shard_inv loc Q [] s" and rs: "requests s = xs @ r # ys"
  shows "\<exists>s' cs loc' Q'. OnReceivedReq r (s\<lparr>requests := xs @ ys\<rparr>) = Some (s', cs) \<and> shard_inv loc' Q' cs s'
    \<and> keeps_stuck loc loc' \<and> falls loc ([], s) loc' (cs, s')"
proof -
  have c: "core loc Q [] s" and w: "waits Q [] s" and st: "settled loc s" using i by (auto simp: shard_inv_def)
  let ?sr = "s\<lparr>requests := xs @ ys\<rparr>"
  note tk = take_received [OF c rs]
  have u: "owned r = None" using c tk(2) received_user by (auto simp: core_def)
  show ?thesis
  proof (cases "ReadOnly (rq_type (reqs s r))")
    case True
    let ?ty = "read_task_type (rq_type (reqs s r))"
    have p: "inv_pools (loc(r := InHand)) ?sr" using tk(1) by (simp add: core_def)
    obtain t tm where g: "GetOtherTask ?ty (task_mgr s) = Some (t, tm)"
      using GetOtherTask_some [OF p, of ?ty] by auto
    have t: "takes ?ty t (task_mgr s) tm" using GetOtherTask_takes [OF _ _ _ g] by simp
    let ?s = "StartTask (?ty, t) (rq_tbl (reqs s r)) r (?sr\<lparr>task_mgr := tm\<rparr>)"
    have "core ((loc(r := InHand))(r := Running (?ty, t))) Q [] ?s"
      using start_move [OF tk(1), of r ?ty t tm] True t by simp
    moreover have "waits Q [] ?s"
      unfolding waits_def
    proof (intro allI impI)
      fix tbl q assume "pending_queues ?s tbl = Some q" "Q tbl \<noteq> []" "\<not> pq_running q"
      then show "max_write_concurrency_limit (task_mgr ?s) \<le> num_active_write (task_mgr ?s) \<or> TryStart tbl \<in> set [] \<or> Dispatch \<in> set []"
        using waitsD [OF w, of tbl q] takes_counts [OF t] by simp
    qed
    moreover have "settled (loc(r := Running (?ty, t))) ?s"
      using st by (intro settled_move [OF st]) (auto simp: settled_def split: if_splits)
    moreover have "potential (loc(r := Running (?ty, t))) ?s < potential loc s"
      using tk(2) by (intro potential_drop [OF c]) (auto simp: weight_def)
    moreover have "OnReceivedReq r ?sr = Some (?s, [])"
      using True g ProcessReq_read [of ?sr r] by (simp add: OnReceivedReq_def start_other_def)
    ultimately show ?thesis
      using tk(2) by (intro exI [of _ ?s] exI [of _ "[]"] exI [of _ "loc(r := Running (?ty, t))"] exI [of _ Q])
        (simp add: shard_inv_def keeps_stuck_move falls_def)
  next
    case False
    let ?tbl = "rq_tbl (reqs s r)"
    note e = emplace [OF tk(1), where tbl = ?tbl]
    let ?s1 = "snd (try_emplace ?tbl ?sr)" and ?q = "fst (try_emplace ?tbl ?sr)"
    have r1: "reqs ?s1 r = reqs s r" using e(9) [OF u] by simp
    obtain q' nx' where pb: "PushBack r (?q, links ?s1) = Some (q', nx')"
      "core ((loc(r := InHand))(r := Queued ?tbl)) (Q(?tbl := Q ?tbl @ [r])) [] (put_queue ?tbl (q', nx') ?s1)"
      using push_back_move [OF e(1) _ _ _ e(2), of r] False r1 by auto
    let ?s = "put_queue ?tbl (q', nx') ?s1"
    have "waits (Q(?tbl := Q ?tbl @ [r])) [TryStart ?tbl] ?s"
      using e(5,8) by (intro waits_push [OF w]) auto
    moreover have "settled (loc(r := Queued ?tbl)) ?s"
      using st e(4) by (intro settled_move [OF st]) (auto simp: settled_def)
    moreover have "potential (loc(r := Queued ?tbl)) ?s < potential loc s"
    proof (rule potential_drop [OF c])
      show "weight (Queued ?tbl) (reqs ?s r) < weight (loc r) (reqs s r)" using tk(2) r1 by (simp add: weight_def)
      show "weight (loc r') (reqs ?s r') = weight (loc r') (reqs s r')" if "r' \<noteq> r" for r'
        using emplace(7) [OF tk(1), of r' ?tbl] that by (cases "loc r' = Nowhere") (auto simp: weight_def)
    qed
    moreover have "OnReceivedReq r ?sr = Some (?s, [TryStart ?tbl])"
      using False pb(1) by (simp add: OnReceivedReq_def case_prod_beta Let_def)
    ultimately show ?thesis
      using tk(2) pb(2)
      by (intro exI [of _ ?s] exI [of _ "[TryStart ?tbl]"] exI [of _ "loc(r := Queued ?tbl)"] exI [of _ "Q(?tbl := Q ?tbl @ [r])"])
        (simp add: shard_inv_def keeps_stuck_move falls_def)
  qed
qed

section \<open>The end of a task\<close>

lemma resume_waiter_simps [simp]:
  "pending_queues (resume_waiter running err r s) = pending_queues s" "task_mgr (resume_waiter running err r s) = task_mgr s"
  "tasks (resume_waiter running err r s) = tasks s"
  "oom_retry_remaining (reqs (resume_waiter running err r s) r') = oom_retry_remaining (reqs s r')"
  "reopen_retry_remaining (reqs (resume_waiter running err r s) r') = reopen_retry_remaining (reqs s r')"
  by (auto simp: resume_waiter_def SendRequest_def set_done_def)

lemma resume_waiters_simps [simp]:
  "pending_queues (fold (resume_waiter running err) ws s) = pending_queues s"
  "task_mgr (fold (resume_waiter running err) ws s) = task_mgr s" "tasks (fold (resume_waiter running err) ws s) = tasks s"
  "oom_retry_remaining (reqs (fold (resume_waiter running err) ws s) r') = oom_retry_remaining (reqs s r')"
  "reopen_retry_remaining (reqs (fold (resume_waiter running err) ws s) r') = reopen_retry_remaining (reqs s r')"
  by (induction ws arbitrary: s) simp_all

lemma SetDone_simps [simp]:
  "pending_queues (SetDone running r err s) = pending_queues s" "task_mgr (SetDone running r err s) = task_mgr s"
  "tasks (SetDone running r err s) = tasks s"
  "oom_retry_remaining (reqs (SetDone running r err s) r') = oom_retry_remaining (reqs s r')"
  "reopen_retry_remaining (reqs (SetDone running r err s) r') = reopen_retry_remaining (reqs s r')"
  by (simp_all add: SetDone_def set_done_def reopen_callback_def Let_def split: req_ref.split option.split)

lemma potential_less:
  assumes "finite {r. loc r \<noteq> Nowhere}" "\<And>r. weight (loc' r) (reqs s' r) \<le> weight (loc r) (reqs s r)"
    "\<And>r. loc r = Nowhere \<Longrightarrow> loc' r = Nowhere" "weight (loc' r) (reqs s' r) < weight (loc r) (reqs s r)"
  shows "potential loc' s' < potential loc s"
proof -
  let ?A = "{r. loc r \<noteq> Nowhere}"
  have r: "r \<in> ?A" using assms(4) by (auto simp: weight_def)
  have "potential loc' s' = (\<Sum>r \<in> ?A. weight (loc' r) (reqs s' r))"
    using assms(3) by (intro potential_over [OF assms(1)]) auto
  also have "\<dots> < (\<Sum>r \<in> ?A. weight (loc r) (reqs s r))"
    using assms(1,2,4) r by (intro sum_strict_mono_ex1) auto
  finally show ?thesis by (simp add: potential_def)
qed

text \<open>What is common to the ways a task ends.\<close>

lemma waits_free:
  assumes "waits Q cs s" "pending_queues s1 = pending_queues s" "task_mgr s1 = task_mgr s"
    "\<And>tbl q. pending_queues s2 tbl = Some q \<Longrightarrow> task_ReadOnly ty \<Longrightarrow> pending_queues s1 tbl = Some q"
    "task_ReadOnly ty \<Longrightarrow> max_write_concurrency_limit (task_mgr s2) = max_write_concurrency_limit (task_mgr s1)
       \<and> num_active_write (task_mgr s2) = num_active_write (task_mgr s1)"
  shows "waits Q (((if task_ReadOnly ty then [] else [Dispatch]) @ [Retry r oom reopen]) @ cs) s2"
proof (cases "task_ReadOnly ty")
  case False
  then show ?thesis by (simp add: waits_def)
next
  case True
  show ?thesis
    unfolding waits_def
  proof (intro allI impI)
    fix tbl q assume "pending_queues s2 tbl = Some q" "Q tbl \<noteq> []" "\<not> pq_running q"
    then show "max_write_concurrency_limit (task_mgr s2) \<le> num_active_write (task_mgr s2)
      \<or> TryStart tbl \<in> set (((if task_ReadOnly ty then [] else [Dispatch]) @ [Retry r oom reopen]) @ cs)
      \<or> Dispatch \<in> set (((if task_ReadOnly ty then [] else [Dispatch]) @ [Retry r oom reopen]) @ cs)"
      using True assms(2-5) waitsD [OF assms(1), of tbl q] by auto
  qed
qed

lemma running_task:
  assumes "shard_inv loc Q cs s" "tasks s t = Some tk"
  shows "loc (tk_req tk) = Running t"
proof -
  have "core loc Q (retries cs) s" "settled loc s" using assms(1) by (auto simp: shard_inv_def)
  then show ?thesis
    using inv_places_task [of loc Q "retries cs" s t tk] assms(2) settledD(2) [of loc s "tk_req tk" t] by (auto simp: core_def)
qed

lemma finish_flagged:
  assumes i: "shard_inv loc Q cs s" and t: "tasks s t = Some tk" and u: "owned (tk_req tk) = None"
    and tk': "tk_req tk' = tk_req tk" "tk_tbl tk' = tk_tbl tk" "needs_oom_retry tk' \<or> needs_auto_reopen tk'"
    and f: "\<And>q. rq_type (f q) = rq_type q" "\<And>q. rq_tbl (f q) = rq_tbl q" "\<And>q. rq_done (f q) = rq_done q"
      "\<And>q. rq_batch_empty (f q) = rq_batch_empty q"
    and w: "weight Retrying (f (reqs s (tk_req tk))) < weight (Running t) (reqs s (tk_req tk))"
    and s1: "s1 = set_req (tk_req tk) f s\<lparr>tasks := (tasks s)(t \<mapsto> tk')\<rparr>"
  shows "\<exists>s2 cs' loc'. OnTaskFinished t s1 = Some (s2, cs') \<and> shard_inv loc' Q (cs' @ cs) s2
    \<and> keeps_stuck loc loc' \<and> falls loc (cs, s) loc' (cs' @ cs, s2)"
proof -
  let ?r = "tk_req tk"
  have c: "core loc Q (retries cs) s" and wt: "waits Q cs s" and st: "settled loc s" using i by (auto simp: shard_inv_def)
  have l: "loc ?r = Running t" by (rule running_task [OF i t])
  have c1: "core loc Q (retries cs) s1" unfolding s1 by (rule flag_move [OF c t u tk'(1,2) f])
  have t1: "tasks s1 t = Some tk'" using s1 by simp
  obtain s2 where s2: "OnTaskFinished t s1 =
      Some (s2, (if task_ReadOnly (fst t) then [] else [Dispatch]) @ [Retry ?r (needs_oom_retry tk') (needs_auto_reopen tk')])"
    "core (loc(?r := Retrying)) Q (?r # retries cs) s2" "reqs s2 = reqs s1" "tasks s2 = (tasks s1)(t := None)"
    "\<And>tbl q. pending_queues s2 tbl = Some q \<Longrightarrow> task_ReadOnly (fst t) \<Longrightarrow> pending_queues s1 tbl = Some q"
    "task_ReadOnly (fst t) \<Longrightarrow> max_write_concurrency_limit (task_mgr s2) = max_write_concurrency_limit (task_mgr s1)
       \<and> num_active_write (task_mgr s2) = num_active_write (task_mgr s1)"
    using free_move [OF c1 t1 settledD(1) [OF st]] u l tk'(1) by (auto simp: freed_def)
  let ?cs = "(if task_ReadOnly (fst t) then [] else [Dispatch]) @ [Retry ?r (needs_oom_retry tk') (needs_auto_reopen tk')]"
  have "retries (?cs @ cs) = ?r # retries cs" using tk'(3) by auto
  moreover have "waits Q (?cs @ cs) s2"
    by (rule waits_free [OF wt _ _ s2(5,6)]) (auto simp: s1)
  moreover have "settled (loc(?r := Retrying)) s2"
    using st s2(4) by (intro settled_move [OF st]) (auto simp: settled_def s1 split: if_splits)
  moreover have "potential (loc(?r := Retrying)) s2 < potential loc s"
    using w l by (intro potential_drop [OF c]) (auto simp: s2(3) s1)
  ultimately show ?thesis
    using s2(1,2) l tk'(3) by (intro exI [of _ s2] exI [of _ ?cs] exI [of _ "loc(?r := Retrying)"])
      (auto simp: shard_inv_def keeps_stuck_move falls_def)
qed

text \<open>The places after a request is done and its task is freed.\<close>

lemma done_places_cases:
  assumes "loc r = Running t"
  shows "done_places running err r t loc r = Ending t"
    "r' \<noteq> r \<Longrightarrow> done_places running err r t loc r' = loc r'
      \<or> (\<exists>tbl. loc r' = Waiting tbl) \<and> (done_places running err r t loc r' = Received \<or> done_places running err r t loc r' = Nowhere)"
proof -
  have r: "loc r \<noteq> Waiting tbl" for tbl using assms(1) by simp
  show "done_places running err r t loc r = Ending t"
    using r by (cases r) (auto simp: done_places_def resumed_def released_def)
  show "done_places running err r t loc r' = loc r'
      \<or> (\<exists>tbl. loc r' = Waiting tbl) \<and> (done_places running err r t loc r' = Received \<or> done_places running err r t loc r' = Nowhere)"
    if "r' \<noteq> r"
    using that by (cases r) (auto simp: done_places_def resumed_def released_def)
qed

lemma finish_done:
  assumes i: "shard_inv loc Q cs s" and t: "tasks s t = Some tk"
  shows "\<exists>s2 cs' loc'. OnTaskFinished t (SetDone running (tk_req tk) err s) = Some (s2, cs') \<and> shard_inv loc' Q (cs' @ cs) s2
    \<and> keeps_stuck loc loc' \<and> falls loc (cs, s) loc' (cs' @ cs, s2)"
proof -
  let ?r = "tk_req tk" and ?s1 = "SetDone running (tk_req tk) err s"
  have c: "core loc Q (retries cs) s" and wt: "waits Q cs s" and st: "settled loc s" using i by (auto simp: shard_inv_def)
  have l: "loc ?r = Running t" by (rule running_task [OF i t])
  let ?loc1 = "done_places running err ?r t loc"
  note dp = done_places_cases [where loc = loc, OF l, where running = running and err = err]
  have c1: "core ?loc1 Q (retries cs) ?s1" by (rule SetDone_move [OF c l])
  have t1: "tasks ?s1 t = Some tk" using t by simp
  have h: "?loc1 r \<noteq> InHand \<and> ?loc1 r \<noteq> Popped" for r
    using dp(1) dp(2) [where r' = r] settledD(1) [OF st, of r] by (cases "r = ?r") auto
  have e: "?loc1 ?r = Ending t" by (rule dp(1))
  have fl: "\<not> needs_oom_retry tk" "\<not> needs_auto_reopen tk" using st t by (auto simp: settled_def)
  obtain s2 where s2: "OnTaskFinished t ?s1 =
      Some (s2, (if task_ReadOnly (fst t) then [] else [Dispatch]) @ [Retry ?r False False])"
    "core (?loc1(?r := Nowhere)) Q (retries cs) s2" "reqs s2 = reqs ?s1" "tasks s2 = (tasks s)(t := None)"
    "\<And>tbl q. pending_queues s2 tbl = Some q \<Longrightarrow> task_ReadOnly (fst t) \<Longrightarrow> pending_queues ?s1 tbl = Some q"
    "task_ReadOnly (fst t) \<Longrightarrow> max_write_concurrency_limit (task_mgr s2) = max_write_concurrency_limit (task_mgr ?s1)
       \<and> num_active_write (task_mgr s2) = num_active_write (task_mgr ?s1)"
    using free_move [OF c1 t1 h] e fl by (auto simp: freed_def)
  let ?cs = "(if task_ReadOnly (fst t) then [] else [Dispatch]) @ [Retry ?r False False]"
  let ?loc = "?loc1(?r := Nowhere)"
  have "retries (?cs @ cs) = retries cs" by auto
  moreover have "waits Q (?cs @ cs) s2"
    by (rule waits_free [OF wt _ _ s2(5,6)]) auto
  moreover have "settled ?loc s2"
    unfolding settled_def
  proof (intro conjI allI impI)
    fix r show "?loc r \<noteq> Popped" "?loc r \<noteq> InHand" using h by auto
  next
    fix r t' show "?loc r \<noteq> Ending t'"
      using dp(2) [where r' = r] settledD(2) [OF st, of r t'] by (cases "r = ?r") auto
  next
    fix t' tk' assume "tasks s2 t' = Some tk'"
    then show "\<not> needs_oom_retry tk'" "\<not> needs_auto_reopen tk'"
      using st s2(4) by (auto simp: settled_def split: if_splits)
  qed
  moreover have "potential ?loc s2 < potential loc s"
  proof (rule potential_less [OF core_finite [OF c]])
    show "weight (?loc r) (reqs s2 r) \<le> weight (loc r) (reqs s r)" for r
      using dp(2) [where r' = r] by (cases "r = ?r") (auto simp: weight_def s2(3))
    show "?loc r = Nowhere" if "loc r = Nowhere" for r
      using dp(2) [where r' = r] that by (cases "r = ?r") auto
    show "weight (?loc ?r) (reqs s2 ?r) < weight (loc ?r) (reqs s ?r)" using l by (simp add: weight_def)
  qed
  moreover have "keeps_stuck loc ?loc"
    unfolding keeps_stuck_def
  proof (intro allI impI)
    fix r assume "is_stuck (loc r)"
    then show "?loc r = loc r" using dp(2) [where r' = r] l by (cases "r = ?r") auto
  qed
  ultimately show ?thesis
    using s2(1,2) by (intro exI [of _ s2] exI [of _ ?cs] exI [of _ ?loc]) (simp add: shard_inv_def falls_def)
qed

lemma finish_ok:
  assumes i: "shard_inv loc Q cs s" and t: "tasks s t = Some tk"
  shows "\<exists>s1 s2 cs' loc'. FinishTask mode running t err s = Some s1 \<and> OnTaskFinished t s1 = Some (s2, cs')
    \<and> shard_inv loc' Q (cs' @ cs) s2 \<and> keeps_stuck loc loc' \<and> falls loc (cs, s) loc' (cs' @ cs, s2)"
proof -
  let ?r = "tk_req tk" and ?q = "reqs s (tk_req tk)"
  have c: "core loc Q (retries cs) s" using i by (auto simp: shard_inv_def)
  have l: "loc ?r = Running t" by (rule running_task [OF i t])
  have ok: "req_ok ?r (Running t) ?q" using core_req_ok [OF c, of ?r] l by simp
  have own: "owned ?r = None" if "oom_retry_remaining ?q > 0 \<or> reopen_retry_remaining ?q > 0"
  proof -
    have "owned_ok ?r ?q" using ok by (simp add: req_ok_def)
    then show ?thesis using that by (cases "owned ?r") (auto simp: owned_ok_def)
  qed
  define oom where "oom \<longleftrightarrow> err = OutOfMem \<and> oom_retry_remaining ?q > 0"
  define reopen where "reopen \<longleftrightarrow> \<not> oom \<and> err = ResourceMissing \<and> AutoReopenRetry (rq_type ?q) \<and> reopen_retry_remaining ?q > 0
    \<and> (mode = Cloud \<or> mode = StandbyReplica)"
  consider "oom" | "\<not> oom" "reopen" | "\<not> oom" "\<not> reopen" by blast
  then show ?thesis
  proof cases
    case 1
    then have u: "owned ?r = None" using own by (simp add: oom_def)
    let ?s1 = "set_req ?r (\<lambda>q. q\<lparr>oom_retry_remaining := oom_retry_remaining q - 1\<rparr>) s\<lparr>tasks := (tasks s)(t \<mapsto> tk\<lparr>needs_oom_retry := True\<rparr>)\<rparr>"
    have "FinishTask mode running t err s = Some ?s1" using 1 t by (simp add: FinishTask_def oom_def)
    moreover have "weight Retrying (?q\<lparr>oom_retry_remaining := oom_retry_remaining ?q - 1\<rparr>) < weight (Running t) ?q"
      using 1 by (auto simp: oom_def weight_def)
    ultimately show ?thesis
      using finish_flagged [OF i t u, of "tk\<lparr>needs_oom_retry := True\<rparr>" "\<lambda>q. q\<lparr>oom_retry_remaining := oom_retry_remaining q - 1\<rparr>" ?s1]
      by simp
  next
    case 2
    then have u: "owned ?r = None" using own by (simp add: reopen_def)
    have v: "TableIdent_IsValid (rq_tbl ?q)" using ok u by (simp add: req_ok_def)
    let ?s1 = "set_req ?r (\<lambda>q. q\<lparr>reopen_retry_remaining := reopen_retry_remaining q - 1\<rparr>) s\<lparr>tasks := (tasks s)(t \<mapsto> tk\<lparr>needs_auto_reopen := True\<rparr>)\<rparr>"
    have "FinishTask mode running t err s = Some ?s1" using 2 v t by (simp add: FinishTask_def reopen_def oom_def)
    moreover have "weight Retrying (?q\<lparr>reopen_retry_remaining := reopen_retry_remaining ?q - 1\<rparr>) < weight (Running t) ?q"
      using 2 by (auto simp: reopen_def weight_def)
    ultimately show ?thesis
      using finish_flagged [OF i t u, of "tk\<lparr>needs_auto_reopen := True\<rparr>" "\<lambda>q. q\<lparr>reopen_retry_remaining := reopen_retry_remaining q - 1\<rparr>" ?s1]
      by simp
  next
    case 3
    then have "FinishTask mode running t err s = Some (SetDone running ?r err s)"
      using t by (auto simp: FinishTask_def reopen_def oom_def Let_def)
    then show ?thesis using finish_done [OF i t, of running err] by auto
  qed
qed

section \<open>New work\<close>

lemma send_ok:
  assumes i: "shard_inv loc Q cs s" and d: "rq_done (reqs s (User n))"
    and q: "\<not> handled_by_store (rq_type q)" "TableIdent_IsValid (rq_tbl q)"
    and s': "SendRequest True (User n) (set_req (User n) (\<lambda>_. q) s) = (True, s')"
  shows "\<exists>loc'. shard_inv loc' Q cs s' \<and> keeps_stuck loc loc'"
proof -
  have c: "core loc Q (retries cs) s" and w: "waits Q cs s" and st: "settled loc s" using i by (auto simp: shard_inv_def)
  let ?q = "q\<lparr>rq_err := NoError, rq_done := False\<rparr>"
  have "gone (loc (User n))" using core_req_ok [OF c, of "User n"] d by (simp add: req_ok_def)
  then have l: "loc (User n) = Nowhere" using settledD(2) [OF st] by (cases "loc (User n)") auto
  have s'': "s' = AddKvRequest (User n) (set_req (User n) (\<lambda>_. ?q) s)"
    using s' by (auto simp: SendRequest_def set_req_def)
  have "core (loc(User n := Received)) Q (retries cs) s'"
    unfolding s'' using q by (intro first_send_move [OF c _ l]) auto
  moreover have "waits Q cs s'" using w by (rule waits_cong) (auto simp: s'')
  moreover have "settled (loc(User n := Received)) s'"
    using st by (intro settled_move [OF st]) (auto simp: s'' settled_def)
  ultimately show ?thesis
    using l by (intro exI [of _ "loc(User n := Received)"]) (simp add: shard_inv_def keeps_stuck_move)
qed

lemma internal_ok:
  assumes i: "shard_inv loc Q cs s" and t: "tasks s t = Some tk" "\<not> task_ReadOnly (fst t)"
    and r: "r \<in> internal_of (tk_tbl tk)"
  shows "\<exists>s' loc' Q'. request_internal r (tk_tbl tk) s = Some s' \<and> shard_inv loc' Q' cs s' \<and> keeps_stuck loc loc'"
proof -
  let ?tbl = "tk_tbl tk"
  have c: "core loc Q (retries cs) s" and w: "waits Q cs s" and st: "settled loc s" using i by (auto simp: shard_inv_def)
  have l: "loc (tk_req tk) = Running t" by (rule running_task [OF i t(1)])
  have tb: "rq_tbl (reqs s (tk_req tk)) = ?tbl" using c t(1) by (auto simp: core_def inv_writers_def)
  then have "busy_with loc s ?tbl (tk_req tk)" using l t(2) by (simp add: busy_with_def)
  then have "is_running s ?tbl" using c by (auto simp: core_def inv_writers_def)
  then obtain q where q: "pending_queues s ?tbl = Some q" "pq_running q" by (auto simp: is_running_def)
  show ?thesis
  proof (cases "rq_done (reqs s r)")
    case False
    then show ?thesis
      using q i by (intro exI [of _ s] exI [of _ loc] exI [of _ Q]) (simp add: request_internal_def HasPending_def keeps_stuck_def)
  next
    case True
    obtain ty where own: "owned r = Some (ty, ?tbl)" using internal_owned [OF r] by blast
    moreover have "r \<notin> range ReopenReq" using r by auto
    ultimately have "gone (loc r)" using core_req_ok [OF c, of r] True by (auto simp: req_ok_def)
    then have lr: "loc r = Nowhere" using settledD(2) [OF st] by (cases "loc r") auto
    let ?s1 = "set_req r (\<lambda>q. q\<lparr>rq_tbl := ?tbl, rq_done := False\<rparr>) s"
    note im = internal_move [OF c r lr, unfolded q(1), simplified]
    have q1: "pending_queues ?s1 ?tbl = Some q" using q(1) by simp
    obtain q' nx' where pb: "PushBack r (q, links ?s1) = Some (q', nx')" "pq_running q' = pq_running q"
      "core ((loc(r := InHand))(r := Queued ?tbl)) (Q(?tbl := Q ?tbl @ [r])) (retries cs) (put_queue ?tbl (q', nx') ?s1)"
      using push_back_move [OF im(1) _ _ _ q1, of r] im(2) by auto
    let ?s = "put_queue ?tbl (q', nx') ?s1"
    have "request_internal r ?tbl s = Some ?s"
      using True q(1) pb(1) by (simp add: request_internal_def HasPending_def AddPending_def)
    moreover have "waits (Q(?tbl := Q ?tbl @ [r])) cs ?s"
      unfolding waits_def
    proof (intro allI impI)
      fix tbl q2 assume "pending_queues ?s tbl = Some q2" "(Q(?tbl := Q ?tbl @ [r])) tbl \<noteq> []" "\<not> pq_running q2"
      then show "max_write_concurrency_limit (task_mgr ?s) \<le> num_active_write (task_mgr ?s) \<or> TryStart tbl \<in> set cs \<or> Dispatch \<in> set cs"
        using waitsD [OF w, of tbl q2] pb(2) q(2) by (auto split: if_splits)
    qed
    moreover have "settled (loc(r := Queued ?tbl)) ?s"
      using st by (intro settled_move [OF st]) (auto simp: settled_def)
    ultimately show ?thesis
      using pb(3) lr
      by (intro exI [of _ ?s] exI [of _ "loc(r := Queued ?tbl)"] exI [of _ "Q(?tbl := Q ?tbl @ [r])"])
        (simp add: shard_inv_def keeps_stuck_move)
  qed
qed

section \<open>Runs\<close>

lemma call_step_inv:
  assumes "call_step c c'" "shard_inv loc Q (fst c) (snd c)"
  shows "\<exists>loc' Q'. shard_inv loc' Q' (fst c') (snd c') \<and> keeps_stuck loc loc' \<and> falls loc c loc' c'"
  using assms
proof (induction rule: call_step.induct)
  case (try_start tbl s s' cs)
  then show ?case using try_start_ok [of loc Q tbl cs s] by auto
next
  case (dispatch ts s cs)
  then show ?case
    using dispatch_ok [of loc Q cs s ts] by (intro exI [of _ loc] exI [of _ Q]) (simp add: keeps_stuck_def)
next
  case (retry r oom reopen s s' cs' cs)
  then show ?case using retry_ok [of loc Q r oom reopen cs s s' cs'] by auto
qed

lemma drain_step_inv:
  assumes "drain_step mode c c'" "shard_inv loc Q (fst c) (snd c)"
  shows "\<exists>loc' Q'. shard_inv loc' Q' (fst c') (snd c') \<and> keeps_stuck loc loc' \<and> falls loc c loc' c'"
  using assms
proof (induction rule: drain_step.induct)
  case (call c c')
  then show ?case by (intro call_step_inv)
next
  case (receive s xs r ys s' cs)
  then show ?case using receive_ok [of loc Q s xs r ys] by auto
next
  case (finish running t err s s1 s2 cs' cs)
  then obtain tk where "tasks s t = Some tk" by (cases "tasks s t") (auto simp: FinishTask_def)
  then show ?case using finish_ok [of loc Q cs s t tk mode running err] finish by auto
qed

lemma shard_step_inv:
  assumes "shard_step mode c c'" "shard_inv loc Q (fst c) (snd c)"
  shows "\<exists>loc' Q'. shard_inv loc' Q' (fst c') (snd c') \<and> keeps_stuck loc loc'"
  using assms
proof (induction rule: shard_step.induct)
  case (drain c c')
  then show ?case using drain_step_inv by blast
next
  case (send s n q s' cs)
  then show ?case using send_ok [of loc Q cs s n q s'] by auto
next
  case (internal s t tk r s' cs)
  then show ?case using internal_ok [of loc Q cs s t tk r] by (auto simp: internal_of_def)
qed

lemma shard_steps_inv:
  assumes "(shard_step mode)\<^sup>*\<^sup>* c c'" "shard_inv loc Q (fst c) (snd c)"
  shows "\<exists>loc' Q'. shard_inv loc' Q' (fst c') (snd c') \<and> keeps_stuck loc loc'"
  using assms
proof (induction rule: rtranclp_induct)
  case base
  then show ?case by (auto simp: keeps_stuck_def)
next
  case (step y z)
  then obtain loc1 Q1 where "shard_inv loc1 Q1 (fst y) (snd y)" "keeps_stuck loc loc1" by blast
  then show ?case using shard_step_inv [OF step.hyps(2)] unfolding keeps_stuck_def by metis
qed

lemma initial_inv:
  assumes "\<And>n. rq_done (rq (User n))"
  shows "shard_inv (\<lambda>_. Nowhere) (\<lambda>_. []) [] (Shard_new limit rq)"
proof -
  have "pool_ok (if 0 < limit then limit else unlimited) ty (tm_pool (TaskManager_new limit) ty) {} 0" for ty
    by (cases ty) (auto simp: pool_ok_def TaskManager_new_def TaskPool_new_def counts_as_write_def)
  moreover have "0 < unlimited" by (simp add: unlimited_def)
  ultimately have "inv_pools (\<lambda>_. Nowhere) (Shard_new limit rq)"
    by (auto simp: inv_pools_def Shard_new_def live_tasks_def stuck_def TaskManager_new_def)
  moreover have "req_ok r Nowhere (rq r)" for r using assms by (auto simp: req_ok_def owned_None)
  ultimately show ?thesis
    by (auto simp: shard_inv_def core_def inv_queues_def inv_places_def inv_requests_def inv_writers_def
        busy_with_def is_running_def Shard_new_def waiting_def waits_def settled_def)
qed

end
