(* ===== verification/Shard_Props.thy ===== *)
theory Shard_Props
  imports Shard_Runs
begin

text \<open>
  The properties of the scheduling of requests: the writes of a partition run one at a time and in the
  order of its queue, every request is eventually done, and the exception to this, an empty batch.
\<close>

definition reachable :: "StoreMode \<Rightarrow> nat \<Rightarrow> (req_ref \<Rightarrow> KvRequest) \<Rightarrow> call list \<times> Shard \<Rightarrow> bool" where
  "reachable mode limit rq c = ((\<forall>n. rq_done (rq (User n))) \<and> (shard_step mode)\<^sup>*\<^sup>* ([], Shard_new limit rq) c)"

definition write_tasks :: "Shard \<Rightarrow> TableIdent \<Rightarrow> task_ref set" where
  "write_tasks s tbl = {t. \<exists>tk. tasks s t = Some tk \<and> tk_tbl tk = tbl \<and> \<not> task_ReadOnly (fst t)}"

lemma reachable_inv:
  assumes "reachable mode limit rq c"
  shows "\<exists>loc Q. shard_inv loc Q (fst c) (snd c)"
proof -
  have "shard_inv (\<lambda>_. Nowhere) (\<lambda>_. []) [] (Shard_new limit rq)"
    using assms by (intro initial_inv) (simp add: reachable_def)
  then show ?thesis
    using shard_steps_inv [of mode "([], Shard_new limit rq)" c "\<lambda>_. Nowhere" "\<lambda>_. []"] assms
    by (auto simp: reachable_def)
qed

lemma write_task_busy:
  assumes "shard_inv loc Q cs s" "t \<in> write_tasks s tbl"
  shows "\<exists>tk. tasks s t = Some tk \<and> loc (tk_req tk) = Running t \<and> busy_with loc s tbl (tk_req tk)"
proof -
  obtain tk where t: "tasks s t = Some tk" "tk_tbl tk = tbl" "\<not> task_ReadOnly (fst t)"
    using assms(2) by (auto simp: write_tasks_def)
  have "inv_writers loc s" using assms(1) by (simp add: shard_inv_def core_def)
  then have "rq_tbl (reqs s (tk_req tk)) = tbl" using t by (auto simp: inv_writers_def)
  then show ?thesis using t running_task [OF assms(1) t(1)] by (auto simp: busy_with_def)
qed

lemma write_tasks_unique:
  assumes "shard_inv loc Q cs s" "t1 \<in> write_tasks s tbl" "t2 \<in> write_tasks s tbl"
  shows "t1 = t2"
proof -
  obtain tk1 tk2 :: KvTask where b: "loc (tk_req tk1) = Running t1" "busy_with loc s tbl (tk_req tk1)"
    "loc (tk_req tk2) = Running t2" "busy_with loc s tbl (tk_req tk2)"
    using write_task_busy [OF assms(1,2)] write_task_busy [OF assms(1,3)] by metis
  have "inv_writers loc s" using assms(1) by (simp add: shard_inv_def core_def)
  then have "tk_req tk1 = tk_req tk2" using b by (auto simp: inv_writers_def)
  then show ?thesis using b by simp
qed

section \<open>One write at a time, in order\<close>

text \<open>The limit never changes.\<close>

lemma FreeTask_limit: "FreeTask t tm = Some tm' \<Longrightarrow> max_write_concurrency_limit tm' = max_write_concurrency_limit tm"
  by (auto simp: FreeTask_def Let_def split: if_splits)

lemma GetTask_limit:
  "GetWriteTask ty tm = Some (t, tm') \<Longrightarrow> max_write_concurrency_limit tm' = max_write_concurrency_limit tm"
  "GetOtherTask ty tm = Some (t, tm') \<Longrightarrow> max_write_concurrency_limit tm' = max_write_concurrency_limit tm"
  by (auto simp: GetWriteTask_def GetOtherTask_def take_task_def split: if_splits)

lemma ProcessReq_limit:
  "ProcessReq r s = Some (b, s') \<Longrightarrow> max_write_concurrency_limit (task_mgr s') = max_write_concurrency_limit (task_mgr s)"
  by (cases "rq_type (reqs s r)")
    (auto simp: ProcessReq_def start_other_def start_write_def set_done_def bind_eq_Some_conv Let_def
      split: option.splits if_splits dest: GetTask_limit)

lemma put_queue_frame:
  "tasks (put_queue tbl qn s) = tasks s" "task_mgr (put_queue tbl qn s) = task_mgr s" "reqs (put_queue tbl qn s) = reqs s"
  by (cases qn, simp)+

lemma TryStart_shape:
  assumes "TryStartPendingWrite tbl s = Some s'"
  shows "s' = s \<or> (\<exists>q r qn b s2. pending_queues s tbl = Some q \<and> \<not> pq_running q \<and> pq_head q = Some r
    \<and> ProcessReq r (put_queue tbl qn s) = Some (b, s2) \<and> (s' = s2 \<or> (\<exists>qn'. s' = put_queue tbl qn' s2)))"
proof (cases "pending_queues s tbl")
  case None
  then show ?thesis using assms by (simp add: TryStartPendingWrite_def)
next
  case (Some q)
  show ?thesis
  proof (cases "pq_running q \<or> pq_head q = None")
    case True
    then show ?thesis using assms(1) Some by (auto simp: TryStartPendingWrite_def pwq_Empty_def)
  next
    case False
    then obtain r where r: "pq_head q = Some r" by auto
    let ?qn = "(q\<lparr>pq_head := links s r, pq_tail := if links s r = None then None else pq_tail q, pq_running := True\<rparr>, (links s)(r := None))"
    have unf: "TryStartPendingWrite tbl s = do {
        (started, s) \<leftarrow> ProcessReq r (put_queue tbl ?qn s);
        if started then Some s
        else do { q \<leftarrow> pending_queues s tbl; Some (put_queue tbl (PushFront r (q\<lparr>pq_running := False\<rparr>, links s)) s) } }"
      using Some False r by (simp add: TryStartPendingWrite_def pwq_Empty_def PopFront_def)
    obtain b s2 where pr: "ProcessReq r (put_queue tbl ?qn s) = Some (b, s2)"
      using assms unfolding unf by (cases "ProcessReq r (put_queue tbl ?qn s)") auto
    then have "s' = s2 \<or> (\<exists>qn'. s' = put_queue tbl qn' s2)"
      using assms unfolding unf pr by (cases b; cases "pending_queues s2 tbl") auto
    then show ?thesis using Some False r pr by blast
  qed
qed

lemma TryStart_limit:
  "TryStartPendingWrite tbl s = Some s' \<Longrightarrow> max_write_concurrency_limit (task_mgr s') = max_write_concurrency_limit (task_mgr s)"
  using TryStart_shape [of tbl s s'] by (auto simp: put_queue_frame dest: ProcessReq_limit)

lemma OnReceivedReq_limit:
  "OnReceivedReq r s = Some (s', cs) \<Longrightarrow> max_write_concurrency_limit (task_mgr s') = max_write_concurrency_limit (task_mgr s)"
  by (auto simp: OnReceivedReq_def try_emplace_def put_queue_def Let_def split: option.splits prod.splits if_splits dest: ProcessReq_limit)

lemma EnqueueForAutoReopen_limit:
  "EnqueueForAutoReopen r s = (s', cs) \<Longrightarrow> task_mgr s' = task_mgr s"
  by (auto simp: EnqueueForAutoReopen_def try_emplace_def put_queue_def Let_def split: option.splits prod.splits if_splits)

lemma FinishTask_limit: "FinishTask mode running t err s = Some s' \<Longrightarrow> task_mgr s' = task_mgr s"
  by (cases "tasks s t") (auto simp: FinishTask_def Let_def split: if_splits)

lemma OnTaskFinished_limit:
  "OnTaskFinished t s = Some (s', cs) \<Longrightarrow> max_write_concurrency_limit (task_mgr s') = max_write_concurrency_limit (task_mgr s)"
  by (cases "tasks s t") (auto simp: OnTaskFinished_def Let_def bind_eq_Some_conv split: if_splits dest: FreeTask_limit)

lemma request_internal_limit: "request_internal r tbl s = Some s' \<Longrightarrow> task_mgr s' = task_mgr s"
  by (auto simp: request_internal_def AddPending_def HasPending_def bind_eq_Some_conv put_queue_def Let_def split: if_splits)

lemma shard_step_limit:
  "shard_step mode c c' \<Longrightarrow> max_write_concurrency_limit (task_mgr (snd c')) = max_write_concurrency_limit (task_mgr (snd c))"
proof (induction rule: shard_step.induct)
  case (drain c c')
  then show ?case
  proof (induction rule: drain_step.induct)
    case (call c c')
    then show ?case
    proof (induction rule: call_step.induct)
      case (try_start tbl s s' cs)
      then show ?case using TryStart_limit by simp
    next
      case (retry r oom reopen s s' cs' cs)
      then show ?case
        using EnqueueForAutoReopen_limit by (auto simp: retry_request_def split: if_splits)
    qed simp
  next
    case (receive s xs r ys s' cs)
    then show ?case using OnReceivedReq_limit by fastforce
  next
    case (finish running t err s s1 s2 cs' cs)
    then show ?case using FinishTask_limit OnTaskFinished_limit by fastforce
  qed
next
  case (send s n q s' cs)
  then show ?case by (auto simp: SendRequest_def)
next
  case (internal s t tk r s' cs)
  then show ?case using request_internal_limit by fastforce
qed

lemma reachable_limit:
  assumes "reachable mode limit rq c"
  shows "max_write_concurrency_limit (task_mgr (snd c)) = (if 0 < limit then limit else unlimited)"
proof -
  have "(shard_step mode)\<^sup>*\<^sup>* ([], Shard_new limit rq) c" using assms by (simp add: reachable_def)
  then show ?thesis
    by (induction rule: rtranclp_induct) (auto simp: Shard_new_def TaskManager_new_def dest: shard_step_limit)
qed

text \<open>Only \<open>TryStartPendingWrite\<close> starts a write, and it takes the first request of the queue.\<close>

lemma started_task:
  assumes "ProcessReq r s = Some (b, s')" "tasks s' t = Some tk" "tasks s t = None"
  shows "tk_req tk = r" "tk_tbl tk = rq_tbl (reqs s r)" "ReadOnly (rq_type (reqs s r)) \<Longrightarrow> task_ReadOnly (fst t)"
    "reqs s' = reqs s"
proof -
  have so: "tk_req tk = r \<and> tk_tbl tk = rq_tbl (reqs s r) \<and> fst t = ty \<and> reqs s' = reqs s"
    if "start_other ty r s = Some (b, s')" for ty
    using that assms(2,3) by (auto simp: start_other_def bind_eq_Some_conv split: if_splits)
  have sw: "tk_req tk = r \<and> tk_tbl tk = rq_tbl (reqs s r) \<and> reqs s' = reqs s" if "start_write ty r s = Some (b, s')" for ty
    using that assms(2,3) by (auto simp: start_write_def split: option.splits if_splits)
  have "tk_req tk = r \<and> tk_tbl tk = rq_tbl (reqs s r) \<and> reqs s' = reqs s
    \<and> (ReadOnly (rq_type (reqs s r)) \<longrightarrow> task_ReadOnly (fst t))"
  proof (cases "ReadOnly (rq_type (reqs s r))")
    case True
    then show ?thesis using so ProcessReq_read [OF True] assms(1) by auto
  next
    case False
    show ?thesis
    proof (cases "handled_by_store (rq_type (reqs s r))")
      case True
      then have "tasks s' = tasks s"
        using assms(1) by (auto simp: ProcessReq_def handled_by_store_def set_done_def)
      then show ?thesis using assms(2,3) by simp
    next
      case nh: False
      from ProcessReq_write [OF False nh] show ?thesis
        using so sw assms False by (auto split: option.splits)
    qed
  qed
  then show "tk_req tk = r" "tk_tbl tk = rq_tbl (reqs s r)" "ReadOnly (rq_type (reqs s r)) \<Longrightarrow> task_ReadOnly (fst t)"
    "reqs s' = reqs s"
    by auto
qed

lemma try_start_takes_first:
  assumes "TryStartPendingWrite tbl s = Some s'" "tasks s' t = Some tk" "tasks s t = None"
  shows "\<exists>q. pending_queues s tbl = Some q \<and> \<not> pq_running q \<and> pq_head q = Some (tk_req tk)
    \<and> tk_tbl tk = rq_tbl (reqs s (tk_req tk))"
proof -
  have "s' \<noteq> s" using assms by auto
  then obtain q r qn b s2 where q: "pending_queues s tbl = Some q" "\<not> pq_running q" "pq_head q = Some r"
    "ProcessReq r (put_queue tbl qn s) = Some (b, s2)" "s' = s2 \<or> (\<exists>qn'. s' = put_queue tbl qn' s2)"
    using TryStart_shape [OF assms(1)] by blast
  have "tasks s2 t = Some tk" "tasks (put_queue tbl qn s) t = None"
    using q(5) assms(2,3) by (auto simp: put_queue_frame)
  from started_task [OF q(4) this] show ?thesis using q(1-3) by (auto simp: put_queue_frame)
qed

lemma OnReceivedReq_reads:
  assumes "OnReceivedReq r s = Some (s', cs)" "tasks s' t = Some tk" "tasks s t = None"
  shows "task_ReadOnly (fst t)"
proof (cases "ReadOnly (rq_type (reqs s r))")
  case True
  then obtain b where "ProcessReq r s = Some (b, s')" using assms(1) by (auto simp: OnReceivedReq_def)
  then show ?thesis using started_task(3) [OF _ assms(2,3)] True by blast
next
  case False
  then have "tasks s' = tasks s"
    using assms(1) by (auto simp: OnReceivedReq_def try_emplace_def put_queue_def Let_def split: option.splits prod.splits)
  then show ?thesis using assms(2,3) by simp
qed

lemma EnqueueForAutoReopen_tasks: "EnqueueForAutoReopen r s = (s', cs) \<Longrightarrow> tasks s' = tasks s"
  by (auto simp: EnqueueForAutoReopen_def try_emplace_def put_queue_def Let_def split: option.splits prod.splits if_splits)

lemma FinishTask_tasks: "FinishTask mode running t err s = Some s' \<Longrightarrow> dom (tasks s') = dom (tasks s)"
  by (cases "tasks s t") (auto simp: FinishTask_def Let_def split: if_splits)

lemma OnTaskFinished_tasks: "OnTaskFinished t s = Some (s', cs) \<Longrightarrow> tasks s' = (tasks s)(t := None)"
  by (cases "tasks s t") (auto simp: OnTaskFinished_def Let_def bind_eq_Some_conv split: if_splits)

lemma request_internal_tasks: "request_internal r tbl s = Some s' \<Longrightarrow> tasks s' = tasks s"
  by (auto simp: request_internal_def AddPending_def HasPending_def bind_eq_Some_conv put_queue_def Let_def split: if_splits)

lemma new_write_task:
  assumes "shard_step mode c c'" "tasks (snd c') t = Some tk" "tasks (snd c) t = None" "\<not> task_ReadOnly (fst t)"
  shows "\<exists>tbl q. pending_queues (snd c) tbl = Some q \<and> \<not> pq_running q \<and> pq_head q = Some (tk_req tk)
    \<and> tk_tbl tk = rq_tbl (reqs (snd c) (tk_req tk))"
  using assms
proof (induction rule: shard_step.induct)
  case (drain c c')
  then show ?case
  proof (induction rule: drain_step.induct)
    case (call c c')
    then show ?case
    proof (induction rule: call_step.induct)
      case (try_start tbl s s' cs)
      then show ?case using try_start_takes_first [of tbl s s' t tk] by auto
    next
      case (retry r oom reopen s s' cs' cs)
      then have "tasks s' = tasks s"
        using EnqueueForAutoReopen_tasks by (auto simp: retry_request_def split: if_splits)
      then show ?case using retry by simp
    qed simp
  next
    case (receive s xs r ys s' cs)
    then show ?case using OnReceivedReq_reads [of r "s\<lparr>requests := xs @ ys\<rparr>" s' cs t tk] by simp
  next
    case (finish running t' err s s1 s2 cs' cs)
    then have "tasks s1 t = Some tk" using OnTaskFinished_tasks [of t' s1 s2 cs'] by (auto split: if_splits)
    then have "t \<in> dom (tasks s)" using FinishTask_tasks [of mode running t' err s s1] finish(1) by blast
    then show ?case using finish by auto
  qed
next
  case (send s n q s' cs)
  then show ?case by (auto simp: SendRequest_def)
next
  case (internal s t' tk' r s' cs)
  then show ?case using request_internal_tasks by fastforce
qed

text \<open>C3: In every reachable state of a shard, whatever the clients send, whichever tasks end and with
  whatever result, at most one write task (batch write, background write or reopen) exists for a
  partition and, when a limit is set, no more batch and background write tasks than the limit exist in
  all.  A step that starts a write starts the request at the head of the queue of its partition, and only
  while no write task of that partition exists.\<close>

theorem writes_serialized:
  assumes "reachable mode limit rq (cs, s)"
  shows "card (write_tasks s tbl) \<le> 1
    \<and> (0 < limit \<longrightarrow> card {t. tasks s t \<noteq> None \<and> counts_as_write (fst t)} \<le> limit)
    \<and> (\<forall>c' t tk. shard_step mode (cs, s) c' \<and> tasks (snd c') t = Some tk \<and> tasks s t = None \<and> \<not> task_ReadOnly (fst t) \<longrightarrow>
         write_tasks s (tk_tbl tk) = {} \<and> (\<exists>q. pending_queues s (tk_tbl tk) = Some q \<and> pq_head q = Some (tk_req tk)))"
proof -
  obtain loc Q where i: "shard_inv loc Q cs s" using reachable_inv [OF assms] by auto
  have c: "core loc Q (retries cs) s" using i by (simp add: shard_inv_def)
  have "card (write_tasks s tbl) \<le> 1"
  proof (cases "write_tasks s tbl = {}")
    case False
    then obtain t where "t \<in> write_tasks s tbl" by auto
    then have "write_tasks s tbl = {t}" using write_tasks_unique [OF i] by blast
    then show ?thesis by simp
  qed simp
  moreover have "card {t. tasks s t \<noteq> None \<and> counts_as_write (fst t)} \<le> limit" if "0 < limit"
  proof -
    have p: "inv_pools loc s" using c by (simp add: core_def)
    have "{t. tasks s t \<noteq> None \<and> counts_as_write (fst t)} =
        Pair TT_BatchWrite ` live_tasks s TT_BatchWrite \<union> Pair TT_BackgroundWrite ` live_tasks s TT_BackgroundWrite"
      by (auto simp: live_tasks_def counts_as_write_def)
    moreover have "finite (live_tasks s ty)" for ty using p by (simp add: inv_pools_def pool_ok_def)
    ultimately have "card {t. tasks s t \<noteq> None \<and> counts_as_write (fst t)} \<le>
        card (live_tasks s TT_BatchWrite) + card (live_tasks s TT_BackgroundWrite)"
      using card_Un_le [of "Pair TT_BatchWrite ` live_tasks s TT_BatchWrite" "Pair TT_BackgroundWrite ` live_tasks s TT_BackgroundWrite"]
      by (simp add: card_image inj_on_def)
    also have "\<dots> \<le> max_write_concurrency_limit (task_mgr s)" using p by (simp add: inv_pools_def)
    also have "\<dots> = limit" using reachable_limit [OF assms] that by simp
    finally show ?thesis .
  qed
  moreover have "write_tasks s (tk_tbl tk) = {} \<and> (\<exists>q. pending_queues s (tk_tbl tk) = Some q \<and> pq_head q = Some (tk_req tk))"
    if t: "shard_step mode (cs, s) c'" "tasks (snd c') t = Some tk" "tasks s t = None" "\<not> task_ReadOnly (fst t)" for c' t tk
  proof -
    obtain tbl q where q: "pending_queues s tbl = Some q" "\<not> pq_running q" "pq_head q = Some (tk_req tk)"
      "tk_tbl tk = rq_tbl (reqs s (tk_req tk))"
      using new_write_task [OF t(1,2) _ t(4)] t(3) by auto
    have "pwq_rep (q, links s) (Q tbl)" by (rule core_queue [OF c q(1)])
    then have "tk_req tk \<in> set (Q tbl)" using q(3) by (cases "Q tbl") (auto simp: pwq_rep_def)
    then have "loc (tk_req tk) = Queued tbl" using c places_queue by (auto simp: core_def)
    then have tbl: "tk_tbl tk = tbl" using core_req_ok [OF c, of "tk_req tk"] q(4) by (auto simp: req_ok_def)
    have "\<not> is_running s tbl" using q(1,2) by (auto simp: is_running_def)
    then have "write_tasks s tbl = {}"
      using write_task_busy [OF i, of _ tbl] c by (auto simp: core_def inv_writers_def)
    then show ?thesis using q tbl by auto
  qed
  ultimately show ?thesis by blast
qed

section \<open>Every request is done in the end\<close>

lemma quiescent:
  assumes i: "shard_inv loc Q cs s" and stop: "\<nexists>c. drain_step mode (cs, s) c" and ns: "\<And>r. \<not> is_stuck (loc r)"
  shows "rq_done (reqs s (User n))"
proof -
  have c: "core loc Q (retries cs) s" and w: "waits Q cs s" and st: "settled loc s" using i by (auto simp: shard_inv_def)
  have cs: "cs = []"
  proof (cases cs)
    case (Cons cl cs')
    have "\<exists>c. call_step (cl # cs', s) c"
    proof (cases cl)
      case (TryStart tbl)
      then obtain s' where "TryStartPendingWrite tbl s = Some s'" using try_start_ok [of loc Q tbl cs' s] i Cons by auto
      from call_step.try_start [OF this, of cs'] show ?thesis unfolding TryStart by (rule exI)
    next
      case Dispatch
      have "finite (dom (pending_queues s))" using c by (simp add: core_def inv_queues_def)
      from finite_distinct_list [OF this] obtain ts where ts: "set ts = dom (pending_queues s)" "distinct ts" by auto
      show ?thesis unfolding Dispatch using call_step.dispatch [OF ts(2,1)] by (rule exI)
    next
      case (Retry r oom reopen)
      then show ?thesis using call_step.retry by (metis surj_pair)
    qed
    then obtain c' where "call_step (cl # cs', s) c'" by auto
    then have "drain_step mode (cs, s) c'" unfolding Cons by (rule drain_step.call)
    then show ?thesis using stop by auto
  qed simp
  have rs: "requests s = []"
  proof (rule ccontr)
    assume "requests s \<noteq> []"
    then obtain r ys where "requests s = [] @ r # ys" by (cases "requests s") auto
    then obtain s' cs1 where "OnReceivedReq r (s\<lparr>requests := [] @ ys\<rparr>) = Some (s', cs1)" "requests s = [] @ r # ys"
      using receive_ok [of loc Q s "[]" r ys] i cs by auto
    then have "drain_step mode ([], s) (cs1, s')" by (intro drain_step.receive)
    then show False using stop cs by auto
  qed
  have ts: "tasks s t = None" for t
  proof (rule ccontr)
    assume "tasks s t \<noteq> None"
    then obtain tk where "tasks s t = Some tk" by auto
    from finish_ok [OF i this, of mode "\<lambda>_. True" NoError] obtain s1 s2 cs' where
      "FinishTask mode (\<lambda>_. True) t NoError s = Some s1" "OnTaskFinished t s1 = Some (s2, cs')" by blast
    then have "drain_step mode (cs, s) (cs' @ cs, s2)" by (rule drain_step.finish)
    then show False using stop by auto
  qed
  have nr: "loc r \<noteq> Running t" for r t
    using c ts by (auto simp: core_def inv_places_def)
  have nb: "\<not> busy_place (loc r)" for r
    using nr [of r] ns [of r] settledD [OF st] by (cases "loc r") auto
  have live: "live_tasks s ty = {}" for ty using ts by (simp add: live_tasks_def)
  have "stuck loc = 0" using ns by (simp add: stuck_def)
  then have free: "num_active_write (task_mgr s) < max_write_concurrency_limit (task_mgr s)"
    using c live by (auto simp: core_def inv_pools_def)
  have nq: "loc r \<noteq> Queued tbl" for r tbl
  proof
    assume "loc r = Queued tbl"
    then have q: "Q tbl \<noteq> []" using c places_queue [of loc Q "retries cs" s r tbl] by (auto simp: core_def)
    then obtain q where q': "pending_queues s tbl = Some q"
      using c by (cases "pending_queues s tbl") (auto simp: core_def inv_queues_def)
    have "\<not> pq_running q"
      using c q' nb by (auto simp: core_def inv_writers_def is_running_def busy_with_def)
    then show False using waitsD [OF w q' q] cs free by simp
  qed
  have nw: "loc r \<noteq> Waiting tbl" for r tbl
  proof
    assume "loc r = Waiting tbl"
    moreover have "r \<in> set (waiting s tbl) \<longleftrightarrow> loc r = Waiting tbl" using c by (simp add: core_def inv_places_def)
    ultimately have "pending_reopens s tbl \<noteq> None" by (cases "pending_reopens s tbl") (auto simp: waiting_def)
    moreover have "pending_reopens s tbl = None \<longleftrightarrow> gone (loc (ReopenReq tbl))" using c by (simp add: core_def inv_requests_def)
    ultimately have g: "\<not> gone (loc (ReopenReq tbl))" by (cases "pending_reopens s tbl") simp_all
    have "owned_place (loc (ReopenReq tbl))" using core_req_ok [OF c, of "ReopenReq tbl"] by (simp add: req_ok_def)
    then show False using g nq nr settledD(1) [OF st] by (cases "loc (ReopenReq tbl)") auto
  qed
  have "loc (User n) \<noteq> Received" using c rs by (auto simp: core_def inv_places_def)
  moreover have "loc (User n) \<noteq> Retrying" using c cs by (auto simp: core_def inv_places_def)
  ultimately have "loc (User n) = Nowhere"
    using nq nw nr ns [of "User n"] settledD [OF st] by (cases "loc (User n)") auto
  then show ?thesis using core_req_ok [OF c, of "User n"] by (simp add: req_ok_def)
qed

lemma no_infinite_drain:
  assumes "shard_inv loc Q (fst (\<sigma> k)) (snd (\<sigma> k))"
  shows "\<exists>i. \<not> drain_step mode (\<sigma> i) (\<sigma> (Suc i))"
proof -
  have "\<forall>loc Q k. m = (potential loc (snd (\<sigma> k)), stack_size (fst (\<sigma> k)) (snd (\<sigma> k))) \<longrightarrow>
      shard_inv loc Q (fst (\<sigma> k)) (snd (\<sigma> k)) \<longrightarrow> (\<exists>i. \<not> drain_step mode (\<sigma> i) (\<sigma> (Suc i)))" for m
  proof (induction m rule: wf_induct [OF wf_lex_prod [OF wf_less_than wf_less_than]])
    case (1 m)
    show ?case
    proof (intro allI impI)
      fix loc Q k
      assume m: "m = (potential loc (snd (\<sigma> k)), stack_size (fst (\<sigma> k)) (snd (\<sigma> k)))"
        and i: "shard_inv loc Q (fst (\<sigma> k)) (snd (\<sigma> k))"
      show "\<exists>i. \<not> drain_step mode (\<sigma> i) (\<sigma> (Suc i))"
      proof (cases "drain_step mode (\<sigma> k) (\<sigma> (Suc k))")
        case True
        then obtain loc' Q' where n: "shard_inv loc' Q' (fst (\<sigma> (Suc k))) (snd (\<sigma> (Suc k)))" "falls loc (\<sigma> k) loc' (\<sigma> (Suc k))"
          using drain_step_inv [OF True i] by blast
        have "((potential loc' (snd (\<sigma> (Suc k))), stack_size (fst (\<sigma> (Suc k))) (snd (\<sigma> (Suc k)))), m) \<in> less_than <*lex*> less_than"
          using n(2) m by (auto simp: falls_def)
        from 1 [rule_format, OF this refl n(1)] show ?thesis .
      qed blast
    qed
  qed
  then show ?thesis using assms by blast
qed

lemma drain_steps_inv:
  assumes "(drain_step mode)\<^sup>*\<^sup>* c c'" "shard_inv loc Q (fst c) (snd c)"
  shows "\<exists>loc' Q'. shard_inv loc' Q' (fst c') (snd c')"
proof -
  have "(shard_step mode)\<^sup>*\<^sup>* c c'"
    using assms(1) by (rule mono_rtranclp [rule_format, rotated]) (rule shard_step.drain)
  then show ?thesis using shard_steps_inv [OF _ assms(2)] by blast
qed

definition pending_empty_batch :: "Shard \<Rightarrow> bool" where
  "pending_empty_batch s =
    (\<exists>n. \<not> rq_done (reqs s (User n)) \<and> rq_type (reqs s (User n)) = RT_BatchWrite \<and> rq_batch_empty (reqs s (User n)))"

text \<open>C4: From every reachable state, when nothing new arrives, the shard comes to rest: there is no
  infinite sequence of steps that receive requests, execute calls and end tasks, whatever the tasks return
  and however often requests are tried again.  And it only rests when every request of every client is done,
  unless one of the requests that are not done is a batch without entries.\<close>

theorem shard_drains:
  assumes "reachable mode limit rq (cs, s)"
  shows "(\<nexists>\<sigma>. \<sigma> 0 = (cs, s) \<and> (\<forall>i. drain_step mode (\<sigma> i) (\<sigma> (Suc i))))
    \<and> (\<forall>cs' s'. (drain_step mode)\<^sup>*\<^sup>* (cs, s) (cs', s') \<and> (\<nexists>c. drain_step mode (cs', s') c) \<longrightarrow>
         (\<forall>n. rq_done (reqs s' (User n))) \<or> pending_empty_batch s')"
proof -
  obtain loc Q where i: "shard_inv loc Q cs s" using reachable_inv [OF assms] by auto
  have "(\<forall>n. rq_done (reqs s' (User n))) \<or> pending_empty_batch s'"
    if d: "(drain_step mode)\<^sup>*\<^sup>* (cs, s) (cs', s')" "\<nexists>c. drain_step mode (cs', s') c" for cs' s'
  proof -
    obtain loc' Q' where i': "shard_inv loc' Q' cs' s'" using drain_steps_inv [OF d(1), where loc = loc and Q = Q] i by auto
    show ?thesis
    proof (cases "\<exists>r. is_stuck (loc' r)")
      case False
      then show ?thesis using quiescent [OF i' d(2)] by blast
    next
      case True
      then obtain r tbl where r: "loc' r = Stuck tbl" by (metis is_stuck.elims(2))
      have "req_ok r (Stuck tbl) (reqs s' r)"
        using i' core_req_ok [of loc' Q' "retries cs'" s' r] r by (simp add: shard_inv_def)
      then show ?thesis by (cases r) (auto simp: req_ok_def pending_empty_batch_def)
    qed
  qed
  moreover have "\<nexists>\<sigma>. \<sigma> 0 = (cs, s) \<and> (\<forall>i. drain_step mode (\<sigma> i) (\<sigma> (Suc i)))"
  proof
    assume "\<exists>\<sigma>. \<sigma> 0 = (cs, s) \<and> (\<forall>i. drain_step mode (\<sigma> i) (\<sigma> (Suc i)))"
    then obtain \<sigma> where "\<sigma> 0 = (cs, s)" "\<forall>i. drain_step mode (\<sigma> i) (\<sigma> (Suc i))" by blast
    then show False using no_infinite_drain [of loc Q \<sigma> 0 mode] i by simp
  qed
  ultimately show ?thesis by blast
qed

section \<open>An empty batch\<close>

lemma try_start_empty:
  assumes i: "shard_inv loc Q (TryStart tbl # cs) s" and q: "pending_queues s tbl = Some q" "\<not> pq_running q" "pq_head q = Some r"
    and r: "rq_type (reqs s r) = RT_BatchWrite" "rq_batch_empty (reqs s r)"
    and n: "num_active_write (task_mgr s) < max_write_concurrency_limit (task_mgr s)"
    and s': "TryStartPendingWrite tbl s = Some s'"
  shows "\<exists>loc' Q'. shard_inv loc' Q' cs s' \<and> loc' r = Stuck tbl"
proof -
  have c: "core loc Q (retries cs) s" and w: "waits Q (TryStart tbl # cs) s" and st: "settled loc s"
    using i by (auto simp: shard_inv_def)
  have rep: "pwq_rep (q, links s) (Q tbl)" by (rule core_queue [OF c q(1)])
  then obtain xs where Q: "Q tbl = r # xs" using q(3) by (cases "Q tbl") (auto simp: pwq_rep_def)
  obtain q1 nx1 where pop: "PopFront (q, links s) = (Some r, (q1, nx1))" "rq_tbl (reqs s r) = tbl"
    "core (loc(r := Popped)) (Q(tbl := xs)) (retries cs) (put_queue tbl (q1\<lparr>pq_running := True\<rparr>, nx1) s)"
    using pop_move [OF c q(1,2) Q] by blast
  let ?s1 = "put_queue tbl (q1\<lparr>pq_running := True\<rparr>, nx1) s"
  have b: "counts_as_write TT_BatchWrite" by (simp add: counts_as_write_def)
  have "GetWriteTask TT_BatchWrite (task_mgr ?s1) \<noteq> None"
    using GetWriteTask_full [of "loc(r := Popped)" ?s1 TT_BatchWrite] b n pop(3) by (auto simp: core_def)
  then obtain t tm where g: "GetWriteTask TT_BatchWrite (task_mgr ?s1) = Some (t, tm)" by auto
  have tk: "takes TT_BatchWrite t (task_mgr ?s1) tm" by (rule GetWriteTask_takes [OF b g])
  have "s' = ?s1\<lparr>task_mgr := tm\<rparr>"
    using s' q pop(1) r g by (simp add: TryStartPendingWrite_def pwq_Empty_def ProcessReq_def)
  moreover have "core (loc(r := Stuck tbl)) (Q(tbl := xs)) (retries cs) (?s1\<lparr>task_mgr := tm\<rparr>)"
    using stuck_move_in [OF pop(3) _ _ _ tk, of r] r pop(2) by simp
  moreover have "waits (Q(tbl := xs)) cs (?s1\<lparr>task_mgr := tm\<rparr>)"
    by (rule waits_start [OF w]) (use takes_counts [OF tk] in auto)
  moreover have "settled (loc(r := Stuck tbl)) (?s1\<lparr>task_mgr := tm\<rparr>)"
    using st by (intro settled_move [OF st]) (auto simp: settled_def)
  ultimately show ?thesis
    by (intro exI [of _ "loc(r := Stuck tbl)"] exI [of _ "Q(tbl := xs)"]) (simp add: shard_inv_def)
qed

text \<open>C15: When the request at the head of a queue that is about to be started is a batch without entries,
  then from that moment on, in every state the shard ever reaches, the request is not done and its partition
  has no write task and cannot start one: the writes of the partition are blocked for good.\<close>

theorem empty_batch_blocks_partition:
  assumes "reachable mode limit rq (TryStart tbl # cs, s)"
    and "pending_queues s tbl = Some q" "\<not> pq_running q" "pq_head q = Some (User n)"
    and "rq_type (reqs s (User n)) = RT_BatchWrite" "rq_batch_empty (reqs s (User n))"
    and "num_active_write (task_mgr s) < max_write_concurrency_limit (task_mgr s)"
    and "TryStartPendingWrite tbl s = Some s'" "(shard_step mode)\<^sup>*\<^sup>* (cs, s') (cs'', s'')"
  shows "\<not> rq_done (reqs s'' (User n)) \<and> write_tasks s'' tbl = {} \<and> TryStartPendingWrite tbl s'' = Some s''"
proof -
  obtain loc Q where "shard_inv loc Q (TryStart tbl # cs) s" using reachable_inv [OF assms(1)] by auto
  from try_start_empty [OF this assms(2-8)] obtain loc' Q' where i': "shard_inv loc' Q' cs s'" "loc' (User n) = Stuck tbl" by blast
  obtain loc'' Q'' where i'': "shard_inv loc'' Q'' cs'' s''" and k: "keeps_stuck loc' loc''"
    using shard_steps_inv [OF assms(9), where loc = loc' and Q = Q'] i'(1) by auto
  have l: "loc'' (User n) = Stuck tbl" using k i'(2) by (auto simp: keeps_stuck_def)
  have c: "core loc'' Q'' (retries cs'') s''" using i'' by (simp add: shard_inv_def)
  have ok: "req_ok (User n) (Stuck tbl) (reqs s'' (User n))" using core_req_ok [OF c, of "User n"] l by simp
  then have b: "busy_with loc'' s'' tbl (User n)" using l by (auto simp: busy_with_def req_ok_def)
  have "t \<notin> write_tasks s'' tbl" for t
  proof
    assume "t \<in> write_tasks s'' tbl"
    from write_task_busy [OF i'' this] obtain tk :: KvTask where
      "loc'' (tk_req tk) = Running t" "busy_with loc'' s'' tbl (tk_req tk)" by blast
    moreover have "tk_req tk = User n" using c b calculation(2) by (auto simp: core_def inv_writers_def)
    ultimately show False using l by simp
  qed
  moreover have "is_running s'' tbl" using c b by (auto simp: core_def inv_writers_def)
  then have "TryStartPendingWrite tbl s'' = Some s''" by (auto simp: TryStartPendingWrite_def is_running_def)
  moreover have "\<not> rq_done (reqs s'' (User n))" using ok by (simp add: req_ok_def)
  ultimately show ?thesis by blast
qed

section \<open>An example run\<close>

text \<open>Two batches for one partition: the first is started, the second waits in the queue.\<close>

definition ex_tbl0 :: TableIdent where
  "ex_tbl0 = \<lparr>tbl_name = ''t'', partition_id = 0\<rparr>"

definition ex_batch :: "bool \<Rightarrow> KvRequest" where
  "ex_batch em = (KvRequest_new RT_BatchWrite ex_tbl0)\<lparr>rq_batch_empty := em, oom_retry_remaining := 5\<rparr>"

definition ex_rq :: "req_ref \<Rightarrow> KvRequest" where
  "ex_rq r = KvRequest_new RT_Read ex_tbl0"

definition ex_send :: "bool \<Rightarrow> nat \<Rightarrow> Shard \<Rightarrow> Shard" where
  "ex_send em n s = snd (SendRequest True (User n) (set_req (User n) (\<lambda>_. ex_batch em) s))"

definition ex_receive :: "Shard \<Rightarrow> Shard" where
  "ex_receive s = fst (the (OnReceivedReq (hd (requests s)) (s\<lparr>requests := tl (requests s)\<rparr>)))"

definition ex_queued :: "bool \<Rightarrow> Shard" where
  "ex_queued em = ex_receive (ex_send em 0 (Shard_new 1 ex_rq))"

definition ex_started :: Shard where
  "ex_started = the (TryStartPendingWrite ex_tbl0 (ex_queued False))"

definition ex_waiting :: Shard where
  "ex_waiting = the (TryStartPendingWrite ex_tbl0 (ex_receive (ex_send False 1 ex_started)))"

lemma ex_send_step:
  assumes "rq_done (reqs s (User n))"
  shows "shard_step mode (cs, s) (cs, ex_send em n s)"
  by (rule shard_step.send [OF assms, of "ex_batch em"])
    (simp_all add: ex_send_def SendRequest_def ex_batch_def KvRequest_new_def handled_by_store_def TableIdent_IsValid_def ex_tbl0_def)

lemma ex_receive_step:
  assumes "requests s = r # ys" "map_option snd (OnReceivedReq r (s\<lparr>requests := ys\<rparr>)) = Some cs"
  shows "shard_step mode ([], s) (cs, ex_receive s)"
proof -
  obtain s' where s': "OnReceivedReq r (s\<lparr>requests := ys\<rparr>) = Some (s', cs)" using assms(2) by auto
  then have "drain_step mode ([], s) (cs, s')" using drain_step.receive [of s "[]" r ys s' cs mode] assms by simp
  then show ?thesis using s' assms(1) by (simp add: ex_receive_def shard_step.drain)
qed

lemma ex_try_step:
  "TryStartPendingWrite tbl s \<noteq> None \<Longrightarrow> shard_step mode (TryStart tbl # cs, s) (cs, the (TryStartPendingWrite tbl s))"
  by (auto intro!: shard_step.drain drain_step.call call_step.try_start)

lemmas ex_recv = ex_batch_def SendRequest_def AddKvRequest_def set_req_def KvRequest_new_def OnReceivedReq_def
  ReadOnly_def try_emplace_def PushBack_def put_queue_def PendingWriteQueue_new_def TryStartPendingWrite_def

lemmas ex_try = ex_batch_def KvRequest_new_def TryStartPendingWrite_def pwq_Empty_def PopFront_def put_queue_def ProcessReq_def
  GetWriteTask_def TaskManager_new_def take_task_def pool_GetTask_def TaskPool_new_def StartTask_def Let_def

lemma ex_queued_reachable: "reachable Local 1 ex_rq ([TryStart ex_tbl0], ex_queued em)"
proof -
  let ?s = "ex_send em 0 (Shard_new 1 ex_rq)"
  have "shard_step Local ([], Shard_new 1 ex_rq) ([], ?s)"
    by (rule ex_send_step) (simp add: Shard_new_def ex_rq_def KvRequest_new_def)
  moreover have "shard_step Local ([], ?s) ([TryStart ex_tbl0], ex_receive ?s)"
    by (rule ex_receive_step [where r = "User 0" and ys = "[]"]) (simp_all add: ex_send_def ex_rq_def Shard_new_def ex_recv)
  ultimately show ?thesis
    by (auto simp: reachable_def ex_queued_def ex_rq_def KvRequest_new_def intro: rtranclp.intros)
qed

lemma ex_queued_simps:
  "pending_queues (ex_queued em) ex_tbl0 = Some \<lparr>pq_running = False, pq_head = Some (User 0), pq_tail = Some (User 0)\<rparr>"
  "reqs (ex_queued em) (User 0) = (ex_batch em)\<lparr>rq_done := False\<rparr>"
  "requests (ex_queued em) = []" "links (ex_queued em) = (\<lambda>_. None)" "tasks (ex_queued em) = (\<lambda>_. None)"
  "task_mgr (ex_queued em) = TaskManager_new 1" "reqs (ex_queued em) (User (Suc n)) = ex_rq (User (Suc n))"
  by (simp_all add: ex_queued_def ex_receive_def ex_send_def ex_rq_def Shard_new_def ex_recv)

lemma ex_try_queued: "TryStartPendingWrite ex_tbl0 (ex_queued em) \<noteq> None"
  by (simp add: ex_queued_simps ex_try)

lemma ex_started_simps:
  "pending_queues ex_started ex_tbl0 = Some \<lparr>pq_running = True, pq_head = None, pq_tail = None\<rparr>"
  "requests ex_started = []" "links ex_started = (\<lambda>_. None)" "tasks ex_started (TT_BatchWrite, 0) \<noteq> None"
  "reqs ex_started (User (Suc 0)) = ex_rq (User 1)"
  by (simp_all add: ex_started_def ex_queued_simps ex_try)

lemma ex_waiting_simps:
  "pending_queues ex_waiting ex_tbl0 = Some \<lparr>pq_running = True, pq_head = Some (User 1), pq_tail = Some (User 1)\<rparr>"
  "tasks ex_waiting (TT_BatchWrite, 0) \<noteq> None"
  using ex_started_simps(4)
  by (simp_all add: ex_waiting_def ex_started_simps ex_receive_def ex_send_def ex_recv)

lemma ex_waiting_reachable: "reachable Local 1 ex_rq ([], ex_waiting)"
proof -
  let ?s = "ex_send False 1 ex_started"
  have "shard_step Local ([TryStart ex_tbl0], ex_queued False) ([], ex_started)"
    unfolding ex_started_def by (rule ex_try_step [OF ex_try_queued])
  moreover have "shard_step Local ([], ex_started) ([], ?s)"
    by (rule ex_send_step) (simp add: ex_started_simps ex_rq_def KvRequest_new_def)
  moreover have "shard_step Local ([], ?s) ([TryStart ex_tbl0], ex_receive ?s)"
    by (rule ex_receive_step [where r = "User 1" and ys = "[]"])
      (simp_all add: ex_send_def ex_started_simps ex_recv)
  moreover have "shard_step Local ([TryStart ex_tbl0], ex_receive ?s) ([], ex_waiting)"
    unfolding ex_waiting_def
    by (rule ex_try_step) (simp add: ex_started_simps ex_receive_def ex_send_def ex_recv)
  ultimately show ?thesis using ex_queued_reachable [of False] unfolding reachable_def by (meson rtranclp.rtrancl_into_rtrancl)
qed

theorem writes_serialized_witness:
  "reachable Local 1 ex_rq ([], ex_waiting) \<and> tasks ex_waiting (TT_BatchWrite, 0) \<noteq> None
   \<and> pending_queues ex_waiting ex_tbl0 \<noteq> None \<and> card (write_tasks ex_waiting ex_tbl0) \<le> 1"
  using writes_serialized [OF ex_waiting_reachable, of ex_tbl0] ex_waiting_reachable by (simp add: ex_waiting_simps)

theorem shard_drains_witness:
  "tasks ex_waiting (TT_BatchWrite, 0) \<noteq> None
   \<and> (\<nexists>\<sigma>. \<sigma> 0 = ([], ex_waiting) \<and> (\<forall>i. drain_step Local (\<sigma> i) (\<sigma> (Suc i))))"
  using conjunct1 [OF shard_drains [OF ex_waiting_reachable]] ex_waiting_simps(2) by blast

theorem empty_batch_blocks_partition_witness:
  "reachable Local 1 ex_rq ([TryStart ex_tbl0], ex_queued True)
   \<and> \<not> rq_done (reqs (the (TryStartPendingWrite ex_tbl0 (ex_queued True))) (User 0))"
proof -
  obtain s' where "TryStartPendingWrite ex_tbl0 (ex_queued True) = Some s'" using ex_try_queued [of True] by auto
  moreover from this have "\<not> rq_done (reqs s' (User 0))"
    using empty_batch_blocks_partition [OF ex_queued_reachable ex_queued_simps(1) _ _ _ _ _ _ rtranclp.rtrancl_refl, of 0 True s']
    by (simp add: ex_queued_simps ex_batch_def KvRequest_new_def TaskManager_new_def)
  ultimately show ?thesis using ex_queued_reachable [of True] by simp
qed

end
