(* ===== verification/Spec2Isabelle.thy ===== *)
theory Spec2Isabelle
  imports Data_Page_Props Index_Page_Props Cow_Props Branch_Props Shard_Props
begin

text \<open>
  EloqStore: a verification library.

  EloqStore keeps the data of each partition of a table in a copy-on-write tree of fixed-size pages.  Pages
  have logical ids; a mapping table takes them to the pages of the data files.  A write task copies the
  mapping, allocates new file pages for the pages it changes, and commits by appending the changes of the
  mapping to the manifest file of the partition or by replacing that file with a snapshot.  After a restart
  the manifest is replayed.  Readers keep the snapshot of the mapping they started with.  Each shard is a
  thread that runs requests as coroutines, at most one write of a partition at a time.  Files carry the
  branch and the term of the process that wrote them in their names.

  \<^bold>\<open>Conventions.\<close>  A byte is an \<open>8 word\<close>, a string of the store a list of bytes; integers that are stored or
  that may wrap are words of their width, sizes and offsets are natural numbers.  A failed assertion, an
  exception or a read outside a buffer is \<open>None\<close> where the code can reach it; errors that the code returns are
  values of \<open>KvError\<close>.  A loop that does not obviously end is a \<open>partial_function\<close> whose value \<open>None\<close> is that it
  does not return, and the lemmas show that it does.  The hash, the size of a system page, the results of
  system calls and the results of task bodies are parameters.

  \<^bold>\<open>Theories\<close>, from the bottom to the top (all paths below \<open>src/\<close> of the repository):

  \<^item> \<open>Eloq_Prelude\<close>: types, collections of simplification rules and lemmas on lists, options and words.

  \<^item> \<open>Coding\<close> (\<open>include/coding.h\<close>, \<open>src/coding.cpp\<close>): fixed-width integers, varints, differences.  The locale
    \<open>codec\<close> gives the round trip of sequences from that of one value.

  \<^item> \<open>Key_Order\<close> (\<open>src/comparator.cpp\<close>): the comparator is the lexicographic order; separators route and are
    shortest.

  \<^item> \<open>Page_Layout\<close>, \<open>Data_Page\<close>, \<open>Data_Page_Correct\<close>, \<open>Data_Page_Props\<close> (\<open>include/storage/page.h\<close>,
    \<open>src/storage/data_page_builder.cpp\<close>, \<open>src/storage/data_page.cpp\<close>): builder and iterator of data pages.  The
    bytes of a page are the reference encoding of its entries; reading, \<open>Seek\<close> and \<open>SeekFloor\<close> are exact up to
    two fields of a floor entry.

  \<^item> \<open>Index_Page\<close>, \<open>Index_Page_Correct\<close>, \<open>Index_Page_Props\<close> (\<open>src/storage/index_page_builder.cpp\<close>,
    \<open>src/storage/mem_cached_page.cpp\<close>): the same for index pages.  \<open>Seek\<close> finds the child for a key from every
    position of the iterator, and returns on every page, damaged or not.  The locale \<open>restart_blocks\<close> is what
    both kinds of pages share.

  \<^item> \<open>Mapping_Table\<close>, \<open>Mapping_Table_Correct\<close>, \<open>Page_Mapper\<close>, \<open>Page_Mapper_Props\<close>
    (\<open>src/storage/page_mapper.cpp\<close>): the chunked table with its overlay during a copy, the free list of page ids
    inside the table, and the allocators of file pages.

  \<^item> \<open>File_Names\<close>, \<open>Branch_Files\<close>, \<open>Branch_Props\<close> (\<open>include/common.h\<close>, \<open>include/types.h\<close>): names of files and
    their parsers, the ranges of files of each branch and term, the serialized branch section.

  \<^item> \<open>Io_Buffer\<close>, \<open>Manifest\<close>, \<open>Manifest_Correct\<close> (\<open>include/direct_io_buffer.h\<close>, \<open>src/storage/root_meta.cpp\<close>):
    the log and snapshot records of a manifest.

  \<^item> \<open>Replayer\<close>, \<open>Replayer_Correct\<close>, \<open>Replayer_Props\<close>, \<open>Mapper_Restore\<close> (\<open>src/replayer.cpp\<close>): reading a
    manifest, what happens at a damaged tail, and the mappers and allocators that are rebuilt from it.

  \<^item> \<open>Store_Options\<close> (\<open>src/eloq_store.cpp\<close>, \<open>include/kv_options.h\<close>): validation of options and the store mode.

  \<^item> \<open>Manifest_Io\<close>, \<open>Page_View\<close>, \<open>Write_Task\<close>, \<open>Write_Task_Correct\<close>, \<open>Write_Props\<close>
    (\<open>src/async_io_manager.cpp\<close>, \<open>src/tasks/write_task.cpp\<close>): a write task from its first allocation to its
    commit.  Whatever call fails, a replay finds the state before the task or the state after it.

  \<^item> \<open>Cow_Snapshots\<close>, \<open>Cow_Props\<close> (\<open>src/storage/page_manager.cpp\<close>, \<open>include/storage/page_mapper.h\<close>): the
    snapshots of a partition as a step relation over writers, readers, commits, aborts and releases.  A file
    page that a snapshot of a reader refers to is not allocated again.

  \<^item> \<open>Queues\<close> (\<open>include/circular_queue.h\<close>, \<open>src/storage/shard.cpp\<close>): the ring buffer and the list of pending
    writes both implement the locale \<open>deque\<close>.

  \<^item> \<open>Shard\<close>, \<open>Shard_Correct\<close>, \<open>Shard_Steps\<close>, \<open>Shard_Runs\<close>, \<open>Shard_Props\<close> (\<open>src/storage/shard.cpp\<close>,
    \<open>include/storage/shard.h\<close>, \<open>src/tasks/task_manager.cpp\<close>): the scheduling of requests as a step relation.
    \<open>shard_inv\<close> tells where each request is; the writes of a partition run one at a time and in order, and
    without new work the shard comes to rest with every request done, unless a batch without entries is among
    them.

  \<^bold>\<open>Bounds.\<close>  No fuel is used.  \<open>ReadEntries n\<close> and \<open>ix_ReadEntries n\<close> read at most \<open>n\<close> entries and are used with
  \<open>n\<close> at least the number of entries.  The measure of \<open>shard_drains\<close> is the lexicographic pair of a potential,
  which counts what is left to do with each request including its remaining retries, and the size of the stack
  of calls.

  \<^bold>\<open>Not modelled.\<close>  The task that merges a batch into the tree (\<open>src/tasks/batch_write_task.cpp\<close>) and those
  that read, scan and compact: what they do to pages is composed of the operations above, but their own code is
  not translated.  File garbage collection, the io_uring back end, cloud storage, replication, bindings, tools
  and benchmarks: their behaviour is that of the file system, of remote services or of other programs.
  Coroutines switch only where the model has a step: inside the copy of a mapping table, and between the steps
  of a shard.
\<close>

end
